(* ===== verification/Prelude.thy ===== *)
theory Prelude
  imports Main "HOL-Library.Word"
begin

unbundle bit_operations_syntax

text \<open>
  Shared vocabulary of the development: the Go integer types as words, the big-endian byte
  codec of \<^verbatim>\<open>encoding/binary\<close>, the wrap-around of Go's 64-bit \<^verbatim>\<open>int\<close>, and the lemmas on
  lists, sums and words that several components use.
\<close>

section \<open>Integer types\<close>

type_synonym byte = "8 word"
type_synonym u16 = "16 word"
type_synonym u32 = "32 word"
type_synonym i32 = "32 word"   \<comment> \<open>Go's \<open>int32\<close>, read with \<^const>\<open>sint\<close>\<close>
type_synonym uintptr = "64 word"

text \<open>Go's \<^verbatim>\<open>int\<close> has 64 bits on the supported platforms; \<open>wrap64\<close> is the value that an
  arithmetic result has after it is stored in one.\<close>

definition wrap64 :: "int \<Rightarrow> int" where
  "wrap64 x = sint (word_of_int x :: 64 word)"

section \<open>Big-endian codec\<close>

text \<open>\<^verbatim>\<open>binary.BigEndian.PutUint32\<close> writes four bytes; \<^verbatim>\<open>binary.BigEndian.Uint32\<close> reads the
  first four bytes of a slice and panics on a shorter one (\<open>None\<close>).\<close>

definition PutUint32 :: "u32 \<Rightarrow> byte list" where
  "PutUint32 v = [ucast (drop_bit 24 v), ucast (drop_bit 16 v), ucast (drop_bit 8 v), ucast v]"

fun Uint32 :: "byte list \<Rightarrow> u32 option" where
  "Uint32 (b0 # b1 # b2 # b3 # bs) =
     Some (ucast b3 OR push_bit 8 (ucast b2) OR push_bit 16 (ucast b1) OR push_bit 24 (ucast b0))"
| "Uint32 _ = None"

named_theorems codec \<open>facts of the big-endian codec\<close>

lemma length_PutUint32 [simp, codec]: "length (PutUint32 v) = 4"
  by (simp add: PutUint32_def)

lemma PutUint32_not_Nil [simp]: "PutUint32 v \<noteq> []"
  by (simp add: PutUint32_def)

lemma be32_join_split:
  "(ucast (ucast v :: byte) :: u32) OR push_bit 8 (ucast (ucast (drop_bit 8 v) :: byte))
    OR push_bit 16 (ucast (ucast (drop_bit 16 v) :: byte))
    OR push_bit 24 (ucast (ucast (drop_bit 24 v) :: byte)) = v"
proof (rule bit_word_eqI)
  fix n assume "n < LENGTH(32)"
  then show "bit ((ucast (ucast v :: byte) :: u32) OR push_bit 8 (ucast (ucast (drop_bit 8 v) :: byte))
    OR push_bit 16 (ucast (ucast (drop_bit 16 v) :: byte))
    OR push_bit 24 (ucast (ucast (drop_bit 24 v) :: byte))) n \<longleftrightarrow> bit v n"
    by (cases "24 \<le> n"; cases "16 \<le> n"; cases "8 \<le> n") (auto simp: bit_simps not_less dest: bit_imp_le_length)
qed

lemma Uint32_PutUint32 [simp, codec]: "Uint32 (PutUint32 v @ bs) = Some v"
  using be32_join_split [of v] by (simp add: PutUint32_def)

lemma Uint32_PutUint32_Nil [simp, codec]: "Uint32 (PutUint32 v) = Some v"
  using Uint32_PutUint32 [of v "[]"] by simp

lemma Uint32_Some_iff: "(\<exists>v. Uint32 bs = Some v) \<longleftrightarrow> 4 \<le> length bs"
  by (cases bs rule: Uint32.cases) auto

lemma Uint32_length4: "length bs = 4 \<Longrightarrow> \<exists>v. Uint32 bs = Some v"
  by (simp add: Uint32_Some_iff)

text \<open>Block numbers as they travel between daemon and client.\<close>

definition indexes :: "nat list \<Rightarrow> byte list" where
  "indexes bs = concat (map (\<lambda>b. PutUint32 (of_nat b)) bs)"

lemma indexes_simps [simp]:
  "indexes [] = []" "indexes (b # bs) = PutUint32 (of_nat b) @ indexes bs" "indexes (bs @ bs') = indexes bs @ indexes bs'"
  by (simp_all add: indexes_def)

lemma PutUint32_Uint32: "length bs = 4 \<Longrightarrow> Uint32 bs = Some v \<Longrightarrow> PutUint32 v = bs"
proof (cases bs rule: Uint32.cases)
  case (1 b0 b1 b2 b3 r)
  assume "length bs = 4" "Uint32 bs = Some v"
  with 1 have r: "r = []"
    and v: "v = ucast b3 OR push_bit 8 (ucast b2) OR push_bit 16 (ucast b1) OR push_bit 24 (ucast b0)"
    by auto
  have "(ucast (drop_bit 24 v) :: byte) = b0" "(ucast (drop_bit 16 v) :: byte) = b1"
    "(ucast (drop_bit 8 v) :: byte) = b2" "(ucast v :: byte) = b3"
    unfolding v by (rule bit_word_eqI, auto simp: bit_simps dest: bit_imp_le_length)+
  with 1 r show ?thesis by (simp add: PutUint32_def)
qed auto

lemma PutUint32_inj [simp]: "PutUint32 v = PutUint32 w \<longleftrightarrow> v = w"
  by (metis Uint32_PutUint32_Nil option.inject)

section \<open>Words\<close>

lemma sint_of_nat32: "n < 2 ^ 31 \<Longrightarrow> sint (of_nat n :: i32) = int n"
  using sint_sbintrunc' [where 'a = 32, of "int n"] by (simp add: signed_take_bit_int_eq_self)

lemma uint_less_2p32: "uint (v :: u32) < 2 ^ 32"
  using uint_lt2p [of v] by simp

lemma unat_less_if_uint: "\<not> int n \<le> uint (w :: u32) \<Longrightarrow> Suc (unat w) \<le> n"
proof -
  assume "\<not> int n \<le> uint w"
  then have "int (unat w) < int n" by simp
  then show ?thesis by linarith
qed

lemma wrap64_id: "- (2 ^ 63) \<le> x \<Longrightarrow> x < 2 ^ 63 \<Longrightarrow> wrap64 x = x"
  using sint_sbintrunc' [where 'a = 64, of x] by (simp add: wrap64_def signed_take_bit_int_eq_self)

section \<open>Lists\<close>

lemma sum_map_update:
  fixes f :: "'a \<Rightarrow> nat"
  assumes "k < length xs"
  shows "sum_list (map f (xs[k := y])) + f (xs ! k) = sum_list (map f xs) + f y"
  using assms
proof (induction xs arbitrary: k)
  case (Cons x xs)
  then show ?case by (cases k) auto
qed simp

lemma sum_map_zero_iff: "sum_list (map f xs) = (0::nat) \<longleftrightarrow> (\<forall>x \<in> set xs. f x = 0)"
  by (induction xs) auto

lemma sum_map_bound: "(\<And>x. x \<in> set xs \<Longrightarrow> f x \<le> (1::nat)) \<Longrightarrow> sum_list (map f xs) \<le> length xs"
  by (induction xs) (auto, fastforce)

lemma count_list_eq_0: "count_list xs x = 0 \<longleftrightarrow> x \<notin> set xs"
  by (simp add: count_list_0_iff)

end
