(* ===== verification/Goio.thy ===== *)
theory Goio
  imports Prelude
begin

text \<open>
  The connection operations of \<^verbatim>\<open>net.UnixConn\<close> and \<^verbatim>\<open>io\<close> that testimony calls.  A connection
  is what its peer and the kernel make of it: the data that will arrive, already cut into the
  pieces in which single \<^verbatim>\<open>Read\<close> calls return it, the error that \<^verbatim>\<open>Read\<close> gives when no data is
  left, and how many more bytes the peer takes before a \<^verbatim>\<open>Write\<close> fails.  The functions that take
  an \<^verbatim>\<open>io.Writer\<close> in Go take the writer's \<^verbatim>\<open>Write\<close> method here; what they rely on is the locale
  \<open>io_writer\<close>, and what the readers rely on is the locale \<open>byte_source\<close>.
\<close>

section \<open>Connections\<close>

datatype io_err = EOF | ErrUnexpectedEOF | ErrIO

record uconn =
  rchunks :: "byte list list"   \<comment> \<open>data to arrive, one element per delivery\<close>
  rfin :: io_err                \<comment> \<open>what \<open>Read\<close> returns when no data is left\<close>
  wbytes :: "byte list"         \<comment> \<open>bytes written so far\<close>
  wfds :: "int list"            \<comment> \<open>file descriptors passed so far\<close>
  wroom :: "nat option"         \<comment> \<open>bytes still accepted; \<open>None\<close>: no write fails\<close>
  uclosed :: bool

definition Read :: "uconn \<Rightarrow> nat \<Rightarrow> byte list \<times> io_err option \<times> uconn" where
  "Read c n =
     (if uclosed c then ([], Some ErrIO, c)
      else case rchunks c of
        [] \<Rightarrow> ([], Some (rfin c), c)
      | b # bs \<Rightarrow> (take n b, None,
                  c\<lparr>rchunks := (if length b \<le> n then bs else drop n b # bs)\<rparr>))"

text \<open>How many \<^verbatim>\<open>Read\<close> calls the data can still serve, at most.\<close>

definition read_work :: "uconn \<Rightarrow> nat" where
  "read_work c = (\<Sum>b\<leftarrow>rchunks c. Suc (length b))"

lemma Read_work:
  "Read c n = (bs, None, c') \<Longrightarrow> 0 < n \<Longrightarrow> read_work c' < read_work c"
  by (auto simp: Read_def read_work_def split: list.splits if_splits)

text \<open>\<^verbatim>\<open>io.ReadFull\<close> calls \<^verbatim>\<open>Read\<close> until the buffer is full or an error comes; an \<^verbatim>\<open>EOF\<close> after
  some bytes becomes \<^verbatim>\<open>ErrUnexpectedEOF\<close>.\<close>

function read_loop :: "uconn \<Rightarrow> byte list \<Rightarrow> nat \<Rightarrow> (io_err \<times> byte list + byte list) \<times> uconn" where
  "read_loop c got n =
     (if n \<le> length got then (Inr got, c)
      else case Read c (n - length got) of
        (bs, None, c') \<Rightarrow> read_loop c' (got @ bs) n
      | (bs, Some e, c') \<Rightarrow> (Inl (e, got @ bs), c'))"
  by pat_completeness auto
termination
  by (relation "measure (\<lambda>(c, got, n). read_work c)") (auto dest: Read_work [OF sym])

declare read_loop.simps [simp del]

definition ReadFull :: "uconn \<Rightarrow> nat \<Rightarrow> (io_err + byte list) \<times> uconn" where
  "ReadFull c n =
     (case read_loop c [] n of
        (Inr bs, c') \<Rightarrow> (Inr bs, c')
      | (Inl (e, bs), c') \<Rightarrow>
          (Inl (if bs \<noteq> [] \<and> e = EOF then ErrUnexpectedEOF else e), c'))"

definition Write :: "uconn \<Rightarrow> byte list \<Rightarrow> io_err option \<times> uconn" where
  "Write c bs =
     (if uclosed c then (Some ErrIO, c)
      else case wroom c of
        None \<Rightarrow> (None, c\<lparr>wbytes := wbytes c @ bs\<rparr>)
      | Some k \<Rightarrow>
          if length bs \<le> k then (None, c\<lparr>wbytes := wbytes c @ bs, wroom := Some (k - length bs)\<rparr>)
          else (Some ErrIO, c\<lparr>wbytes := wbytes c @ take k bs, wroom := Some 0\<rparr>))"

text \<open>\<^verbatim>\<open>WriteMsgUnix\<close> with one \<^verbatim>\<open>SCM_RIGHTS\<close> control message: the descriptor travels with the
  data, so it arrives exactly when the data does.\<close>

definition WriteMsgUnix :: "uconn \<Rightarrow> byte list \<Rightarrow> int \<Rightarrow> io_err option \<times> uconn" where
  "WriteMsgUnix c bs fd =
     (case Write c bs of
        (None, c') \<Rightarrow> (None, c'\<lparr>wfds := wfds c' @ [fd]\<rparr>)
      | (Some e, c') \<Rightarrow> (Some e, c'))"

definition Close :: "uconn \<Rightarrow> uconn" where
  "Close c = c\<lparr>uclosed := True\<rparr>"

definition pending :: "uconn \<Rightarrow> byte list" where
  "pending c = concat (rchunks c)"

section \<open>What a reader relies on\<close>

text \<open>A source of bytes: reading \<open>n\<close> bytes gives the next \<open>n\<close> pending bytes in order, whatever the
  pieces they arrive in; when fewer are pending the read fails.\<close>

locale byte_source =
  fixes rd :: "'c \<Rightarrow> nat \<Rightarrow> ('e + byte list) \<times> 'c"
    and left :: "'c \<Rightarrow> byte list"
    and live :: "'c \<Rightarrow> bool"
  assumes rd_enough: "live c \<Longrightarrow> n \<le> length (left c) \<Longrightarrow>
      \<exists>c'. rd c n = (Inr (take n (left c)), c') \<and> left c' = drop n (left c) \<and> live c'"
    and rd_short: "live c \<Longrightarrow> length (left c) < n \<Longrightarrow> \<exists>e c'. rd c n = (Inl e, c')"
begin

lemma rd_prefix:
  assumes "live c" and "left c = bs @ rest" and "length bs = n"
  shows "\<exists>c'. rd c n = (Inr bs, c') \<and> left c' = rest \<and> live c'"
  using rd_enough [of c n] assms by auto

lemma rd_ok_iff: "live c \<Longrightarrow> (\<exists>bs c'. rd c n = (Inr bs, c')) \<longleftrightarrow> n \<le> length (left c)"
  using rd_enough [of c n] rd_short [of c n] by fastforce

lemma rd_Inr:
  assumes "live c" and "rd c n = (Inr bs, c')"
  shows "bs = take n (left c) \<and> length bs = n \<and> left c' = drop n (left c) \<and> live c'"
  using assms rd_ok_iff [of c n] rd_enough [of c n] by auto

end

lemma Read_closed [simp]: "uclosed (snd (snd (Read c n))) = uclosed c"
  by (simp add: Read_def split: list.split)

lemma read_loop_enough:
  assumes "\<not> uclosed c" and "length got \<le> n" and "n \<le> length got + length (pending c)"
  shows "\<exists>c'. read_loop c got n = (Inr (got @ take (n - length got) (pending c)), c') \<and>
           pending c' = drop (n - length got) (pending c) \<and>
           c' = c\<lparr>rchunks := rchunks c'\<rparr>"
  using assms
proof (induction c got n rule: read_loop.induct)
  case (1 c got n)
  show ?case
  proof (cases "n = length got")
    case True
    then show ?thesis by (simp add: read_loop.simps)
  next
    case False
    with "1.prems"(2) have less: "length got < n" by simp
    with "1.prems"(3) obtain b bs where ch: "rchunks c = b # bs"
      by (cases "rchunks c") (auto simp: pending_def)
    let ?k = "n - length got"
    let ?c = "c\<lparr>rchunks := (if length b \<le> ?k then bs else drop ?k b # bs)\<rparr>"
    have rd: "Read c ?k = (take ?k b, None, ?c)"
      using ch "1.prems"(1) by (simp add: Read_def)
    have pc: "pending c = take ?k b @ pending ?c"
      using ch by (simp add: pending_def append_take_drop_id [symmetric])
    have len: "length (take ?k b) \<le> ?k" by simp
    have "\<exists>c'. read_loop ?c (got @ take ?k b) n =
            (Inr ((got @ take ?k b) @ take (n - length (got @ take ?k b)) (pending ?c)), c') \<and>
          pending c' = drop (n - length (got @ take ?k b)) (pending ?c) \<and>
          c' = ?c\<lparr>rchunks := rchunks c'\<rparr>"
      using less "1.prems" len pc
      by (intro "1.IH" [OF _ rd [symmetric] refl refl]) (auto simp del: length_take)
    then show ?thesis
      using less rd by (subst (1) read_loop.simps) (auto simp: pc)
  qed
qed

lemma read_loop_short:
  assumes "\<not> uclosed c" and "length got + length (pending c) < n"
  shows "\<exists>c'. read_loop c got n = (Inl (rfin c, got @ pending c), c') \<and>
           c' = c\<lparr>rchunks := []\<rparr>"
  using assms
proof (induction c got n rule: read_loop.induct)
  case (1 c got n)
  let ?k = "n - length got"
  show ?case
  proof (cases "rchunks c")
    case Nil
    with "1.prems" show ?thesis
      by (subst read_loop.simps) (auto simp: Read_def pending_def)
  next
    case (Cons b bs)
    with "1.prems" have "length b \<le> ?k" by (simp add: pending_def)
    then have rd: "Read c ?k = (b, None, c\<lparr>rchunks := bs\<rparr>)"
      using Cons "1.prems"(1) by (simp add: Read_def)
    have "\<exists>c'. read_loop (c\<lparr>rchunks := bs\<rparr>) (got @ b) n =
        (Inl (rfin (c\<lparr>rchunks := bs\<rparr>), (got @ b) @ pending (c\<lparr>rchunks := bs\<rparr>)), c') \<and>
        c' = c\<lparr>rchunks := bs, rchunks := []\<rparr>"
      using "1.prems" Cons
      by (intro "1.IH" [OF _ rd [symmetric] refl refl]) (auto simp: pending_def)
    then show ?thesis
      using "1.prems"(2) rd Cons by (subst read_loop.simps) (auto simp: pending_def)
  qed
qed

lemma read_loop_work: "read_loop c got n = (r, c') \<Longrightarrow> read_work c' \<le> read_work c"
proof (induction c got n rule: read_loop.induct)
  case (1 c got n)
  obtain bs err c1 where rd: "Read c (n - length got) = (bs, err, c1)"
    by (cases "Read c (n - length got)")
  show ?case
  proof (cases "n \<le> length got")
    case True
    with "1.prems" show ?thesis by (simp add: read_loop.simps)
  next
    case False
    show ?thesis
    proof (cases err)
      case None
      with False rd "1.prems" have "read_loop c1 (got @ bs) n = (r, c')"
        by (simp add: read_loop.simps [of c])
      from "1.IH" [OF False rd [symmetric] refl None this] have "read_work c' \<le> read_work c1" .
      moreover have "read_work c1 < read_work c"
        using Read_work [of c _ bs c1] rd None False by simp
      ultimately show ?thesis by simp
    next
      case (Some e)
      with False rd "1.prems" have "c' = c1"
        by (simp add: read_loop.simps [of c])
      with rd Some show ?thesis
        by (auto simp: Read_def split: list.splits if_splits)
    qed
  qed
qed

lemma ReadFull_work: "ReadFull c n = (r, c') \<Longrightarrow> read_work c' \<le> read_work c"
  using read_loop_work [of c "[]" n] by (auto simp: ReadFull_def split: prod.splits sum.splits)

lemma ReadFull_enough:
  assumes "\<not> uclosed c" and "n \<le> length (pending c)"
  shows "\<exists>c'. ReadFull c n = (Inr (take n (pending c)), c') \<and> pending c' = drop n (pending c) \<and>
           c' = c\<lparr>rchunks := rchunks c'\<rparr>"
  using read_loop_enough [of c "[]" n] assms by (fastforce simp: ReadFull_def)

lemma ReadFull_short:
  assumes "\<not> uclosed c" and "length (pending c) < n"
  shows "ReadFull c n =
    (Inl (if pending c \<noteq> [] \<and> rfin c = EOF then ErrUnexpectedEOF else rfin c), c\<lparr>rchunks := []\<rparr>)"
  using read_loop_short [of c "[]" n] assms by (auto simp: ReadFull_def)

lemma ReadFull_fields:
  assumes "ReadFull c n = (r, c')"
  shows "c' = c\<lparr>rchunks := rchunks c'\<rparr>"
proof (cases "uclosed c")
  case True
  then show ?thesis
    using assms by (auto simp: ReadFull_def read_loop.simps [of c] Read_def split: if_splits)
next
  case False
  then show ?thesis
    using assms ReadFull_enough [of c n] ReadFull_short [of c n]
    by (cases "n \<le> length (pending c)") auto
qed

interpretation uc: byte_source ReadFull pending "\<lambda>c. \<not> uclosed c"
proof
  show "\<exists>c'. ReadFull c n = (Inr (take n (pending c)), c') \<and> pending c' = drop n (pending c) \<and> \<not> uclosed c'"
    if "\<not> uclosed c" and "n \<le> length (pending c)" for c n
    using ReadFull_enough [OF that] ReadFull_fields that(1) by (metis uconn.select_convs(6) uconn.surjective uconn.update_convs(1))
  show "\<exists>e c'. ReadFull c n = (Inl e, c')" if "\<not> uclosed c" and "length (pending c) < n" for c n
    using ReadFull_short [OF that] by blast
qed

section \<open>What a writer promises\<close>

text \<open>\<^verbatim>\<open>io.Writer\<close>: a \<^verbatim>\<open>Write\<close> without error has put exactly its argument on the wire.\<close>

locale io_writer =
  fixes wr :: "'w \<Rightarrow> byte list \<Rightarrow> io_err option \<times> 'w"
    and sent :: "'w \<Rightarrow> byte list"
  assumes wr_ok: "wr w bs = (None, w') \<Longrightarrow> sent w' = sent w @ bs"
    and wr_err: "wr w bs = (Some e, w') \<Longrightarrow> \<exists>k. k \<le> length bs \<and> sent w' = sent w @ take k bs"
begin

lemma sent_mono: "wr w bs = (r, w') \<Longrightarrow> \<exists>ys. sent w' = sent w @ ys"
  using wr_ok wr_err by (cases r) blast+

end

interpretation uw: io_writer Write wbytes
proof
  show "wbytes w' = wbytes w @ bs" if "Write w bs = (None, w')" for w bs w'
    using that by (auto simp: Write_def split: if_splits option.splits)
  show "\<exists>k\<le>length bs. wbytes w' = wbytes w @ take k bs" if "Write w bs = (Some e, w')" for w bs e w'
  proof (cases "uclosed w")
    case True
    with that show ?thesis by (intro exI [of _ 0]) (simp add: Write_def)
  next
    case False
    with that obtain k where "k < length bs" "wbytes w' = wbytes w @ take k bs"
      by (auto simp: Write_def not_le split: if_splits option.splits)
    then show ?thesis by (intro exI [of _ k]) simp
  qed
qed

lemma Write_open [simp]: "\<not> uclosed c \<Longrightarrow> wroom c = None \<Longrightarrow> Write c bs = (None, c\<lparr>wbytes := wbytes c @ bs\<rparr>)"
  by (simp add: Write_def)

end
