(* ===== verification/Protocol.thy ===== *)
theory Protocol
  imports Goio
begin

text \<open>
  The wire protocol of \<^verbatim>\<open>go/protocol/protocol.go\<close>: the message types, their classification, the
  packing of a type and a length into one 32-bit word, and the functions that send a message; and
  the generator of \<^verbatim>\<open>go/protocol/to_c/to_c.go\<close> that prints the types as C macros.
\<close>

section \<open>Types\<close>

type_synonym ptype = u16

text \<open>The constant declaration counts with \<^verbatim>\<open>iota\<close>: \<open>TypeBlockIndex\<close> is entry 0 of the block, so the
  server's group starts at \<open>0x8000 + 1\<close> and the client's at \<open>0xC000 + 6\<close>.\<close>

definition TypeBlockIndex :: ptype where "TypeBlockIndex = 0"
definition TypeServerToClient :: ptype where "TypeServerToClient = 0x8000 + 1"
definition TypeWaitingForFanoutIndex :: ptype where "TypeWaitingForFanoutIndex = 0x8000 + 2"
definition TypeFanoutSize :: ptype where "TypeFanoutSize = 0x8000 + 3"
definition TypeBlockSize :: ptype where "TypeBlockSize = 0x8000 + 4"
definition TypeNumBlocks :: ptype where "TypeNumBlocks = 0x8000 + 5"
definition TypeClientToServer :: ptype where "TypeClientToServer = 0xC000 + 6"
definition TypeFanoutIndex :: ptype where "TypeFanoutIndex = 0xC000 + 7"
definition TypeError :: ptype where "TypeError = 0xFFFF"

lemmas type_consts =
  TypeBlockIndex_def TypeServerToClient_def TypeWaitingForFanoutIndex_def TypeFanoutSize_def
  TypeBlockSize_def TypeNumBlocks_def TypeClientToServer_def TypeFanoutIndex_def TypeError_def

definition TypeNames :: "(ptype \<times> string) list" where
  "TypeNames =
     [(TypeBlockIndex, ''BlockIndex''),
      (TypeServerToClient, ''ServerToClient''),
      (TypeWaitingForFanoutIndex, ''WaitingForFanoutIndex''),
      (TypeFanoutSize, ''FanoutSize''),
      (TypeBlockSize, ''BlockSize''),
      (TypeNumBlocks, ''NumBlocks''),
      (TypeClientToServer, ''ClientToServer''),
      (TypeFanoutIndex, ''FanoutIndex''),
      (TypeError, ''Error'')]"

definition TypeOf :: "ptype \<Rightarrow> ptype" where
  "TypeOf t =
     (if t AND 0x8000 = 0 then TypeBlockIndex
      else if t > TypeServerToClient \<and> t < TypeClientToServer then TypeServerToClient
      else if t > TypeClientToServer \<and> t < TypeError then TypeClientToServer
      else TypeError)"

section \<open>Type and length in one word\<close>

definition TLFrom :: "u32 \<Rightarrow> ptype \<times> int" where
  "TLFrom from =
     (if from AND 0x80000000 = 0 then (TypeBlockIndex, 0)
      else (ucast (drop_bit 16 from), uint (from AND 0xFFFF)))"

definition ToTL :: "ptype \<Rightarrow> int \<Rightarrow> u32" where
  "ToTL typ len = push_bit 16 (ucast typ) + word_of_int len"

section \<open>Sending\<close>

datatype send_err = InvalidSendType ptype | TooLongValue nat | WriteFailed io_err

text \<open>The \<^verbatim>\<open>io.Writer\<close> argument is the writer together with its \<^verbatim>\<open>Write\<close> method.\<close>

definition SendTLV ::
    "('w \<Rightarrow> byte list \<Rightarrow> io_err option \<times> 'w) \<Rightarrow> 'w \<Rightarrow> ptype \<Rightarrow> byte list \<Rightarrow> send_err option \<times> 'w" where
  "SendTLV write to typ val =
     (if TypeOf typ \<noteq> TypeServerToClient \<and> TypeOf typ \<noteq> TypeClientToServer
      then (Some (InvalidSendType typ), to)
      else if length val > 0xFFFF then (Some (TooLongValue (length val)), to)
      else case write to (PutUint32 (ToTL typ (int (length val))) @ val) of
        (None, to') \<Rightarrow> (None, to')
      | (Some e, to') \<Rightarrow> (Some (WriteFailed e), to'))"

definition SendType ::
    "('w \<Rightarrow> byte list \<Rightarrow> io_err option \<times> 'w) \<Rightarrow> 'w \<Rightarrow> ptype \<Rightarrow> send_err option \<times> 'w" where
  "SendType write to typ = SendTLV write to typ []"

definition SendUint32 ::
    "('w \<Rightarrow> byte list \<Rightarrow> io_err option \<times> 'w) \<Rightarrow> 'w \<Rightarrow> ptype \<Rightarrow> u32 \<Rightarrow> send_err option \<times> 'w" where
  "SendUint32 write to typ val = SendTLV write to typ (PutUint32 val)"

section \<open>The macro generator\<close>

text \<open>\<^verbatim>\<open>%d\<close> of a non-negative number.\<close>

fun dec_digits :: "nat \<Rightarrow> string" where
  "dec_digits n =
     (if n < 10 then [char_of (48 + n)] else dec_digits (n div 10) @ [char_of (48 + n mod 10)])"

declare dec_digits.simps [simp del]

text \<open>\<^verbatim>\<open>protocol.TypeNames[k]\<close>: a missing key gives the empty string.\<close>

definition type_name :: "ptype \<Rightarrow> string" where
  "type_name t = (case map_of TypeNames t of None \<Rightarrow> '''' | Some s \<Rightarrow> s)"

definition to_c_line :: "nat \<Rightarrow> string" where
  "to_c_line k =
     ''#define TESTIMONY_PROTOCOL_TYPE_'' @ type_name (of_nat k) @ '' '' @ dec_digits k"

definition to_c_main :: "string list" where
  "to_c_main = map to_c_line (sort (map (unat \<circ> fst) TypeNames))"

section \<open>Classification\<close>

lemma high_bit16_bit: "(t :: u16) AND 0x8000 = 0 \<longleftrightarrow> \<not> bit t 15"
  using and_exp_eq_0_iff_not_bit [of t 15] by simp

lemma high_bit16: "(t :: u16) AND 0x8000 = 0 \<longleftrightarrow> unat t < 0x8000"
proof -
  have "t AND 0x8000 = 0 \<longleftrightarrow> \<not> bit t 15"
    by (rule high_bit16_bit)
  also have "\<dots> \<longleftrightarrow> unat t < 2 ^ 15"
  proof
    assume nb: "\<not> bit t 15"
    have "t = take_bit 15 t"
    proof (rule bit_word_eqI)
      fix n assume "n < LENGTH(16)"
      then show "bit t n \<longleftrightarrow> bit (take_bit 15 t) n"
        using nb by (cases "n = 15") (auto simp: bit_take_bit_iff)
    qed
    then have "unat t = take_bit 15 (unat t)"
      by (metis unsigned_take_bit_eq)
    then show "unat t < 2 ^ 15"
      by (metis take_bit_nat_less_exp)
  next
    assume "unat t < 2 ^ 15"
    then have "\<not> bit (unat t) 15"
      by (simp add: bit_nat_def)
    then show "\<not> bit t 15"
      by (simp add: bit_unsigned_iff)
  qed
  finally show ?thesis by simp
qed

lemma TypeOf_BlockIndex_iff: "TypeOf t = TypeBlockIndex \<longleftrightarrow> unat t < 0x8000"
  by (auto simp: TypeOf_def high_bit16 type_consts)

text \<open>Classification is the partition of the 16-bit types into four ranges: below 0x8000 a block
  index, strictly between the two group markers a server message, strictly between the client marker
  and 0xFFFF a client message, and everything else (0x8000, both markers and 0xFFFF) an error.\<close>

theorem TypeOf_ranges:
  "TypeOf t =
     (if unat t < 0x8000 then TypeBlockIndex
      else if unat t \<in> {0x8002..<0xC006} then TypeServerToClient
      else if unat t \<in> {0xC007..<0xFFFF} then TypeClientToServer
      else TypeError)"
  by (auto simp: TypeOf_def high_bit16 type_consts word_less_nat_alt)

section \<open>Packing and unpacking\<close>

lemma high_bit32: "(v :: u32) AND 0x80000000 = 0 \<longleftrightarrow> \<not> bit v 31"
  using and_exp_eq_0_iff_not_bit [of v 31] by simp

lemma mask16: "(0xFFFF :: u32) = mask 16"
  by (simp add: mask_eq_exp_minus_1)

lemma len_high_bits:
  assumes "0 \<le> len" and "len \<le> 0xFFFF" and "16 \<le> n"
  shows "\<not> bit (word_of_int len :: u32) n"
proof -
  have "take_bit 16 len = len"
    using assms by (simp add: take_bit_int_eq_self_iff)
  then have "\<not> bit len n"
    using assms(3) by (metis bit_take_bit_iff not_le)
  then show ?thesis by (simp add: bit_word_of_int_iff)
qed

lemma len_mask:
  assumes "0 \<le> len" and "len \<le> 0xFFFF"
  shows "uint (word_of_int len AND 0xFFFF :: u32) = len"
proof -
  have "(word_of_int len AND 0xFFFF :: u32) = take_bit 16 (word_of_int len)"
    by (simp add: take_bit_eq_mask mask16)
  also have "uint \<dots> = len"
    using assms by (simp add: unsigned_take_bit_eq uint_word_of_int take_bit_int_eq_self)
  finally show ?thesis .
qed

lemma ToTL_or:
  assumes "0 \<le> len" and "len \<le> 0xFFFF"
  shows "ToTL t len = push_bit 16 (ucast t) OR word_of_int len"
proof -
  have "push_bit 16 (ucast t :: u32) AND word_of_int len = 0"
    using len_high_bits [OF assms] by (intro bit_word_eqI) (auto simp: bit_simps)
  then show ?thesis by (simp add: ToTL_def disjunctive_add_eq_or)
qed

lemma TLFrom_ToTL:
  assumes "0x8000 \<le> unat t" and "0 \<le> len" and "len \<le> 0xFFFF"
  shows "TLFrom (ToTL t len) = (t, len)"
proof -
  note or = ToTL_or [OF assms(2,3)] and hi = len_high_bits [OF assms(2,3)]
  from assms(1) have "bit t 15"
    using high_bit16 [of t] high_bit16_bit [of t] by simp
  then have "ToTL t len AND 0x80000000 \<noteq> 0"
    unfolding high_bit32 or by (simp add: bit_simps)
  moreover have "ucast (drop_bit 16 (ToTL t len)) = t"
    unfolding or using hi by (intro bit_word_eqI) (auto simp: bit_simps)
  moreover have "ToTL t len AND 0xFFFF = word_of_int len AND (0xFFFF::u32)"
    unfolding or mask16 using hi by (intro bit_word_eqI) (auto simp: bit_simps)
  ultimately show ?thesis
    using len_mask [OF assms(2,3)] by (simp add: TLFrom_def)
qed

lemma ToTL_TLFrom:
  assumes "bit v 31"
  shows "ToTL (fst (TLFrom v)) (snd (TLFrom v)) = v"
proof -
  have "push_bit 16 (ucast (ucast (drop_bit 16 v) :: u16)) AND (v AND 0xFFFF) = (0::u32)"
    unfolding mask16 by (intro bit_word_eqI) (auto simp: bit_simps)
  moreover have "push_bit 16 (ucast (ucast (drop_bit 16 v) :: u16)) OR (v AND 0xFFFF) = v"
    unfolding mask16 by (intro bit_word_eqI) (auto simp: bit_simps)
  ultimately show ?thesis
    using assms by (simp add: TLFrom_def ToTL_def disjunctive_add_eq_or high_bit32)
qed

lemma TLFrom_index: "\<not> bit v 31 \<Longrightarrow> TLFrom v = (TypeBlockIndex, 0)"
  by (simp add: TLFrom_def high_bit32)

lemma TLFrom_type_high: "bit v 31 \<Longrightarrow> 0x8000 \<le> unat (fst (TLFrom v))"
proof -
  assume b: "bit v 31"
  then have "bit (fst (TLFrom v)) 15"
    by (simp add: TLFrom_def high_bit32 bit_simps)
  then show ?thesis
    using high_bit16 [of "fst (TLFrom v)"] high_bit16_bit [of "fst (TLFrom v)"] by simp
qed

lemma TLFrom_len: "0 \<le> snd (TLFrom v) \<and> snd (TLFrom v) \<le> 0xFFFF"
proof -
  have "uint (v AND 0xFFFF) \<le> uint (0xFFFF :: u32)"
    by (metis and.commute word_and_le2 word_le_def)
  then show ?thesis by (simp add: TLFrom_def)
qed

lemma bit31_uint: "\<not> bit (v :: u32) 31 \<longleftrightarrow> uint v < 2 ^ 31"
proof
  assume nb: "\<not> bit v 31"
  have "v = take_bit 31 v"
  proof (rule bit_word_eqI)
    fix n assume "n < LENGTH(32)"
    then show "bit v n \<longleftrightarrow> bit (take_bit 31 v) n"
      using nb by (cases "n = 31") (auto simp: bit_take_bit_iff)
  qed
  then have "uint v = take_bit 31 (uint v)"
    by (metis unsigned_take_bit_eq)
  then show "uint v < 2 ^ 31"
    by (metis take_bit_int_less_exp)
next
  assume "uint v < 2 ^ 31"
  then have "\<not> bit (uint v) 31"
    by (simp add: bit_int_def)
  then show "\<not> bit v 31"
    by (simp add: bit_unsigned_iff)
qed

text \<open>C39: a 32-bit word with the high bit set and a pair of a high-bit type and a 16-bit length are two
  forms of the same header: \<^verbatim>\<open>TLFrom\<close> after \<^verbatim>\<open>ToTL\<close> gives the pair back, \<^verbatim>\<open>ToTL\<close> after \<^verbatim>\<open>TLFrom\<close>
  gives the word back, and a word without the high bit is always a block index.\<close>

theorem TL_roundtrip:
  "0x8000 \<le> unat t \<Longrightarrow> 0 \<le> len \<Longrightarrow> len \<le> 0xFFFF \<Longrightarrow> v AND 0x80000000 \<noteq> 0 \<Longrightarrow> w AND 0x80000000 = 0 \<Longrightarrow>
   TLFrom (ToTL t len) = (t, len) \<and>
   ToTL (fst (TLFrom v)) (snd (TLFrom v)) = v \<and>
   TLFrom w = (TypeBlockIndex, 0)"
  by (simp add: TLFrom_ToTL ToTL_TLFrom TLFrom_index high_bit32)

theorem TL_roundtrip_witness:
  "TLFrom (ToTL TypeFanoutSize 4) = (TypeFanoutSize, 4) \<and>
   ToTL (fst (TLFrom 0x80030004)) (snd (TLFrom 0x80030004)) = 0x80030004 \<and>
   TLFrom 7 = (TypeBlockIndex, 0)"
  using TL_roundtrip [of TypeFanoutSize 4 "0x80030004" 7] by (simp add: type_consts)

section \<open>What is on the wire\<close>

context io_writer
begin

lemma SendTLV_ok:
  assumes "SendTLV wr w t val = (None, w')"
  shows "sent w' = sent w @ PutUint32 (ToTL t (int (length val))) @ val \<and> length val \<le> 0xFFFF \<and>
         TypeOf t \<in> {TypeServerToClient, TypeClientToServer}"
  using assms wr_ok by (auto simp: SendTLV_def split: if_splits prod.splits option.splits)

lemma SendTLV_rejects:
  assumes "SendTLV wr w t val = (Some e, w')" and "\<And>x. e \<noteq> WriteFailed x"
  shows "w' = w"
  using assms by (auto simp: SendTLV_def split: if_splits prod.splits option.splits)

lemma SendTLV_accepts:
  assumes "TypeOf t \<in> {TypeServerToClient, TypeClientToServer}" and "length val \<le> 0xFFFF"
  shows "SendTLV wr w t val =
    (case wr w (PutUint32 (ToTL t (int (length val))) @ val) of
       (None, w') \<Rightarrow> (None, w') | (Some e, w') \<Rightarrow> (Some (WriteFailed e), w'))"
  using assms by (auto simp: SendTLV_def)

lemma SendUint32_ok:
  "SendUint32 wr w t v = (None, w') \<Longrightarrow> sent w' = sent w @ PutUint32 (ToTL t 4) @ PutUint32 v"
  using SendTLV_ok [of w t "PutUint32 v" w'] by (simp add: SendUint32_def)

lemma SendType_ok:
  "SendType wr w t = (None, w') \<Longrightarrow> sent w' = sent w @ PutUint32 (ToTL t 0)"
  using SendTLV_ok [of w t "[]" w'] by (simp add: SendType_def)

end

lemma sendable_high: "TypeOf t \<in> {TypeServerToClient, TypeClientToServer} \<Longrightarrow> 0x8000 \<le> unat t"
  using TypeOf_BlockIndex_iff [of t] by (auto simp: type_consts not_less)

text \<open>C40: what \<^verbatim>\<open>SendTLV\<close> puts on a connection can be read back.  When it reports success, the bytes
  added are a header from which \<^verbatim>\<open>TLFrom\<close> recovers exactly the type and the length, followed by the
  value; when it refuses the type or the length, nothing was written.\<close>

theorem SendTLV_wire:
  "case SendTLV Write c t val of
     (None, c') \<Rightarrow> (\<exists>hdr. wbytes c' = wbytes c @ PutUint32 hdr @ val \<and> TLFrom hdr = (t, int (length val)))
   | (Some (WriteFailed e), c') \<Rightarrow> True
   | (Some (InvalidSendType t'), c') \<Rightarrow> c' = c \<and> t' = t
   | (Some (TooLongValue n), c') \<Rightarrow> c' = c \<and> n = length val \<and> 0xFFFF < n"
proof (cases "SendTLV Write c t val")
  case (Pair r c')
  show ?thesis
  proof (cases r)
    case None
    with Pair uw.SendTLV_ok [of c t val c'] show ?thesis
      by (auto intro!: exI [of _ "ToTL t (int (length val))"] TLFrom_ToTL sendable_high)
  next
    case (Some e)
    with Pair show ?thesis
      by (auto simp: SendTLV_def split: if_splits prod.splits option.splits)
  qed
qed

text \<open>The generator prints exactly the macro list that is kept in \<^verbatim>\<open>c/testimony.c\<close>, in the same
  order, so the C client and the Go code agree on every type.\<close>

theorem to_c_matches_testimony_c:
  "to_c_main =
     [''#define TESTIMONY_PROTOCOL_TYPE_BlockIndex 0'',
      ''#define TESTIMONY_PROTOCOL_TYPE_ServerToClient 32769'',
      ''#define TESTIMONY_PROTOCOL_TYPE_WaitingForFanoutIndex 32770'',
      ''#define TESTIMONY_PROTOCOL_TYPE_FanoutSize 32771'',
      ''#define TESTIMONY_PROTOCOL_TYPE_BlockSize 32772'',
      ''#define TESTIMONY_PROTOCOL_TYPE_NumBlocks 32773'',
      ''#define TESTIMONY_PROTOCOL_TYPE_ClientToServer 49158'',
      ''#define TESTIMONY_PROTOCOL_TYPE_FanoutIndex 49159'',
      ''#define TESTIMONY_PROTOCOL_TYPE_Error 65535'']"
  by (simp add: to_c_main_def to_c_line_def TypeNames_def type_name_def type_consts
      dec_digits.simps char_of_def bit_simps)

end
