(* ===== verification/Gostrings.thy ===== *)
theory Gostrings
  imports Protocol
begin

text \<open>
  The string functions of Go's library that testimony calls: \<^verbatim>\<open>strconv.Atoi\<close>, and the word scanner
  \<^verbatim>\<open>bufio.ScanWords\<close>.  A Go string is a sequence of bytes, here a \<^typ>\<open>string\<close> of 8-bit characters.
\<close>

section \<open>Atoi\<close>

definition digit_val :: "char \<Rightarrow> int option" where
  "digit_val ch = (let v = (of_char ch :: int) in if 48 \<le> v \<and> v \<le> 57 then Some (v - 48) else None)"

fun digits_val :: "int \<Rightarrow> string \<Rightarrow> int option" where
  "digits_val acc [] = Some acc"
| "digits_val acc (ch # cs) =
     (case digit_val ch of None \<Rightarrow> None | Some d \<Rightarrow> digits_val (acc * 10 + d) cs)"

text \<open>An optional sign, at least one decimal digit, nothing else, and the value within the range of a
  64-bit \<^verbatim>\<open>int\<close>; \<open>None\<close> is any error.\<close>

definition Atoi :: "string \<Rightarrow> int option" where
  "Atoi s =
     (let neg = (s \<noteq> [] \<and> hd s = CHR ''-'');
          ds = (if s \<noteq> [] \<and> (hd s = CHR ''-'' \<or> hd s = CHR ''+'') then tl s else s)
      in if ds = [] then None
         else case digits_val 0 ds of
           None \<Rightarrow> None
         | Some v \<Rightarrow>
             let x = (if neg then - v else v)
             in if - (2 ^ 63) \<le> x \<and> x < 2 ^ 63 then Some x else None)"

section \<open>ScanWords\<close>

text \<open>The length in bytes of the space character at the start of the data, 0 if there is none: the ASCII
  spaces, and the UTF-8 encodings of the other spaces of the scanner (U+0085, U+00A0, U+1680,
  U+2000 to U+200A, U+2028, U+2029, U+202F, U+205F, U+3000).  The first byte of such an encoding never
  occurs inside another character, so bytes that decode to nothing can be passed one by one.\<close>

definition ascii_space :: "int \<Rightarrow> bool" where
  "ascii_space v \<longleftrightarrow> v = 32 \<or> (9 \<le> v \<and> v \<le> 13)"

definition space_len :: "int list \<Rightarrow> nat" where
  "space_len bs =
     (case bs of
        [] \<Rightarrow> 0
      | a # r1 \<Rightarrow>
          if ascii_space a then 1
          else case r1 of
            [] \<Rightarrow> 0
          | b # r2 \<Rightarrow>
              if a = 0xC2 \<and> (b = 0x85 \<or> b = 0xA0) then 2
              else case r2 of
                [] \<Rightarrow> 0
              | d # r3 \<Rightarrow>
                  if a = 0xE1 \<and> b = 0x9A \<and> d = 0x80
                   \<or> a = 0xE2 \<and> b = 0x80 \<and> (0x80 \<le> d \<and> d \<le> 0x8A \<or> d = 0xA8 \<or> d = 0xA9 \<or> d = 0xAF)
                   \<or> a = 0xE2 \<and> b = 0x81 \<and> d = 0x9F
                   \<or> a = 0xE3 \<and> b = 0x80 \<and> d = 0x80
                  then 3 else 0)"

lemma space_len_le: "space_len bs \<le> length bs"
  by (simp add: space_len_def split: list.split)

text \<open>The next word and the data after the space that ends it.\<close>

fun skip_spaces :: "nat \<Rightarrow> string \<Rightarrow> string" where
  "skip_spaces 0 s = s"
| "skip_spaces (Suc n) s =
     (let l = space_len (map of_char s) in if l = 0 then s else skip_spaces n (drop l s))"

fun take_word :: "string \<Rightarrow> string \<times> string" where
  "take_word [] = ([], [])"
| "take_word (ch # cs) =
     (let l = space_len (map of_char (ch # cs))
      in if l \<noteq> 0 then ([], drop l (ch # cs))
         else case take_word cs of (w, r) \<Rightarrow> (ch # w, r))"

lemma skip_spaces_length: "length (skip_spaces n s) \<le> length s"
proof (induction n arbitrary: s)
  case (Suc n)
  have "length (skip_spaces n (drop (space_len (map of_char s)) s)) \<le> length s"
    using Suc.IH [of "drop (space_len (map of_char s)) s"] by simp
  then show ?case by (simp add: Let_def)
qed simp

lemma take_word_length: "length (snd (take_word s)) \<le> length s"
  by (induction s) (auto simp: Let_def split: prod.split)

lemma take_word_less:
  assumes "s \<noteq> []" and "take_word s = (w, r)"
  shows "length r < length s"
proof (cases s)
  case (Cons ch cs)
  show ?thesis
  proof (cases "space_len (map of_char s) = 0")
    case True
    with Cons assms(2) have "r = snd (take_word cs)"
      by (auto simp: Let_def split: prod.splits)
    then show ?thesis using take_word_length [of cs] Cons by simp
  next
    case False
    with Cons assms(2) have "r = drop (space_len (map of_char s)) s" by (auto simp: Let_def)
    then show ?thesis using False Cons by simp
  qed
qed (use assms in simp)

lemma scan_less:
  assumes "skip_spaces (length s) s \<noteq> []" and "take_word (skip_spaces (length s) s) = (w, r)"
  shows "length r < length s"
  using take_word_less [OF assms] skip_spaces_length [of "length s" s] by simp

text \<open>All tokens that the scanner delivers.  It gives up, without any sign but its \<^verbatim>\<open>Err\<close> method, at a
  word that does not fit its buffer of 64 KiB.\<close>

definition MaxScanTokenSize :: int where
  "MaxScanTokenSize = 64 * 1024"

function scan_words :: "string \<Rightarrow> string list" where
  "scan_words s =
     (let t = skip_spaces (length s) s
      in if t = [] then []
         else case take_word t of
           (w, r) \<Rightarrow> if MaxScanTokenSize \<le> int (length w) then [] else w # scan_words r)"
  by pat_completeness auto
termination
  by (relation "measure length") (auto dest: scan_less [OF _ sym])

declare scan_words.simps [simp del]

section \<open>Reading back what is printed\<close>

lemma digit_val_char:
  assumes "d < 10"
  shows "digit_val (char_of (48 + d)) = Some (int d)"
proof -
  have "(of_char (char_of (48 + d)) :: int) = int (of_char (char_of (48 + d)))"
    by (simp only: of_nat_of_char)
  also have "\<dots> = int (48 + d)" using assms by simp
  finally show ?thesis using assms by (simp add: digit_val_def Let_def)
qed

lemma digits_val_append:
  "digits_val acc (xs @ ys) = (case digits_val acc xs of None \<Rightarrow> None | Some v \<Rightarrow> digits_val v ys)"
  by (induction acc xs rule: digits_val.induct) (auto split: option.split)

lemma digits_val_dec: "digits_val 0 (dec_digits n) = Some (int n)"
proof (induction n rule: dec_digits.induct)
  case (1 n)
  show ?case
  proof (cases "n < 10")
    case True
    then show ?thesis by (simp add: dec_digits.simps [of n] digit_val_char)
  next
    case False
    moreover have "int (n div 10) * 10 + int (n mod 10) = int n"
      using div_mult_mod_eq [of n 10] by (metis of_nat_add of_nat_mult of_nat_numeral)
    ultimately show ?thesis
      using 1 by (simp add: dec_digits.simps [of n] digits_val_append digit_val_char)
  qed
qed

definition is_digit :: "char \<Rightarrow> bool" where
  "is_digit ch \<longleftrightarrow> digit_val ch \<noteq> None"

lemma dec_digits_digits: "\<forall>ch \<in> set (dec_digits n). is_digit ch"
proof (induction n rule: dec_digits.induct)
  case (1 n)
  then show ?case
    by (cases "n < 10") (auto simp: dec_digits.simps [of n] is_digit_def digit_val_char)
qed

lemma dec_digits_not_Nil [simp]: "dec_digits n \<noteq> []"
  by (simp add: dec_digits.simps [of n])

lemma digit_not_sign: "is_digit ch \<Longrightarrow> ch \<noteq> CHR ''-'' \<and> ch \<noteq> CHR ''+''"
  by (auto simp: is_digit_def digit_val_def Let_def)

lemma Atoi_dec: "int n < 2 ^ 63 \<Longrightarrow> Atoi (dec_digits n) = Some (int n)"
proof -
  have "is_digit (hd (dec_digits n))"
    using dec_digits_digits [of n] hd_in_set [of "dec_digits n"] by simp
  then show "int n < 2 ^ 63 \<Longrightarrow> ?thesis"
    using digit_not_sign [of "hd (dec_digits n)"] by (simp add: Atoi_def Let_def digits_val_dec)
qed

lemma space_len_digit: "is_digit ch \<Longrightarrow> space_len (of_char ch # bs) = 0"
  by (auto simp: is_digit_def digit_val_def space_len_def ascii_space_def Let_def split: list.split if_splits)

lemma take_word_digits:
  assumes "\<forall>ch \<in> set w. is_digit ch" and "sep = CHR '' '' \<or> sep = CHR ''\<newline>''"
  shows "take_word (w @ sep # r) = (w, r)"
  using assms(1)
proof (induction w)
  case Nil
  then show ?case using assms(2) by (auto simp: space_len_def ascii_space_def)
next
  case (Cons ch w)
  then show ?case by (simp add: space_len_digit)
qed

lemma scan_words_digits:
  assumes "\<forall>ch \<in> set w. is_digit ch" and "w \<noteq> []" and "int (length w) < MaxScanTokenSize"
    and "sep = CHR '' '' \<or> sep = CHR ''\<newline>''"
  shows "scan_words (w @ sep # r) = w # scan_words r"
proof -
  have "skip_spaces n (w @ sep # r) = w @ sep # r" for n
    using assms(1,2) by (cases n; cases w) (simp_all add: space_len_digit)
  then show ?thesis
    using assms take_word_digits [OF assms(1,4), of r] by (simp add: scan_words.simps [of "w @ sep # r"] Let_def)
qed

lemma scan_words_Nil [simp]: "scan_words [] = []"
  by (simp add: scan_words.simps)

lemma dec_digits_length: "n < 10 ^ k \<Longrightarrow> 0 < k \<Longrightarrow> length (dec_digits n) \<le> k"
proof (induction n arbitrary: k rule: dec_digits.induct)
  case (1 n)
  show ?case
  proof (cases "n < 10")
    case True
    then show ?thesis using 1(3) by (simp add: dec_digits.simps [of n])
  next
    case False
    then obtain j where j: "k = Suc j" "0 < j"
      using 1(2,3) by (cases k; cases "k - 1") auto
    then have "n div 10 < 10 ^ j" using 1(2) by (simp add: less_mult_imp_div_less mult.commute)
    then show ?thesis
      using 1(1) [of j] False j by (simp add: dec_digits.simps [of n])
  qed
qed

end
