(* ===== verification/Bpf.thy ===== *)
theory Bpf
  imports Gostrings
begin

text \<open>
  Compilation of packet filters (\<^verbatim>\<open>compileFilter\<close> of \<^verbatim>\<open>socket.go\<close>): tcpdump is run with \<^verbatim>\<open>-ddd\<close>, and
  its output, a count and four numbers per instruction, becomes a program for the kernel.  tcpdump
  itself is a parameter: a function from the interface and the filter expression to its standard
  output, or \<open>None\<close> when the command fails.  An outer \<open>None\<close> in a result is a run-time panic.
\<close>

section \<open>The code\<close>

record sock_filter =
  sf_code :: u16
  sf_jt :: byte
  sf_jf :: byte
  sf_k :: u32

datatype filter_err = TcpdumpFailed | BadToken string | BadLength

fun scan_ints :: "string list \<Rightarrow> filter_err + int list" where
  "scan_ints [] = Inr []"
| "scan_ints (w # ws) =
     (case Atoi w of
        None \<Rightarrow> Inl (BadToken w)
      | Some i \<Rightarrow> (case scan_ints ws of Inl e \<Rightarrow> Inl e | Inr is \<Rightarrow> Inr (i # is)))"

text \<open>The loop with step four; reading past the end of the slice panics.\<close>

fun bpf_loop :: "int list \<Rightarrow> sock_filter list option" where
  "bpf_loop [] = Some []"
| "bpf_loop (c # t # f # v # is) =
     (case bpf_loop is of
        None \<Rightarrow> None
      | Some bpfs \<Rightarrow>
          Some (\<lparr>sf_code = word_of_int c, sf_jt = word_of_int t, sf_jf = word_of_int f, sf_k = word_of_int v\<rparr>
                # bpfs))"
| "bpf_loop _ = None"

definition compileFilter ::
    "(string \<Rightarrow> string \<Rightarrow> string option) \<Rightarrow> string \<Rightarrow> string \<Rightarrow> (filter_err + sock_filter list) option" where
  "compileFilter tcpdump iface filt =
     (case tcpdump iface filt of
        None \<Rightarrow> Some (Inl TcpdumpFailed)
      | Some out \<Rightarrow>
          (case scan_ints (scan_words out) of
             Inl e \<Rightarrow> Some (Inl e)
           | Inr is \<Rightarrow>
               if is = [] \<or> int (length is) \<noteq> wrap64 (hd is * 4 + 1) then Some (Inl BadLength)
               else (case bpf_loop (tl is) of None \<Rightarrow> None | Some bpfs \<Rightarrow> Some (Inr bpfs))))"

section \<open>No panic\<close>

lemma bpf_loop_total: "length is mod 4 = 0 \<Longrightarrow> \<exists>bpfs. bpf_loop is = Some bpfs \<and> 4 * length bpfs = length is"
proof (induction "is" rule: bpf_loop.induct)
  case (2 c t f v "is")
  then have "length is mod 4 = 0" by (simp add: mod_Suc split: if_splits)
  with 2 show ?case by auto
qed auto

lemma bpf_loop_length: "bpf_loop is = Some bpfs \<Longrightarrow> length is = 4 * length bpfs"
  by (induction "is" arbitrary: bpfs rule: bpf_loop.induct) (auto split: option.splits)

text \<open>Whatever the wrap-around of the 64-bit multiplication does, the count and the length agree modulo four.\<close>

lemma wrap64_mod4: "wrap64 (x * 4 + 1) mod 4 = 1"
proof -
  have "wrap64 y mod 4 = y mod 4" for y
  proof -
    have "(word_of_int (wrap64 y) :: 64 word) = word_of_int y" by (simp add: wrap64_def)
    then have "wrap64 y mod 2 ^ 64 = y mod 2 ^ 64"
      by (simp add: word_of_int_eq_iff take_bit_eq_mod)
    then have "wrap64 y mod 2 ^ 64 mod 4 = y mod 2 ^ 64 mod 4" by simp
    moreover have "(4::int) dvd 2 ^ 64" by simp
    ultimately show ?thesis by (simp only: mod_mod_cancel)
  qed
  then show ?thesis by (simp add: mod_add_left_eq)
qed

lemma compileFilter_cases:
  assumes "scan_ints (scan_words out) = Inr is" and "is \<noteq> []" and "int (length is) = wrap64 (hd is * 4 + 1)"
  shows "\<exists>bpfs. bpf_loop (tl is) = Some bpfs \<and> length is = 4 * length bpfs + 1"
proof -
  have "int (length is) mod 4 = 1" using assms(3) wrap64_mod4 by simp
  then have "length is mod 4 = 1" by presburger
  moreover obtain x xs where "is = x # xs" using assms(2) by (cases "is") auto
  ultimately have "length (tl is) mod 4 = 0" by (simp add: mod_Suc split: if_splits)
  with bpf_loop_total [of "tl is"] \<open>is = x # xs\<close> show ?thesis by auto
qed

text \<open>\<^verbatim>\<open>compileFilter\<close> never panics, whatever tcpdump prints: the loop that reads four numbers at a time never
  runs past the end, although the length check multiplies a number taken from the output and may
  overflow.  An accepted program has one instruction for every four numbers after the count.\<close>

theorem compileFilter_no_panic:
  "compileFilter tcpdump iface filt \<noteq> None \<and>
   (compileFilter tcpdump iface filt = Some (Inr bpfs) \<longrightarrow>
      (\<exists>out. tcpdump iface filt = Some out \<and> length (scan_words out) = 4 * length bpfs + 1))"
proof -
  have len: "scan_ints ws = Inr is \<Longrightarrow> length ws = length is" for ws "is"
    by (induction ws arbitrary: "is") (auto split: option.splits sum.splits)
  show ?thesis
  proof (cases "tcpdump iface filt")
    case (Some out)
    then show ?thesis
      using len [of "scan_words out"] compileFilter_cases [of out]
      by (cases "scan_ints (scan_words out)") (auto simp: compileFilter_def)
  qed (simp add: compileFilter_def)
qed

theorem compileFilter_no_panic_witness:
  "\<exists>out. (\<lambda>iface filt. Some ''1 6 0 0 65535'') ''lo'' ''ip'' = Some out \<and> length (scan_words out) = 5"
proof -
  have "compileFilter (\<lambda>iface filt. Some ''1 6 0 0 65535'') ''lo'' ''ip'' =
        Some (Inr [\<lparr>sf_code = 6, sf_jt = 0, sf_jf = 0, sf_k = 65535\<rparr>])"
    by code_simp
  then show ?thesis
    using compileFilter_no_panic [of "\<lambda>iface filt. Some ''1 6 0 0 65535''" "''lo''" "''ip''"] by fastforce
qed

section \<open>Reading a printed program\<close>

text \<open>The documented output of \<^verbatim>\<open>tcpdump -ddd\<close>: the number of instructions, then one line of four decimal
  numbers per instruction.\<close>

definition ddd_words :: "sock_filter \<Rightarrow> string list" where
  "ddd_words f = map dec_digits [unat (sf_code f), unat (sf_jt f), unat (sf_jf f), unat (sf_k f)]"

definition ddd_line :: "sock_filter \<Rightarrow> string" where
  "ddd_line f =
     dec_digits (unat (sf_code f)) @ '' '' @ dec_digits (unat (sf_jt f)) @ '' '' @
     dec_digits (unat (sf_jf f)) @ '' '' @ dec_digits (unat (sf_k f)) @ ''\<newline>''"

definition ddd :: "sock_filter list \<Rightarrow> string" where
  "ddd p = dec_digits (length p) @ ''\<newline>'' @ concat (map ddd_line p)"

lemma scan_words_dec:
  assumes "n < 10 ^ 20" and "sep = CHR '' '' \<or> sep = CHR ''\<newline>''"
  shows "scan_words (dec_digits n @ sep # r) = dec_digits n # scan_words r"
proof (rule scan_words_digits [OF dec_digits_digits dec_digits_not_Nil _ assms(2)])
  show "int (length (dec_digits n)) < MaxScanTokenSize"
    using dec_digits_length [OF assms(1)] by (simp add: MaxScanTokenSize_def)
qed

lemma unat_field_bounds:
  "unat (v :: u16) < 10 ^ 20" "unat (b :: byte) < 10 ^ 20" "unat (k :: u32) < 10 ^ 20"
  using unsigned_less [of v, where 'a = nat] unsigned_less [of b, where 'a = nat]
    unsigned_less [of k, where 'a = nat] by simp_all

lemma scan_words_line: "scan_words (ddd_line f @ r) = ddd_words f @ scan_words r"
  by (simp add: ddd_line_def ddd_words_def scan_words_dec [OF unat_field_bounds(1)]
      scan_words_dec [OF unat_field_bounds(2)] scan_words_dec [OF unat_field_bounds(3)])

lemma scan_words_lines: "scan_words (concat (map ddd_line p)) = concat (map ddd_words p)"
  by (induction p) (simp_all add: scan_words_line)

definition ddd_ints :: "sock_filter \<Rightarrow> int list" where
  "ddd_ints f = [uint (sf_code f), uint (sf_jt f), uint (sf_jf f), uint (sf_k f)]"

lemma Atoi_unat:
  "Atoi (dec_digits (unat (v :: u16))) = Some (uint v)" "Atoi (dec_digits (unat (b :: byte))) = Some (uint b)"
  "Atoi (dec_digits (unat (k :: u32))) = Some (uint k)"
  using Atoi_dec [of "unat v"] Atoi_dec [of "unat b"] Atoi_dec [of "unat k"]
    unsigned_less [of v, where 'a = int] unsigned_less [of b, where 'a = int]
    unsigned_less [of k, where 'a = int] by simp_all

lemma scan_ints_words: "scan_ints (concat (map ddd_words p)) = Inr (concat (map ddd_ints p))"
  by (induction p) (simp_all add: ddd_words_def ddd_ints_def Atoi_unat)

lemma bpf_loop_ints: "bpf_loop (concat (map ddd_ints p)) = Some p"
  by (induction p) (simp_all add: ddd_ints_def)

lemma length_ddd_ints: "length (concat (map ddd_ints p)) = 4 * length p"
  by (induction p) (simp_all add: ddd_ints_def)

text \<open>C36: when tcpdump prints a program in its documented format, \<^verbatim>\<open>compileFilter\<close> returns exactly this program, with
  every instruction and every field of every width intact.\<close>

theorem compileFilter_reads_program:
  assumes "tcpdump iface filt = Some (ddd p)" and "length p < 2 ^ 60"
  shows "compileFilter tcpdump iface filt = Some (Inr p)"
proof -
  have n: "length p < 10 ^ 20" "int (length p) < 2 ^ 63" using assms(2) by simp_all
  have "scan_ints (scan_words (ddd p)) = Inr (int (length p) # concat (map ddd_ints p))"
    using scan_words_dec [OF n(1)] Atoi_dec [OF n(2)]
    by (simp add: ddd_def scan_words_lines scan_ints_words)
  moreover have "wrap64 (int (length p) * 4 + 1) = int (length p) * 4 + 1"
    using assms(2) by (intro wrap64_id) simp_all
  ultimately show ?thesis
    using assms(1) by (simp add: compileFilter_def bpf_loop_ints length_ddd_ints)
qed

theorem compileFilter_reads_program_witness:
  "compileFilter (\<lambda>iface filt. Some ''1\<newline>6 0 0 65535\<newline>'') ''lo'' ''ip'' =
     Some (Inr [\<lparr>sf_code = 6, sf_jt = 0, sf_jf = 0, sf_k = 65535\<rparr>])"
proof (rule compileFilter_reads_program)
  show "Some ''1\<newline>6 0 0 65535\<newline>'' = Some (ddd [\<lparr>sf_code = 6, sf_jt = 0, sf_jf = 0, sf_k = 65535\<rparr>])"
    by (simp add: ddd_def ddd_line_def dec_digits.simps char_of_def bit_simps)
qed simp

end
