(* ===== verification/Afpacket.thy ===== *)
theory Afpacket
  imports Bpf
begin

text \<open>
  Creation of a packet socket in C (\<^verbatim>\<open>AFPacket\<close> of \<^verbatim>\<open>socket.c\<close>).  The kernel is a parameter: for every
  system call its return value, and the value that it leaves in \<^verbatim>\<open>errno\<close> if it writes there.  The model keeps
  the sequence of calls, the output arguments and \<^verbatim>\<open>errno\<close>.
\<close>

section \<open>System calls\<close>

record tpacket_req3 =
  tp_block_size :: u32
  tp_block_nr :: u32
  tp_frame_size :: u32
  tp_frame_nr :: u32
  tp_retire_blk_tov :: u32

text \<open>The calls with the arguments that vary.  The length of \<open>SysMunmap\<close> is \<open>None\<close> when its computation
  overflows a C \<^verbatim>\<open>int\<close>, which C leaves undefined.\<close>

datatype syscall =
    SysSocket
  | SysVersion int
  | SysAttach int u16 "sock_filter list"
  | SysLock int
  | SysRing int tpacket_req3
  | SysMmap int nat
  | SysIfindex string
  | SysBind int int
  | SysFanout int i32
  | SysMunmap int "int option"
  | SysClose int

type_synonym kernel = "syscall \<Rightarrow> int \<times> int option"
type_synonym cstate = "int \<times> syscall list"

definition sys :: "kernel \<Rightarrow> syscall \<Rightarrow> cstate \<Rightarrow> int \<times> cstate" where
  "sys k c st =
     (case k c of (r, e) \<Rightarrow> (r, (case e of None \<Rightarrow> fst st | Some v \<Rightarrow> v), snd st @ [c]))"

definition set_errno :: "int \<Rightarrow> cstate \<Rightarrow> cstate" where
  "set_errno e st = (e, snd st)"

definition EINVAL :: int where "EINVAL = 22"
definition ENOSYS :: int where "ENOSYS = 38"

section \<open>AFPacket\<close>

record af_result =
  af_ret :: int
  af_fd :: int
  af_ring :: int
  af_err :: "string option"
  af_state :: cstate

definition fail1 :: "kernel \<Rightarrow> int \<Rightarrow> int \<Rightarrow> string \<Rightarrow> cstate \<Rightarrow> af_result" where
  "fail1 k fd ring msg st =
     (let e = fst st; st = snd (sys k (SysClose fd) st)
      in \<lparr>af_ret = -1, af_fd = fd, af_ring = ring, af_err = Some msg, af_state = set_errno e st\<rparr>)"

text \<open>The product of two \<^verbatim>\<open>int\<close>s, when it is defined.\<close>

definition int_mult :: "i32 \<Rightarrow> i32 \<Rightarrow> int option" where
  "int_mult a b =
     (let p = sint a * sint b in if - (2 ^ 31) \<le> p \<and> p < 2 ^ 31 then Some p else None)"

definition fail2 :: "kernel \<Rightarrow> i32 \<Rightarrow> i32 \<Rightarrow> int \<Rightarrow> int \<Rightarrow> string \<Rightarrow> cstate \<Rightarrow> af_result" where
  "fail2 k block_size block_nr fd ring msg st =
     (let e = fst st; st = snd (sys k (SysMunmap ring (int_mult block_size block_nr)) st)
      in fail1 k fd ring msg (set_errno e st))"

text \<open>Fanout and the end of the function.\<close>

definition af_fanout :: "kernel \<Rightarrow> i32 \<Rightarrow> i32 \<Rightarrow> i32 \<Rightarrow> i32 \<Rightarrow> i32 \<Rightarrow> int \<Rightarrow> int \<Rightarrow> cstate \<Rightarrow> af_result" where
  "af_fanout k block_size block_nr fanout_id fanout_size fanout_type fd ring st =
     (if fanout_size \<noteq> 1 then
        (let fanout = (fanout_id AND 0xFFFF) OR push_bit 16 fanout_type in
         case sys k (SysFanout fd fanout) st of
           (r, st) \<Rightarrow>
             if r < 0 then fail2 k block_size block_nr fd ring ''setsockopt PACKET_FANOUT failed'' st
             else \<lparr>af_ret = 0, af_fd = fd, af_ring = ring, af_err = None, af_state = st\<rparr>)
      else \<lparr>af_ret = 0, af_fd = fd, af_ring = ring, af_err = None, af_state = st\<rparr>)"

text \<open>Ring, memory map, interface and \<^verbatim>\<open>bind\<close>; \<open>-1\<close> is \<^verbatim>\<open>MAP_FAILED\<close>.\<close>

definition af_ring_setup ::
    "kernel \<Rightarrow> string \<Rightarrow> i32 \<Rightarrow> i32 \<Rightarrow> i32 \<Rightarrow> i32 \<Rightarrow> i32 \<Rightarrow> i32 \<Rightarrow> int \<Rightarrow> cstate \<Rightarrow> af_result" where
  "af_ring_setup k iface block_size block_nr block_ms fanout_id fanout_size fanout_type fd st =
     (let tp3 = \<lparr>tp_block_size = block_size, tp_block_nr = block_nr, tp_frame_size = block_size,
                 tp_frame_nr = block_nr, tp_retire_blk_tov = block_ms\<rparr> in
      case sys k (SysRing fd tp3) st of
        (r, st) \<Rightarrow>
          if r < 0 then fail1 k fd 0 ''setsockopt PACKET_RX_RING failure'' st
          else case sys k (SysMmap fd (unat (tp_block_size tp3) * unat (tp_block_nr tp3))) st of
            (ring, st) \<Rightarrow>
              if ring = -1 then fail1 k fd ring ''ring mmap failed'' (set_errno EINVAL st)
              else case sys k (SysIfindex iface) st of
                (ifindex, st) \<Rightarrow>
                  if ifindex = 0
                  then fail2 k block_size block_nr fd ring ''if_nametoindex failed'' (set_errno EINVAL st)
                  else case sys k (SysBind fd ifindex) st of
                    (r, st) \<Rightarrow>
                      if r < 0 then fail2 k block_size block_nr fd ring ''bind failed'' st
                      else af_fanout k block_size block_nr fanout_id fanout_size fanout_type fd ring st)"

text \<open>\<open>bpf\<close> says whether the headers define both \<^verbatim>\<open>SO_ATTACH_FILTER\<close> and \<^verbatim>\<open>SO_LOCK_FILTER\<close>.\<close>

definition AFPacket ::
    "bool \<Rightarrow> kernel \<Rightarrow> string \<Rightarrow> i32 \<Rightarrow> i32 \<Rightarrow> i32 \<Rightarrow> i32 \<Rightarrow> i32 \<Rightarrow> i32 \<Rightarrow> i32 \<Rightarrow> sock_filter list \<Rightarrow> af_result" where
  "AFPacket bpf k iface block_size block_nr block_ms fanout_id fanout_size fanout_type filter_size filters =
     (case sys k SysSocket (0, []) of
        (fd, st) \<Rightarrow>
          if fd < 0
          then \<lparr>af_ret = -1, af_fd = fd, af_ring = 0, af_err = Some ''socket creation failure'', af_state = st\<rparr>
          else case sys k (SysVersion fd) st of
            (r, st) \<Rightarrow>
              if r < 0 then fail1 k fd 0 ''setsockopt PACKET_VERSION failure'' st
              else if filter_size \<noteq> 0 then
                if bpf then
                  (case sys k (SysAttach fd (ucast filter_size) filters) st of
                     (r, st) \<Rightarrow>
                       if r < 0 then fail1 k fd 0 ''setsockopt SO_ATTACH_FILTER error'' st
                       else case sys k (SysLock fd) st of
                         (r, st) \<Rightarrow>
                           if r < 0 then fail1 k fd 0 ''setsockopt SO_LOCK_FILTER error'' st
                           else af_ring_setup k iface block_size block_nr block_ms fanout_id fanout_size
                                  fanout_type fd st)
                else fail1 k fd 0 ''filter requested, but BPF filtering or filter locking unsupported''
                       (set_errno ENOSYS st)
              else af_ring_setup k iface block_size block_nr block_ms fanout_id fanout_size fanout_type fd st)"

definition errno_after :: "int option \<Rightarrow> int \<Rightarrow> int" where
  "errno_after e old = (case e of None \<Rightarrow> old | Some v \<Rightarrow> v)"

lemma sys_eq: "sys k c st = (fst (k c), errno_after (snd (k c)) (fst st), snd st @ [c])"
  by (simp add: sys_def errno_after_def split: prod.split)

lemma fail1_eq:
  "fail1 k fd ring msg st =
     \<lparr>af_ret = -1, af_fd = fd, af_ring = ring, af_err = Some msg, af_state = (fst st, snd st @ [SysClose fd])\<rparr>"
  by (simp add: fail1_def sys_eq set_errno_def Let_def)

lemma fail2_eq:
  "fail2 k block_size block_nr fd ring msg st =
     \<lparr>af_ret = -1, af_fd = fd, af_ring = ring, af_err = Some msg,
      af_state = (fst st, snd st @ [SysMunmap ring (int_mult block_size block_nr), SysClose fd])\<rparr>"
  by (simp add: fail2_def fail1_eq sys_eq set_errno_def Let_def)

lemmas af_defs = AFPacket_def af_ring_setup_def af_fanout_def fail1_eq fail2_eq sys_eq set_errno_def Let_def

section \<open>What a success means\<close>

fun call_ok :: "kernel \<Rightarrow> syscall \<Rightarrow> bool" where
  "call_ok k (SysMmap fd len) = (fst (k (SysMmap fd len)) \<noteq> -1)"
| "call_ok k (SysIfindex iface) = (fst (k (SysIfindex iface)) \<noteq> 0)"
| "call_ok k c = (0 \<le> fst (k c))"

lemma AFPacket_ok_calls:
  assumes "res = AFPacket bpf k iface block_size block_nr block_ms fid fsize ftype filter_size filters"
    and "af_ret res = 0"
  shows "snd (af_state res) =
      [SysSocket, SysVersion (af_fd res)] @
      (if filter_size = 0 then [] else [SysAttach (af_fd res) (ucast filter_size) filters, SysLock (af_fd res)]) @
      [SysRing (af_fd res) \<lparr>tp_block_size = block_size, tp_block_nr = block_nr, tp_frame_size = block_size,
                             tp_frame_nr = block_nr, tp_retire_blk_tov = block_ms\<rparr>,
       SysMmap (af_fd res) (unat block_size * unat block_nr),
       SysIfindex iface, SysBind (af_fd res) (fst (k (SysIfindex iface)))] @
      (if fsize = 1 then [] else [SysFanout (af_fd res) ((fid AND 0xFFFF) OR push_bit 16 ftype)]) \<and>
    (\<forall>c \<in> set (snd (af_state res)). call_ok k c) \<and> (filter_size = 0 \<or> bpf)"
  using assms(2) unfolding assms(1)
  by (auto simp: af_defs not_less split: if_splits)

text \<open>C37: when \<^verbatim>\<open>AFPacket\<close> reports success, it has made exactly these calls in this order, and each of them
  succeeded.  In particular a requested filter was attached and locked before the ring was created and
  before the socket was bound, so no client ever sees a packet that the filter rejects, or replaces the
  filter.\<close>

theorem AFPacket_success_calls:
  assumes "res = AFPacket bpf k iface block_size block_nr block_ms fid fsize ftype filter_size filters"
    and "af_ret res = 0"
  shows "snd (af_state res) =
      [SysSocket, SysVersion (af_fd res)] @
      (if filter_size = 0 then [] else [SysAttach (af_fd res) (ucast filter_size) filters, SysLock (af_fd res)]) @
      [SysRing (af_fd res) \<lparr>tp_block_size = block_size, tp_block_nr = block_nr, tp_frame_size = block_size,
                             tp_frame_nr = block_nr, tp_retire_blk_tov = block_ms\<rparr>,
       SysMmap (af_fd res) (unat block_size * unat block_nr),
       SysIfindex iface, SysBind (af_fd res) (fst (k (SysIfindex iface)))] @
      (if fsize = 1 then [] else [SysFanout (af_fd res) ((fid AND 0xFFFF) OR push_bit 16 ftype)]) \<and>
    (\<forall>c \<in> set (snd (af_state res)). call_ok k c) \<and> (filter_size = 0 \<or> bpf)"
  using assms by (rule AFPacket_ok_calls)

lemma AFPacket_fd:
  assumes "res = AFPacket bpf k iface block_size block_nr block_ms fid fsize ftype filter_size filters"
  shows "fst (k SysSocket) = af_fd res"
  unfolding assms by (auto simp: af_defs)

text \<open>A kernel that grants everything: descriptor 5, the ring at address 4096, interface 2.\<close>

fun demo_kernel :: kernel where
  "demo_kernel SysSocket = (5, None)"
| "demo_kernel (SysMmap fd len) = (4096, None)"
| "demo_kernel (SysIfindex iface) = (2, None)"
| "demo_kernel c = (0, None)"

definition demo_filter :: "sock_filter list" where
  "demo_filter = [\<lparr>sf_code = 6, sf_jt = 0, sf_jf = 0, sf_k = 65535\<rparr>]"

lemma demo_afpacket:
  "AFPacket True demo_kernel ''lo'' 1048576 16 10 1 1 0 1 demo_filter =
     \<lparr>af_ret = 0, af_fd = 5, af_ring = 4096, af_err = None,
      af_state = (0, [SysSocket, SysVersion 5, SysAttach 5 1 demo_filter, SysLock 5,
        SysRing 5 \<lparr>tp_block_size = 1048576, tp_block_nr = 16, tp_frame_size = 1048576,
                   tp_frame_nr = 16, tp_retire_blk_tov = 10\<rparr>,
        SysMmap 5 16777216, SysIfindex ''lo'', SysBind 5 2])\<rparr>"
  by (simp add: af_defs errno_after_def)

theorem AFPacket_success_calls_witness:
  "call_ok demo_kernel (SysAttach 5 1 demo_filter) \<and> call_ok demo_kernel (SysLock 5)"
  using AFPacket_success_calls [OF demo_afpacket [symmetric]] by simp

section \<open>What is left behind\<close>

fun held_fds :: "kernel \<Rightarrow> syscall list \<Rightarrow> int list" where
  "held_fds k [] = []"
| "held_fds k (c # cs) =
     (case c of
        SysSocket \<Rightarrow> (if call_ok k c \<and> SysClose (fst (k c)) \<notin> set cs then [fst (k c)] else []) @ held_fds k cs
      | _ \<Rightarrow> held_fds k cs)"

fun held_maps :: "kernel \<Rightarrow> syscall list \<Rightarrow> int list" where
  "held_maps k [] = []"
| "held_maps k (c # cs) =
     (case c of
        SysMmap fd len \<Rightarrow>
          (if call_ok k c \<and> (\<forall>l. SysMunmap (fst (k c)) l \<notin> set cs) then [fst (k c)] else []) @ held_maps k cs
      | _ \<Rightarrow> held_maps k cs)"



lemma AFPacket_fail_errno:
  assumes "res = AFPacket bpf k iface block_size block_nr block_ms fid fsize ftype filter_size filters"
    and "af_ret res \<noteq> 0" and "\<And>c. \<not> call_ok k c \<Longrightarrow> \<exists>e. snd (k c) = Some e \<and> e \<noteq> 0"
  shows "fst (af_state res) \<noteq> 0 \<and> af_err res \<noteq> None"
proof -
  have fail: "errno_after (snd (k c)) old \<noteq> 0" if "\<not> call_ok k c" for c old
    using assms(3) [OF that] by (auto simp: errno_after_def)
  show ?thesis
    using assms(2) fail unfolding assms(1)
    by (auto simp: af_defs EINVAL_def ENOSYS_def split: if_splits)
qed

text \<open>Every failure reaches the Go side, which looks at \<^verbatim>\<open>errno\<close> only: if failing system calls set
  \<^verbatim>\<open>errno\<close> to a non-zero value, then after a failed \<^verbatim>\<open>AFPacket\<close> it is non-zero, the clean-up calls notwithstanding, and
  a message is set.\<close>

theorem AFPacket_failure_seen:
  assumes "res = AFPacket bpf k iface block_size block_nr block_ms fid fsize ftype filter_size filters"
    and "af_ret res \<noteq> 0" and "\<And>c. \<not> call_ok k c \<Longrightarrow> \<exists>e. snd (k c) = Some e \<and> e \<noteq> 0"
  shows "fst (af_state res) \<noteq> 0 \<and> af_err res \<noteq> None"
  using assms by (rule AFPacket_fail_errno)

text \<open>A kernel that refuses the filter lock with \<^verbatim>\<open>ENOPROTOOPT\<close>.\<close>

fun nolock_kernel :: kernel where
  "nolock_kernel SysSocket = (5, None)"
| "nolock_kernel (SysLock fd) = (-1, Some 92)"
| "nolock_kernel (SysMmap fd len) = (4096, None)"
| "nolock_kernel (SysIfindex iface) = (2, None)"
| "nolock_kernel c = (0, None)"

theorem AFPacket_failure_seen_witness:
  "fst (af_state (AFPacket True nolock_kernel ''lo'' 1048576 16 10 1 1 0 1 demo_filter)) \<noteq> 0"
proof -
  have "af_ret (AFPacket True nolock_kernel ''lo'' 1048576 16 10 1 1 0 1 demo_filter) \<noteq> 0"
    by (simp add: af_defs)
  moreover have "\<exists>e. snd (nolock_kernel c) = Some e \<and> e \<noteq> 0" if "\<not> call_ok nolock_kernel c" for c
    using that by (cases c) simp_all
  ultimately show ?thesis
    using AFPacket_failure_seen [OF refl] by blast
qed

end
