(* ===== verification/Reads.thy ===== *)
theory Reads
  imports Protocol
begin

text \<open>
  The client-to-server direction of a connection, \<^verbatim>\<open>conn.handleReads\<close> and \<^verbatim>\<open>conn.handleTLV\<close> of
  \<^verbatim>\<open>socket.go\<close>: one iteration of the read loop as a function of the connection, and the whole loop
  run on a connection whose peer sends nothing more.
\<close>

section \<open>One iteration\<close>

text \<open>\<^verbatim>\<open>handleTLV\<close> ignores every message and returns no error.\<close>

definition handleTLV :: "ptype \<Rightarrow> byte list \<Rightarrow> io_err option" where
  "handleTLV t val = None"

datatype read_out =
    ReadReturn          \<comment> \<open>the goroutine returns\<close>
  | ReadContinue        \<comment> \<open>a TLV was consumed\<close>
  | ReadBlock nat       \<comment> \<open>\<open>i + 1\<close> is sent on \<open>oldBlocks\<close>\<close>
  | ReadPanic

definition handleReads_iter :: "nat \<Rightarrow> uconn \<Rightarrow> read_out \<times> uconn" where
  "handleReads_iter numBlocks c =
     (case Read c 4 of (buf, err, c1) \<Rightarrow>
        if err = Some EOF then (ReadReturn, c1)
        else if err \<noteq> None \<or> length buf \<noteq> 4 then (ReadReturn, c1)
        else case Uint32 buf of
          None \<Rightarrow> (ReadPanic, c1)
        | Some num \<Rightarrow>
            if num AND 0x80000000 \<noteq> 0 then
              (case TLFrom num of (t, len) \<Rightarrow>
                 if len \<noteq> 0 then
                   (case ReadFull c1 (nat len) of
                      (Inl e, c2) \<Rightarrow> (ReadReturn, c2)
                    | (Inr val, c2) \<Rightarrow>
                        (case handleTLV t val of None \<Rightarrow> (ReadContinue, c2) | Some e \<Rightarrow> (ReadReturn, c2)))
                 else
                   (case handleTLV t [] of None \<Rightarrow> (ReadContinue, c1) | Some e \<Rightarrow> (ReadReturn, c1)))
            else
              (let i = uint num
               in if i < 0 \<or> i \<ge> int numBlocks then (ReadReturn, c1)
                  else (ReadBlock (nat i + 1), c1)))"

text \<open>The data that has arrived decides the outcome of the iteration when it holds a whole message;
  otherwise the goroutine waits in \<^verbatim>\<open>Read\<close> or \<^verbatim>\<open>ReadFull\<close>, unless the stream has ended.\<close>

definition msg_complete :: "uconn \<Rightarrow> bool" where
  "msg_complete c \<longleftrightarrow>
     (rchunks c \<noteq> [] \<and>
      (case Read c 4 of (buf, err, c1) \<Rightarrow>
         case Uint32 buf of
           None \<Rightarrow> True
         | Some num \<Rightarrow>
             num AND 0x80000000 = 0 \<or> nat (snd (TLFrom num)) \<le> length (pending c1)))"

lemma handleReads_iter_no_panic: "fst (handleReads_iter n c) \<noteq> ReadPanic"
proof -
  obtain buf err c1 where rd: "Read c 4 = (buf, err, c1)" by (cases "Read c 4")
  show ?thesis
  proof (cases "length buf = 4")
    case True
    then obtain v where "Uint32 buf = Some v" using Uint32_length4 by blast
    with rd show ?thesis
      by (auto simp: handleReads_iter_def handleTLV_def Let_def split: prod.splits sum.splits)
  qed (use rd in \<open>auto simp: handleReads_iter_def\<close>)
qed

lemma handleReads_iter_block:
  assumes "handleReads_iter n c = (ReadBlock v, c')"
  shows "1 \<le> v \<and> v \<le> n"
  using assms
  by (auto simp: handleReads_iter_def handleTLV_def Let_def unat_less_if_uint
      split: prod.splits sum.splits option.splits if_splits)

section \<open>The loop on a finished stream\<close>

text \<open>The values that the loop sends on \<open>oldBlocks\<close> when the connection holds everything the peer will
  ever send.\<close>

lemma handleReads_iter_work:
  assumes "handleReads_iter n c = (r, c')" and "r \<noteq> ReadReturn"
  shows "read_work c' < read_work c"
proof -
  obtain buf err c1 where rd: "Read c 4 = (buf, err, c1)" by (cases "Read c 4")
  have err: "err = None"
    using assms rd by (auto simp: handleReads_iter_def split: if_splits)
  have "read_work c' \<le> read_work c1"
    using assms rd
    by (auto simp: handleReads_iter_def handleTLV_def Let_def
        split: prod.splits sum.splits option.splits if_splits dest: ReadFull_work)
  also have "\<dots> < read_work c"
    using Read_work rd err by simp
  finally show ?thesis .
qed

function handleReads :: "nat \<Rightarrow> uconn \<Rightarrow> nat list" where
  "handleReads n c =
     (case handleReads_iter n c of
        (ReadReturn, c') \<Rightarrow> []
      | (ReadPanic, c') \<Rightarrow> []
      | (ReadContinue, c') \<Rightarrow> handleReads n c'
      | (ReadBlock v, c') \<Rightarrow> v # handleReads n c')"
  by pat_completeness auto
termination
  by (relation "measure (\<lambda>(n, c). read_work c)") (auto dest: handleReads_iter_work [OF sym])

declare handleReads.simps [simp del]

section \<open>Messages of a client\<close>

datatype client_msg = MsgIndex nat | MsgTLV ptype "byte list"

fun msg_bytes :: "client_msg \<Rightarrow> byte list" where
  "msg_bytes (MsgIndex i) = PutUint32 (of_nat i)"
| "msg_bytes (MsgTLV t val) = PutUint32 (ToTL t (int (length val))) @ val"

fun msg_ok :: "nat \<Rightarrow> client_msg \<Rightarrow> bool" where
  "msg_ok n (MsgIndex i) \<longleftrightarrow> i < n"
| "msg_ok n (MsgTLV t val) \<longleftrightarrow> 0x8000 \<le> unat t \<and> length val \<le> 0xFFFF"

fun msg_returns :: "client_msg list \<Rightarrow> nat list" where
  "msg_returns [] = []"
| "msg_returns (MsgIndex i # ms) = (i + 1) # msg_returns ms"
| "msg_returns (MsgTLV t val # ms) = msg_returns ms"

text \<open>What is left of a piece of data after its first part was read.\<close>

definition rest_chunks :: "byte list \<Rightarrow> byte list list \<Rightarrow> byte list list" where
  "rest_chunks b bs = (if b = [] then bs else b # bs)"

lemma Read_part:
  assumes "\<not> uclosed c" and "rchunks c = (b @ r) # bs" and "length b = n"
  shows "Read c n = (b, None, c\<lparr>rchunks := rest_chunks r bs\<rparr>)"
  using assms by (auto simp: Read_def rest_chunks_def)

lemma ReadFull_part:
  assumes "\<not> uclosed c" and "rchunks c = (b @ r) # bs" and "length b = n" and "b \<noteq> []"
  shows "ReadFull c n = (Inr b, c\<lparr>rchunks := rest_chunks r bs\<rparr>)"
proof -
  have "n \<noteq> 0" using assms(3,4) by auto
  then have "read_loop c [] n = (Inr b, c\<lparr>rchunks := rest_chunks r bs\<rparr>)"
    using Read_part [OF assms(1-3)] assms(3)
    by (simp add: read_loop.simps [of c] read_loop.simps [of _ b])
  then show ?thesis by (simp add: ReadFull_def)
qed

lemma index_word: "i < 2 ^ 31 \<Longrightarrow> uint (of_nat i :: u32) = int i \<and> (of_nat i :: u32) AND 0x80000000 = 0"
proof -
  assume i: "i < 2 ^ 31"
  then have u: "uint (of_nat i :: u32) = int i"
    by (simp add: unsigned_of_nat take_bit_nat_eq_self)
  then have "\<not> bit (of_nat i :: u32) 31"
    using i bit31_uint [of "of_nat i"] by simp
  with u show ?thesis by (simp add: high_bit32)
qed

lemma handleReads_iter_index:
  assumes "\<not> uclosed c" and "rchunks c = (msg_bytes (MsgIndex i) @ r) # bs" and "i < n" and "n \<le> 2 ^ 31"
  shows "handleReads_iter n c = (ReadBlock (i + 1), c\<lparr>rchunks := rest_chunks r bs\<rparr>)"
proof -
  from assms(3,4) have "uint (of_nat i :: u32) = int i" "(of_nat i :: u32) AND 0x80000000 = 0"
    using index_word [of i] by auto
  then show ?thesis
    using assms Read_part [of c "PutUint32 (of_nat i)" r bs 4]
    by (simp add: handleReads_iter_def Let_def)
qed

lemma handleReads_iter_TLV:
  assumes "\<not> uclosed c" and "rchunks c = (msg_bytes (MsgTLV t val) @ r) # bs" and "msg_ok n (MsgTLV t val)"
  shows "handleReads_iter n c = (ReadContinue, c\<lparr>rchunks := rest_chunks r bs\<rparr>)"
proof -
  let ?h = "ToTL t (int (length val))"
  have tl: "TLFrom ?h = (t, int (length val))"
    using assms(3) by (intro TLFrom_ToTL) auto
  have hi: "?h AND 0x80000000 \<noteq> 0"
    using tl assms(3) by (auto simp: TLFrom_def type_consts split: if_splits)
  let ?c = "c\<lparr>rchunks := rest_chunks (val @ r) bs\<rparr>"
  have rd: "Read c 4 = (PutUint32 ?h, None, ?c)"
    using assms(1,2) by (intro Read_part) auto
  show ?thesis
  proof (cases "val = []")
    case True
    with rd tl hi show ?thesis by (simp add: handleReads_iter_def handleTLV_def)
  next
    case False
    then have "ReadFull ?c (length val) = (Inr val, c\<lparr>rchunks := rest_chunks r bs\<rparr>)"
      using ReadFull_part [of ?c val r bs "length val"] assms(1) by (simp add: rest_chunks_def)
    with False rd tl hi show ?thesis by (simp add: handleReads_iter_def handleTLV_def)
  qed
qed

lemma handleReads_iter_end: "\<not> uclosed c \<Longrightarrow> rchunks c = [] \<Longrightarrow> handleReads_iter n c = (ReadReturn, c)"
  by (simp add: handleReads_iter_def Read_def)

lemma msg_bytes_not_Nil: "msg_bytes m \<noteq> []"
  by (cases m) auto

lemma rest_chunks_msgs:
  "rest_chunks (concat (map msg_bytes ms)) (map (concat \<circ> map msg_bytes) mss) =
   map (concat \<circ> map msg_bytes) (filter (\<lambda>ms. ms \<noteq> []) [ms] @ mss)"
  by (auto simp: rest_chunks_def msg_bytes_not_Nil)


definition reads_example :: uconn where
  "reads_example =
     \<lparr>rchunks = [[0,0,0,2, 0xC0,7,0,1,9], [0,0,0,0]], rfin = EOF, wbytes = [], wfds = [], wroom = None,
      uclosed = False\<rparr>"


end
