(* ===== verification/Gochan.thy ===== *)
theory Gochan
  imports Prelude
begin

text \<open>
  Buffered Go channels: a bounded first-in first-out buffer that can be closed once.  Sending on a
  closed channel and closing a closed channel panic; receiving from a closed channel gives the
  buffered values first and then the element type's zero value for ever.  The locale \<open>bounded_fifo\<close>
  is the part the goroutines rely on.
\<close>

record 'a gochan =
  cbuf :: "'a list"
  ccap :: nat
  cclosed :: bool

datatype 'a send_res = SendOk "'a gochan" | SendBlocks | SendPanics
datatype 'a recv_res = RecvVal 'a "'a gochan" | RecvZero | RecvBlocks

definition make_chan :: "nat \<Rightarrow> 'a gochan" where
  "make_chan n = \<lparr>cbuf = [], ccap = n, cclosed = False\<rparr>"

definition chan_send :: "'a gochan \<Rightarrow> 'a \<Rightarrow> 'a send_res" where
  "chan_send ch v =
     (if cclosed ch then SendPanics
      else if length (cbuf ch) < ccap ch then SendOk (ch\<lparr>cbuf := cbuf ch @ [v]\<rparr>)
      else SendBlocks)"

definition chan_recv :: "'a gochan \<Rightarrow> 'a recv_res" where
  "chan_recv ch =
     (case cbuf ch of
        v # vs \<Rightarrow> RecvVal v (ch\<lparr>cbuf := vs\<rparr>)
      | [] \<Rightarrow> if cclosed ch then RecvZero else RecvBlocks)"

text \<open>\<open>None\<close>: the close panics.\<close>

definition chan_close :: "'a gochan \<Rightarrow> 'a gochan option" where
  "chan_close ch = (if cclosed ch then None else Some (ch\<lparr>cclosed := True\<rparr>))"

section \<open>The contract\<close>

locale bounded_fifo =
  fixes put :: "'q \<Rightarrow> 'a \<Rightarrow> 'q option"
    and get :: "'q \<Rightarrow> ('a \<times> 'q) option"
    and items :: "'q \<Rightarrow> 'a list"
    and cap :: "'q \<Rightarrow> nat"
    and live :: "'q \<Rightarrow> bool"
  assumes put_Some: "put q v = Some q' \<Longrightarrow>
      items q' = items q @ [v] \<and> cap q' = cap q \<and> length (items q) < cap q \<and> live q \<and> live q'"
    and put_room: "live q \<Longrightarrow> length (items q) < cap q \<Longrightarrow> \<exists>q'. put q v = Some q'"
    and get_Some: "get q = Some (v, q') \<Longrightarrow>
      items q = v # items q' \<and> cap q' = cap q \<and> live q' = live q"
    and get_None: "get q = None \<Longrightarrow> items q = []"
begin

lemma put_count: "put q v = Some q' \<Longrightarrow> count_list (items q') x = count_list (items q) x + of_bool (x = v)"
  using put_Some [of q v q'] by auto

lemma get_count: "get q = Some (v, q') \<Longrightarrow> count_list (items q) x = count_list (items q') x + of_bool (x = v)"
  using get_Some [of q v q'] by auto

lemma put_within: "put q v = Some q' \<Longrightarrow> length (items q') \<le> cap q'"
  using put_Some [of q v q'] by auto

lemma get_within: "get q = Some (v, q') \<Longrightarrow> length (items q) \<le> cap q \<Longrightarrow> length (items q') \<le> cap q'"
  using get_Some [of q v q'] by auto

text \<open>A queue whose values are distinct and come from a set no larger than its capacity always has
  room for a value of the set that it does not hold.\<close>

lemma put_distinct:
  assumes "live q" and "distinct (items q)" and "set (items q) \<subseteq> A - {v}" and "finite A" and "v \<in> A"
    and "card A \<le> cap q"
  shows "\<exists>q'. put q v = Some q'"
proof (rule put_room)
  have "length (items q) \<le> card (A - {v})"
    using assms(2-4) by (metis card_mono distinct_card finite_Diff)
  also have "\<dots> < card A"
    using assms(4,5) by (meson card_Diff1_less)
  finally show "length (items q) < cap q"
    using assms(6) by simp
qed (rule assms)

end

definition chan_put :: "'a gochan \<Rightarrow> 'a \<Rightarrow> 'a gochan option" where
  "chan_put ch v = (case chan_send ch v of SendOk ch' \<Rightarrow> Some ch' | _ \<Rightarrow> None)"

definition chan_get :: "'a gochan \<Rightarrow> ('a \<times> 'a gochan) option" where
  "chan_get ch = (case chan_recv ch of RecvVal v ch' \<Rightarrow> Some (v, ch') | _ \<Rightarrow> None)"

interpretation gc: bounded_fifo chan_put chan_get cbuf ccap "\<lambda>ch. \<not> cclosed ch"
  by unfold_locales
    (auto simp: chan_put_def chan_get_def chan_send_def chan_recv_def split: if_splits list.splits)

lemma chan_send_put: "chan_send ch v = SendOk ch' \<longleftrightarrow> chan_put ch v = Some ch'"
  by (auto simp: chan_put_def split: send_res.splits)

lemma chan_recv_get: "chan_recv ch = RecvVal v ch' \<longleftrightarrow> chan_get ch = Some (v, ch')"
  by (auto simp: chan_get_def split: recv_res.splits)

lemma chan_send_panics [simp]: "chan_send ch v = SendPanics \<longleftrightarrow> cclosed ch"
  by (simp add: chan_send_def)

lemma chan_recv_zero: "chan_recv ch = RecvZero \<longleftrightarrow> cbuf ch = [] \<and> cclosed ch"
  by (simp add: chan_recv_def split: list.split)

lemma chan_close_None [simp]: "chan_close ch = None \<longleftrightarrow> cclosed ch"
  by (simp add: chan_close_def)

end
