(* ===== verification/Block.thy ===== *)
theory Block
  imports Prelude
begin

text \<open>
  One packet block (\<^verbatim>\<open>block\<close> of \<^verbatim>\<open>socket.go\<close>): the reference counter, which is an atomic
  \<^verbatim>\<open>int32\<close>, and the status word of the block in the memory that the daemon shares with the kernel.
  The counter's contract is the locale \<open>refcount\<close>; the addresses of the status words are those of
  \<^verbatim>\<open>cblock\<close>, and the per-index view of the statuses is shown to be what the memory operations do.
\<close>

section \<open>Reference counter\<close>

definition ref :: "i32 \<Rightarrow> i32" where
  "ref r = r + 1"

text \<open>\<^verbatim>\<open>unref\<close> subtracts one and then looks at the new value: zero returns the block to the kernel, a
  negative value panics.\<close>

datatype unref_out = ClearBlock | KeepBlock | InvalidUnrefPanic

definition unref :: "i32 \<Rightarrow> i32 \<times> unref_out" where
  "unref r =
     (let refs = r - 1
      in (refs, if refs = 0 then ClearBlock else if sint refs < 0 then InvalidUnrefPanic else KeepBlock))"

locale refcount =
  fixes inc :: "'r \<Rightarrow> 'r"
    and dec :: "'r \<Rightarrow> 'r \<times> unref_out"
    and rep :: "nat \<Rightarrow> 'r"
    and bound :: nat
  assumes inc_rep: "inc (rep n) = rep (Suc n)"
    and dec_rep: "fst (dec (rep (Suc n))) = rep n"
    and dec_last: "snd (dec (rep (Suc 0))) = ClearBlock"
    and dec_more: "0 < n \<Longrightarrow> n < bound \<Longrightarrow> snd (dec (rep (Suc n))) = KeepBlock"
    and rep_inj: "m < bound \<Longrightarrow> n < bound \<Longrightarrow> rep m = rep n \<Longrightarrow> m = n"
begin

text \<open>A counter that stands for \<open>n\<close> holders never panics, and asks for the block to be cleared exactly
  when the last holder gives it up.\<close>

lemma dec_out:
  assumes "0 < n" and "n \<le> bound"
  shows "snd (dec (rep n)) = (if n = 1 then ClearBlock else KeepBlock)"
proof (cases "n = 1")
  case True
  then show ?thesis using dec_last by simp
next
  case False
  with assms obtain k where "n = Suc k" "0 < k" "k < bound"
    by (cases n) auto
  then show ?thesis using dec_more [of k] by simp
qed

lemma dec_fst: "0 < n \<Longrightarrow> fst (dec (rep n)) = rep (n - 1)"
  using dec_rep [of "n - 1"] by simp

lemma inc_funpow: "(inc ^^ k) (rep n) = rep (n + k)"
  by (induction k) (simp_all add: inc_rep)

lemma rep_zero_iff: "n < bound \<Longrightarrow> rep n = rep 0 \<longleftrightarrow> n = 0"
  using rep_inj [of n 0] by auto

end

text \<open>The counts that an \<^verbatim>\<open>int32\<close> can represent.\<close>

definition max_refs :: nat where
  "max_refs = 2 ^ 31"

lemma of_nat_i32_inj:
  "m < max_refs \<Longrightarrow> n < max_refs \<Longrightarrow> (of_nat m :: i32) = of_nat n \<Longrightarrow> m = n"
proof -
  assume m: "m < max_refs" and n: "n < max_refs" and eq: "(of_nat m :: i32) = of_nat n"
  have "int m = int n"
    using sint_of_nat32 [OF m [unfolded max_refs_def]] sint_of_nat32 [OF n [unfolded max_refs_def]] eq
    by metis
  then show "m = n" by simp
qed

interpretation rc: refcount ref unref "of_nat :: nat \<Rightarrow> i32" max_refs
proof
  show "ref (of_nat n) = of_nat (Suc n)" for n
    by (simp add: ref_def)
  show "fst (unref (of_nat (Suc n))) = of_nat n" for n
    by (simp add: unref_def Let_def)
  show "snd (unref (of_nat (Suc 0))) = ClearBlock"
    by (simp add: unref_def)
  show "m = n" if "m < max_refs" "n < max_refs" "(of_nat m :: i32) = of_nat n" for m n
    using that by (rule of_nat_i32_inj)
  show "snd (unref (of_nat (Suc n))) = KeepBlock" if "0 < n" "n < max_refs" for n
  proof -
    have "(of_nat n :: i32) \<noteq> 0" and "sint (of_nat n :: i32) = int n"
      using that of_nat_i32_inj [of n 0] sint_of_nat32 [of n] by (auto simp: max_refs_def)
    then show ?thesis by (simp add: unref_def Let_def)
  qed
qed

section \<open>Status words in the ring\<close>

text \<open>\<open>base\<close> is \<^verbatim>\<open>s.ring\<close>, \<open>bsize\<close> is \<^verbatim>\<open>conf.BlockSize\<close>, \<open>hdroff\<close> the offset of the
  \<^verbatim>\<open>block_status\<close> word in a block descriptor, which the kernel's header file fixes.\<close>

record ring =
  base :: uintptr
  bsize :: int
  hdroff :: uintptr

type_synonym mem = "uintptr \<Rightarrow> u32"

definition cblock :: "ring \<Rightarrow> nat \<Rightarrow> uintptr" where
  "cblock g i = base g + word_of_int (bsize g) * of_nat i + hdroff g"

definition clear :: "ring \<Rightarrow> mem \<Rightarrow> nat \<Rightarrow> mem" where
  "clear g m i = m(cblock g i := 0)"

definition ready :: "ring \<Rightarrow> mem \<Rightarrow> i32 \<Rightarrow> nat \<Rightarrow> bool" where
  "ready g m r i \<longleftrightarrow> r = 0 \<and> m (cblock g i) \<noteq> 0"

definition statuses :: "ring \<Rightarrow> nat \<Rightarrow> mem \<Rightarrow> u32 list" where
  "statuses g n m = map (\<lambda>i. m (cblock g i)) [0..<n]"

lemma cblock_inj:
  assumes "0 < bsize g" and "bsize g * int n \<le> 2 ^ 64" and "i < n" and "j < n" and "cblock g i = cblock g j"
  shows "i = j"
proof -
  have lim: "0 \<le> bsize g * int k \<and> bsize g * int k < 2 ^ 64" if "k < n" for k
  proof -
    have "bsize g * int k < bsize g * int n" using assms(1) that by simp
    then have "bsize g * int k < 2 ^ 64" using assms(2) by (rule less_le_trans)
    with assms(1) show ?thesis by simp
  qed
  have "(word_of_int (bsize g * int i) :: uintptr) = word_of_int (bsize g * int j)"
    using assms(5) by (simp add: cblock_def)
  then have "take_bit 64 (bsize g * int i) = take_bit 64 (bsize g * int j)"
    by (simp only: word_of_int_eq_iff) simp
  moreover have "take_bit 64 (bsize g * int k) = bsize g * int k" if "k < n" for k
    using lim [OF that] by (intro take_bit_int_eq_self) auto
  ultimately have "bsize g * int i = bsize g * int j"
    using assms(3,4) by metis
  then show ?thesis using assms(1) by simp
qed

text \<open>The memory operations implement the per-index view of the ring.  If the ring's blocks fit in the
  address space, each block has a status word of its own: clearing block \<open>i\<close> in memory sets exactly
  entry \<open>i\<close> of the list of statuses to zero, and \<^verbatim>\<open>ready\<close> reads entry \<open>i\<close> of it.\<close>

theorem clear_refines_statuses:
  assumes "0 < bsize g" and "bsize g * int n \<le> 2 ^ 64" and "i < n"
  shows "statuses g n (clear g m i) = (statuses g n m)[i := 0] \<and>
         (ready g m r i \<longleftrightarrow> r = 0 \<and> statuses g n m ! i \<noteq> 0)"
proof -
  have "statuses g n (clear g m i) = (statuses g n m)[i := 0]"
    using assms(3) cblock_inj [OF assms(1,2) assms(3)]
    by (intro nth_equalityI) (auto simp: statuses_def clear_def nth_list_update)
  then show ?thesis
    using assms(3) by (simp add: ready_def statuses_def)
qed

definition ring_example :: ring where
  "ring_example = \<lparr>base = 0x7f0000000000, bsize = 1048576, hdroff = 8\<rparr>"

theorem clear_refines_statuses_witness:
  "statuses ring_example 16 (clear ring_example (\<lambda>_. 1) 3) = (statuses ring_example 16 (\<lambda>_. 1))[3 := 0] \<and>
   (ready ring_example (\<lambda>_. 1) 0 3 \<longleftrightarrow> (0::i32) = 0 \<and> statuses ring_example 16 (\<lambda>_. 1) ! 3 \<noteq> 0)"
proof -
  have "0 < bsize ring_example" and "bsize ring_example * int 16 \<le> 2 ^ 64" and "(3::nat) < 16"
    by (simp_all add: ring_example_def)
  from clear_refines_statuses [OF this, of "\<lambda>_. 1" 0] show ?thesis .
qed

end
