(* ===== verification/Socket.thy ===== *)
theory Socket
  imports Reads Gochan Block
begin

text \<open>
  One AF\_PACKET socket of the daemon and everything that runs around it (\<^verbatim>\<open>socket.go\<close>): the goroutine
  that watches the ring (\<^verbatim>\<open>getNewBlocks\<close>), the goroutine that hands blocks to clients
  (\<^verbatim>\<open>socket.run\<close>), and two goroutines per client (\<^verbatim>\<open>conn.run\<close> and \<^verbatim>\<open>conn.handleReads\<close>), with the
  kernel and the clients as environment.

  Goroutines interleave.  Each has a program counter, and one step of a goroutine performs one access
  to what it shares with the others: one atomic operation on a reference counter, one read or write of
  a status word, one channel operation, or one call on its connection; local computation belongs to
  the step before it.  In particular \<^verbatim>\<open>ready\<close> is two steps (it loads the counter, then the status)
  and \<^verbatim>\<open>unref\<close> is two steps when it drops the last reference (it decrements the counter, then clears
  the status).  Blocks and connections are named by their index.
\<close>

section \<open>State\<close>

datatype crash =
    InvalidUnref nat            \<comment> \<open>\<open>panic\<close> in \<open>unref\<close>\<close>
  | AlreadyOutstanding nat nat  \<comment> \<open>\<open>log.Fatalf\<close> in \<open>conn.run\<close>\<close>
  | SendOnClosed                \<comment> \<open>run-time panics of the language\<close>
  | CloseOfClosed
  | NilDeref
  | IndexRange
  | WaitFailed nat              \<comment> \<open>\<open>log.Panicf\<close> in \<open>getNewBlocks\<close>: the kernel's \<open>select\<close> failed\<close>

text \<open>\<^verbatim>\<open>getNewBlocks\<close>: load the counter, load the status, wait, take a reference, send.\<close>

datatype get_pc = GLoad | GStatus | GWait | GRef | GSend

text \<open>\<^verbatim>\<open>socket.run\<close>: at its \<^verbatim>\<open>select\<close>; about to close a departing client's channel; in the range loop
  over the clients still to be served with block \<open>b\<close>; about to send \<open>b\<close> to a client; about to take
  back the reference of a failed send; about to clear a status word and go on.\<close>

datatype run_pc =
    RSelect
  | RClose nat
  | RRange nat "nat list"
  | RSend nat nat "nat list"
  | RUnsend nat "nat list"
  | RClear nat run_pc

text \<open>\<^verbatim>\<open>conn.run\<close>: at its \<^verbatim>\<open>select\<close>; batching further blocks; about to write the batch; about to give
  up block \<open>i\<close>; then the shutdown, from closing the connection to the loop over \<^verbatim>\<open>outstanding\<close>.\<close>

datatype conn_pc =
    CSelect
  | CBatch "byte list"
  | CWrite "byte list"
  | CUnref nat
  | CClose
  | CMarkOld
  | CDrainNew
  | CDrainUnref nat
  | CDrainOld
  | CFinal nat
  | CDone
  | CClear nat conn_pc

datatype reads_pc = HRead | HSend nat | HDefer | HDone

text \<open>\<open>outstanding ! i\<close> says that the time stamp of block \<open>i\<close> is not the zero time.  \<open>peer_open\<close> says that
  the client may still send.\<close>

record conn =
  sock :: uconn
  peer_open :: bool
  cnew :: "nat gochan"
  cold :: "nat gochan"
  outstanding :: "bool list"
  c_pc :: conn_pc
  h_pc :: reads_pc

record socket =
  numBlocks :: nat
  refs :: "i32 list"
  status :: "u32 list"
  newBlocks :: "nat gochan"
  blockIndex :: nat
  g_pc :: get_pc
  r_pc :: run_pc
  currentConns :: "nat list"
  conns :: "conn list"
  crashed :: "crash option"

text \<open>\<^verbatim>\<open>newSocket\<close> with \<open>n\<close> blocks, and \<^verbatim>\<open>run\<close> started: no reference is held and the kernel owns every
  block.\<close>

definition init_socket :: "nat \<Rightarrow> socket" where
  "init_socket n =
     \<lparr>numBlocks = n, refs = replicate n 0, status = replicate n 0, newBlocks = make_chan n,
      blockIndex = 0, g_pc = GLoad, r_pc = RSelect, currentConns = [], conns = [], crashed = None\<rparr>"

definition set_conn :: "socket \<Rightarrow> nat \<Rightarrow> conn \<Rightarrow> socket" where
  "set_conn s c k = s\<lparr>conns := (conns s)[c := k]\<rparr>"

definition set_crash :: "socket \<Rightarrow> crash \<Rightarrow> socket" where
  "set_crash s e = s\<lparr>crashed := Some e\<rparr>"

text \<open>The three shared-memory operations on a block.\<close>

definition ref_block :: "socket \<Rightarrow> nat \<Rightarrow> socket" where
  "ref_block s b = s\<lparr>refs := (refs s)[b := ref (refs s ! b)]\<rparr>"

definition dec_block :: "socket \<Rightarrow> nat \<Rightarrow> socket" where
  "dec_block s b = s\<lparr>refs := (refs s)[b := fst (unref (refs s ! b))]\<rparr>"

definition clear_block :: "socket \<Rightarrow> nat \<Rightarrow> socket" where
  "clear_block s b = s\<lparr>status := (status s)[b := 0]\<rparr>"

section \<open>getNewBlocks\<close>

definition getNewBlocks_step :: "socket \<Rightarrow> socket option" where
  "getNewBlocks_step s =
     (let b = blockIndex s in
      case g_pc s of
        GLoad \<Rightarrow>
          if b < length (refs s)
          then Some (s\<lparr>g_pc := if refs s ! b = 0 then GStatus else GWait\<rparr>)
          else Some (set_crash s IndexRange)
      | GStatus \<Rightarrow> Some (s\<lparr>g_pc := if status s ! b \<noteq> 0 then GRef else GWait\<rparr>)
      | GWait \<Rightarrow> Some (s\<lparr>g_pc := GLoad\<rparr>)
      | GRef \<Rightarrow> Some ((ref_block s b)\<lparr>g_pc := GSend\<rparr>)
      | GSend \<Rightarrow>
          (case chan_send (newBlocks s) b of
             SendOk ch \<Rightarrow>
               Some (s\<lparr>newBlocks := ch, blockIndex := (b + 1) mod numBlocks s, g_pc := GLoad\<rparr>)
           | SendBlocks \<Rightarrow> None
           | SendPanics \<Rightarrow> Some (set_crash s SendOnClosed)))"

definition getNewBlocks_fail :: "nat \<Rightarrow> socket \<Rightarrow> socket option" where
  "getNewBlocks_fail errno s = (if g_pc s = GWait then Some (set_crash s (WaitFailed errno)) else None)"

section \<open>socket.run\<close>

definition addNewConn :: "uconn \<Rightarrow> socket \<Rightarrow> socket" where
  "addNewConn k s =
     s\<lparr>conns := conns s @
         [\<lparr>sock = k, peer_open = True, cnew = make_chan (length (refs s)),
           cold = make_chan (length (refs s)), outstanding = replicate (length (refs s)) False,
           c_pc = CSelect, h_pc = HRead\<rparr>],
       currentConns := currentConns s @ [length (conns s)]\<rparr>"

text \<open>The three cases of the \<^verbatim>\<open>select\<close>.  A departing client hands itself over on the unbuffered channel
  \<^verbatim>\<open>oldConns\<close>, so both goroutines move.  \<open>order\<close> is the order in which this range loop visits the
  map of clients, which the language leaves open.\<close>

definition run_newConn :: "uconn \<Rightarrow> socket \<Rightarrow> socket option" where
  "run_newConn k s = (if r_pc s = RSelect then Some (addNewConn k s) else None)"

definition run_oldConn :: "nat \<Rightarrow> socket \<Rightarrow> socket option" where
  "run_oldConn c s =
     (if r_pc s = RSelect \<and> c < length (conns s) \<and> c_pc (conns s ! c) = CMarkOld
      then Some ((set_conn s c ((conns s ! c)\<lparr>c_pc := CDrainNew\<rparr>))\<lparr>r_pc := RClose c\<rparr>)
      else None)"

definition run_newBlock :: "nat list \<Rightarrow> socket \<Rightarrow> socket option" where
  "run_newBlock order s =
     (if r_pc s = RSelect \<and> distinct order \<and> set order = set (currentConns s)
      then (case chan_recv (newBlocks s) of
              RecvVal b ch \<Rightarrow> Some (s\<lparr>newBlocks := ch, r_pc := RRange b order\<rparr>)
            | RecvZero \<Rightarrow> Some (set_crash s NilDeref)
            | RecvBlocks \<Rightarrow> None)
      else None)"

text \<open>\<^verbatim>\<open>unref\<close> in \<^verbatim>\<open>run\<close>, continuing at \<open>next\<close>.\<close>

definition run_unref :: "socket \<Rightarrow> nat \<Rightarrow> run_pc \<Rightarrow> socket" where
  "run_unref s b k =
     (case snd (unref (refs s ! b)) of
        ClearBlock \<Rightarrow> (dec_block s b)\<lparr>r_pc := RClear b k\<rparr>
      | KeepBlock \<Rightarrow> (dec_block s b)\<lparr>r_pc := k\<rparr>
      | InvalidUnrefPanic \<Rightarrow> set_crash (dec_block s b) (InvalidUnref b))"

definition run_step :: "socket \<Rightarrow> socket option" where
  "run_step s =
     (case r_pc s of
        RSelect \<Rightarrow> None
      | RClose c \<Rightarrow>
          (case chan_close (cnew (conns s ! c)) of
             None \<Rightarrow> Some (set_crash s CloseOfClosed)
           | Some ch \<Rightarrow>
               Some ((set_conn s c ((conns s ! c)\<lparr>cnew := ch\<rparr>))
                 \<lparr>currentConns := filter (\<lambda>d. d \<noteq> c) (currentConns s), r_pc := RSelect\<rparr>))
      | RRange b [] \<Rightarrow> Some (run_unref s b RSelect)
      | RRange b (c # todo) \<Rightarrow> Some ((ref_block s b)\<lparr>r_pc := RSend b c todo\<rparr>)
      | RSend b c todo \<Rightarrow>
          (case chan_send (cnew (conns s ! c)) b of
             SendOk ch \<Rightarrow>
               Some ((set_conn s c ((conns s ! c)\<lparr>cnew := ch\<rparr>))\<lparr>r_pc := RRange b todo\<rparr>)
           | SendBlocks \<Rightarrow> Some (s\<lparr>r_pc := RUnsend b todo\<rparr>)
           | SendPanics \<Rightarrow> Some (set_crash s SendOnClosed))
      | RUnsend b todo \<Rightarrow> Some (run_unref s b (RRange b todo))
      | RClear b k \<Rightarrow> Some ((clear_block s b)\<lparr>r_pc := k\<rparr>))"

section \<open>conn.run\<close>

definition conn_unref :: "socket \<Rightarrow> nat \<Rightarrow> nat \<Rightarrow> conn_pc \<Rightarrow> socket" where
  "conn_unref s c b pc =
     (case snd (unref (refs s ! b)) of
        ClearBlock \<Rightarrow> set_conn (dec_block s b) c ((conns s ! c)\<lparr>c_pc := CClear b pc\<rparr>)
      | KeepBlock \<Rightarrow> set_conn (dec_block s b) c ((conns s ! c)\<lparr>c_pc := pc\<rparr>)
      | InvalidUnrefPanic \<Rightarrow> set_crash (dec_block s b) (InvalidUnref b))"

text \<open>The body of \<^verbatim>\<open>blockLoop\<close> for a block \<open>b\<close> that was just received, up to the inner \<^verbatim>\<open>select\<close>.\<close>

definition conn_take :: "socket \<Rightarrow> nat \<Rightarrow> nat gochan \<Rightarrow> byte list \<Rightarrow> nat \<Rightarrow> socket" where
  "conn_take s c ch out b =
     (let k = conns s ! c in
      if b < length (outstanding k) then
        if outstanding k ! b then set_crash s (AlreadyOutstanding c b)
        else set_conn s c (k\<lparr>cnew := ch, outstanding := (outstanding k)[b := True],
                             c_pc := CBatch (out @ PutUint32 (of_nat b))\<rparr>)
      else set_crash s IndexRange)"

definition conn_newBlock :: "nat \<Rightarrow> socket \<Rightarrow> socket option" where
  "conn_newBlock c s =
     (let k = conns s ! c in
      if c_pc k = CSelect then
        (case chan_recv (cnew k) of
           RecvVal b ch \<Rightarrow> Some (conn_take s c ch [] b)
         | RecvZero \<Rightarrow> Some (set_crash s NilDeref)
         | RecvBlocks \<Rightarrow> None)
      else None)"

definition conn_oldBlock :: "nat \<Rightarrow> socket \<Rightarrow> socket option" where
  "conn_oldBlock c s =
     (let k = conns s ! c in
      if c_pc k = CSelect then
        (case chan_recv (cold k) of
           RecvZero \<Rightarrow> Some (set_conn s c (k\<lparr>c_pc := CClose\<rparr>))
         | RecvBlocks \<Rightarrow> None
         | RecvVal v ch \<Rightarrow>
             if v = 0 then Some (set_conn s c (k\<lparr>cold := ch, c_pc := CClose\<rparr>))
             else (let i = v - 1 in
               if i < length (outstanding k) then
                 if \<not> outstanding k ! i then Some (set_conn s c (k\<lparr>cold := ch, c_pc := CClose\<rparr>))
                 else Some (set_conn s c (k\<lparr>cold := ch, outstanding := (outstanding k)[i := False],
                                            c_pc := CUnref i\<rparr>))
               else Some (set_crash s IndexRange)))
      else None)"

definition conn_step :: "nat \<Rightarrow> socket \<Rightarrow> socket option" where
  "conn_step c s =
     (let k = conns s ! c in
      case c_pc k of
        CSelect \<Rightarrow> None
      | CBatch out \<Rightarrow>
          (case chan_recv (cnew k) of
             RecvVal b ch \<Rightarrow> Some (conn_take s c ch out b)
           | RecvZero \<Rightarrow> Some (set_crash s NilDeref)
           | RecvBlocks \<Rightarrow> Some (set_conn s c (k\<lparr>c_pc := CWrite out\<rparr>)))
      | CWrite out \<Rightarrow>
          (case Write (sock k) out of
             (None, w) \<Rightarrow> Some (set_conn s c (k\<lparr>sock := w, c_pc := CSelect\<rparr>))
           | (Some e, w) \<Rightarrow> Some (set_conn s c (k\<lparr>sock := w, c_pc := CClose\<rparr>)))
      | CUnref i \<Rightarrow> Some (conn_unref s c i CSelect)
      | CClose \<Rightarrow> Some (set_conn s c (k\<lparr>sock := Close (sock k), c_pc := CMarkOld\<rparr>))
      | CMarkOld \<Rightarrow> None
      | CDrainNew \<Rightarrow>
          (case chan_recv (cnew k) of
             RecvVal b ch \<Rightarrow> Some (set_conn s c (k\<lparr>cnew := ch, c_pc := CDrainUnref b\<rparr>))
           | RecvZero \<Rightarrow> Some (set_conn s c (k\<lparr>c_pc := CDrainOld\<rparr>))
           | RecvBlocks \<Rightarrow> None)
      | CDrainUnref b \<Rightarrow> Some (conn_unref s c b CDrainNew)
      | CDrainOld \<Rightarrow>
          (case chan_recv (cold k) of
             RecvVal v ch \<Rightarrow> Some (set_conn s c (k\<lparr>cold := ch\<rparr>))
           | RecvZero \<Rightarrow> Some (set_conn s c (k\<lparr>c_pc := CFinal 0\<rparr>))
           | RecvBlocks \<Rightarrow> None)
      | CFinal i \<Rightarrow>
          if i < length (outstanding k) then
            if outstanding k ! i then Some (conn_unref s c i (CFinal (i + 1)))
            else Some (set_conn s c (k\<lparr>c_pc := CFinal (i + 1)\<rparr>))
          else Some (set_conn s c (k\<lparr>c_pc := CDone\<rparr>))
      | CDone \<Rightarrow> None
      | CClear b pc \<Rightarrow> Some (set_conn (clear_block s b) c (k\<lparr>c_pc := pc\<rparr>)))"

section \<open>conn.handleReads\<close>

text \<open>\<^verbatim>\<open>Read\<close> waits while the client may still send and no whole message has arrived.\<close>

definition reads_step :: "nat \<Rightarrow> socket \<Rightarrow> socket option" where
  "reads_step c s =
     (let k = conns s ! c in
      case h_pc k of
        HRead \<Rightarrow>
          if uclosed (sock k) \<or> \<not> peer_open k \<or> msg_complete (sock k) then
            (case handleReads_iter (numBlocks s) (sock k) of
               (ReadReturn, w) \<Rightarrow> Some (set_conn s c (k\<lparr>sock := w, h_pc := HDefer\<rparr>))
             | (ReadContinue, w) \<Rightarrow> Some (set_conn s c (k\<lparr>sock := w\<rparr>))
             | (ReadBlock v, w) \<Rightarrow> Some (set_conn s c (k\<lparr>sock := w, h_pc := HSend v\<rparr>))
             | (ReadPanic, w) \<Rightarrow> Some (set_crash s IndexRange))
          else None
      | HSend v \<Rightarrow>
          (case chan_send (cold k) v of
             SendOk ch \<Rightarrow> Some (set_conn s c (k\<lparr>cold := ch, h_pc := HRead\<rparr>))
           | SendBlocks \<Rightarrow> None
           | SendPanics \<Rightarrow> Some (set_crash s SendOnClosed))
      | HDefer \<Rightarrow>
          (case chan_close (cold k) of
             None \<Rightarrow> Some (set_crash s CloseOfClosed)
           | Some ch \<Rightarrow> Some (set_conn s c (k\<lparr>cold := ch, h_pc := HDone\<rparr>)))
      | HDone \<Rightarrow> None)"

section \<open>Kernel and clients\<close>

text \<open>The kernel hands over a block that it owns by setting its status; a client sends data or goes
  away.\<close>

definition kernel_step :: "nat \<Rightarrow> u32 \<Rightarrow> socket \<Rightarrow> socket option" where
  "kernel_step b v s =
     (if b < length (status s) \<and> status s ! b = 0 \<and> v \<noteq> 0
      then Some (s\<lparr>status := (status s)[b := v]\<rparr>) else None)"

definition client_send :: "nat \<Rightarrow> byte list \<Rightarrow> socket \<Rightarrow> socket option" where
  "client_send c bs s =
     (let k = conns s ! c in
      if peer_open k \<and> bs \<noteq> [] then Some (set_conn s c (k\<lparr>sock := (sock k)\<lparr>rchunks := rchunks (sock k) @ [bs]\<rparr>\<rparr>))
      else None)"

definition client_hangup :: "nat \<Rightarrow> socket \<Rightarrow> socket option" where
  "client_hangup c s =
     (let k = conns s ! c in
      if peer_open k then Some (set_conn s c (k\<lparr>peer_open := False\<rparr>)) else None)"

section \<open>Executions\<close>

datatype event =
    EKernel nat u32
  | EGet
  | EGetFail nat
  | ENewConn uconn
  | EOldConn nat
  | ENewBlock "nat list"
  | ERun
  | EConnNew nat
  | EConnOld nat
  | EConn nat
  | EReads nat
  | EClient nat "byte list"
  | EHangup nat

definition on_conn :: "nat \<Rightarrow> (nat \<Rightarrow> socket \<Rightarrow> socket option) \<Rightarrow> socket \<Rightarrow> socket option" where
  "on_conn c f s = (if c < length (conns s) then f c s else None)"

fun exec :: "event \<Rightarrow> socket \<Rightarrow> socket option" where
  "exec (EKernel b v) s = kernel_step b v s"
| "exec EGet s = getNewBlocks_step s"
| "exec (EGetFail n) s = getNewBlocks_fail n s"
| "exec (ENewConn k) s = run_newConn k s"
| "exec (EOldConn c) s = run_oldConn c s"
| "exec (ENewBlock ord) s = run_newBlock ord s"
| "exec ERun s = run_step s"
| "exec (EConnNew c) s = on_conn c conn_newBlock s"
| "exec (EConnOld c) s = on_conn c conn_oldBlock s"
| "exec (EConn c) s = on_conn c conn_step s"
| "exec (EReads c) s = on_conn c reads_step s"
| "exec (EClient c bs) s = on_conn c (\<lambda>c. client_send c bs) s"
| "exec (EHangup c) s = on_conn c client_hangup s"

text \<open>A crashed process makes no more steps.\<close>

definition step :: "event \<Rightarrow> socket \<Rightarrow> socket option" where
  "step e s = (if crashed s = None then exec e s else None)"

fun run_events :: "event list \<Rightarrow> socket \<Rightarrow> socket option" where
  "run_events [] s = Some s"
| "run_events (e # es) s = (case step e s of None \<Rightarrow> None | Some s' \<Rightarrow> run_events es s')"

inductive reach :: "nat \<Rightarrow> socket \<Rightarrow> bool" for n where
  start: "reach n (init_socket n)"
| next_step: "reach n s \<Longrightarrow> step e s = Some s' \<Longrightarrow> reach n s'"

lemma run_events_reach: "reach n s \<Longrightarrow> run_events es s = Some s' \<Longrightarrow> reach n s'"
  by (induction es arbitrary: s) (auto split: option.splits intro: reach.next_step)

end
