(* ===== verification/Daemon.thy ===== *)
theory Daemon
  imports Afpacket Socket
begin

text \<open>
  Start-up of the daemon: \<^verbatim>\<open>newSocket\<close> of \<^verbatim>\<open>socket.go\<close>, \<^verbatim>\<open>RunTestimony\<close>, \<^verbatim>\<open>setPermissions\<close>, \<^verbatim>\<open>uid\<close> and
  \<^verbatim>\<open>gid\<close> of \<^verbatim>\<open>daemon.go\<close>, and \<^verbatim>\<open>main\<close> of \<^verbatim>\<open>testimonyd/daemon.go\<close>.  The machine the daemon runs on is a parameter:
  tcpdump, the kernel's answers to \<^verbatim>\<open>AFPacket\<close>, the user and group databases, and whether listening and
  changing the owner of a socket file succeed.
\<close>

section \<open>Configuration\<close>

text \<open>Numbers are Go's \<^verbatim>\<open>int\<close>.\<close>

record SocketConfig =
  SocketName :: string
  Interface :: string
  BlockSize :: int
  NumBlocks :: int
  BlockTimeoutMillis :: int
  FanoutType :: int
  FanoutSize :: int
  FanoutID :: int
  User :: string
  Group :: string
  Filter :: string

text \<open>What \<^verbatim>\<open>getgrnam_r\<close> reports: an error, no such group, or the group's number.\<close>

datatype grp_res = GrpErr int | GrpNil | GrpFound u32

record machine =
  m_tcpdump :: "string \<Rightarrow> string \<Rightarrow> string option"
  m_bpf :: bool
  m_kernel :: "string \<Rightarrow> nat \<Rightarrow> kernel"   \<comment> \<open>for the \<open>i\<close>-th packet socket of a socket name\<close>
  m_currentUid :: "string option"
  m_lookupUid :: "string \<Rightarrow> string option"
  m_getgrnam :: "string \<Rightarrow> grp_res"
  m_chown :: "string \<Rightarrow> int \<Rightarrow> int \<Rightarrow> bool"
  m_listen :: "string \<Rightarrow> bool"

section \<open>newSocket\<close>

record sock_info =
  si_num :: nat
  si_conf :: SocketConfig
  si_fd :: int
  si_ring :: int
  si_state :: socket

datatype sock_err = FilterErr filter_err | AFPacketErr "string option" int

text \<open>\<open>None\<close> is a panic: \<^verbatim>\<open>make\<close> with a negative size, or \<^verbatim>\<open>&f[0]\<close> of an empty program.  The Go side sees an
  error exactly when \<^verbatim>\<open>errno\<close> is not zero after the call.\<close>

definition C_int :: "int \<Rightarrow> i32" where
  "C_int x = word_of_int x"

definition newSocket :: "machine \<Rightarrow> SocketConfig \<Rightarrow> int \<Rightarrow> nat \<Rightarrow> (sock_err + sock_info) option" where
  "newSocket m sc fanoutID num =
     (if NumBlocks sc < 0 then None
      else
        let finish = (\<lambda>filtsize filt.
              let res = AFPacket (m_bpf m) (m_kernel m (SocketName sc) num) (Interface sc) (C_int (BlockSize sc))
                    (C_int (NumBlocks sc)) (C_int (BlockTimeoutMillis sc)) (C_int fanoutID)
                    (C_int (FanoutSize sc)) (C_int (FanoutType sc)) filtsize filt
              in if fst (af_state res) \<noteq> 0 then Some (Inl (AFPacketErr (af_err res) (fst (af_state res))))
                 else Some (Inr \<lparr>si_num = num, si_conf = sc, si_fd = af_fd res, si_ring = af_ring res,
                                 si_state = init_socket (nat (NumBlocks sc))\<rparr>))
        in if Filter sc \<noteq> '''' then
             (case compileFilter (m_tcpdump m) (Interface sc) (Filter sc) of
                None \<Rightarrow> None
              | Some (Inl e) \<Rightarrow> Some (Inl (FilterErr e))
              | Some (Inr f) \<Rightarrow> if f = [] then None else finish (C_int (int (length f))) f)
           else finish 0 [])"

section \<open>Permissions\<close>

datatype perm_err = NoUser | BadUid string | GroupErr int | NoGroup string | ChownFailed int int

definition uid :: "machine \<Rightarrow> SocketConfig \<Rightarrow> perm_err + int" where
  "uid m sc =
     (case (if User sc = '''' then m_currentUid m else m_lookupUid m (User sc)) of
        None \<Rightarrow> Inl NoUser
      | Some u \<Rightarrow> (case Atoi u of None \<Rightarrow> Inl (BadUid u) | Some i \<Rightarrow> Inr i))"

definition gid :: "machine \<Rightarrow> SocketConfig \<Rightarrow> perm_err + int" where
  "gid m sc =
     (if Group sc = '''' then Inr 0
      else case m_getgrnam m (Group sc) of
        GrpErr e \<Rightarrow> Inl (GroupErr e)
      | GrpNil \<Rightarrow> Inl (NoGroup (Group sc))
      | GrpFound g \<Rightarrow> Inr (uint g))"

text \<open>The owner and group that the socket file has been given.\<close>

definition setPermissions :: "machine \<Rightarrow> SocketConfig \<Rightarrow> perm_err + int \<times> int" where
  "setPermissions m sc =
     (case uid m sc of
        Inl e \<Rightarrow> Inl e
      | Inr u \<Rightarrow>
          (case gid m sc of
             Inl e \<Rightarrow> Inl e
           | Inr g \<Rightarrow> if m_chown m (SocketName sc) u g then Inr (u, g) else Inl (ChownFailed u g)))"

section \<open>RunTestimony\<close>

datatype fatal =
    BadFanoutID int
  | DupFanoutID int
  | DupSocketName string
  | SocketFailed sock_err
  | ListenFailed string
  | PermFailed perm_err
  | Panicked

text \<open>The first loop collects the manually defined ids; \<open>ids\<close> is the map of the code.\<close>

fun collect_ids :: "int list \<Rightarrow> SocketConfig list \<Rightarrow> fatal + int list" where
  "collect_ids ids [] = Inr ids"
| "collect_ids ids (sc # t) =
     (if FanoutID sc < 0 then Inl (BadFanoutID (FanoutID sc))
      else if FanoutID sc \<in> set ids then Inl (DupFanoutID (FanoutID sc))
      else collect_ids (if FanoutID sc > 0 then FanoutID sc # ids else ids) t)"

text \<open>\<^verbatim>\<open>for ids[autoID] { autoID++ }\<close>\<close>

function next_id :: "int list \<Rightarrow> int \<Rightarrow> int" where
  "next_id ids autoID = (if autoID \<in> set ids then next_id ids (autoID + 1) else autoID)"
  by pat_completeness auto
termination
proof (relation "measure (\<lambda>(ids, a). card {x \<in> set ids. a \<le> x})")
  fix ids :: "int list" and a
  assume "a \<in> set ids"
  then have "{x \<in> set ids. a + 1 \<le> x} \<subset> {x \<in> set ids. a \<le> x}" by force
  then show "((ids, a + 1), ids, a) \<in> measure (\<lambda>(ids, a). card {x \<in> set ids. a \<le> x})"
    by (simp add: psubset_card_mono)
qed simp

declare next_id.simps [simp del]

fun start_socks :: "machine \<Rightarrow> SocketConfig \<Rightarrow> int \<Rightarrow> nat list \<Rightarrow> fatal + sock_info list" where
  "start_socks m sc fanoutID [] = Inr []"
| "start_socks m sc fanoutID (i # is) =
     (case newSocket m sc fanoutID i of
        None \<Rightarrow> Inl Panicked
      | Some (Inl e) \<Rightarrow> Inl (SocketFailed e)
      | Some (Inr s) \<Rightarrow>
          (case start_socks m sc fanoutID is of Inl e \<Rightarrow> Inl e | Inr ss \<Rightarrow> Inr (s # ss)))"

text \<open>One service per configuration: its configuration, its fanout id, its packet sockets and the owner of its
  socket file.\<close>

record service =
  sv_conf :: SocketConfig
  sv_id :: int
  sv_socks :: "sock_info list"
  sv_owner :: "int \<times> int"

fun run_configs ::
    "machine \<Rightarrow> int list \<Rightarrow> int \<Rightarrow> string list \<Rightarrow> SocketConfig list \<Rightarrow> fatal + service list" where
  "run_configs m ids autoID names [] = Inr []"
| "run_configs m ids autoID names (sc # t) =
     (if SocketName sc \<in> set names then Inl (DupSocketName (SocketName sc))
      else
        let (fanoutID, autoID') =
              (if FanoutID sc > 0 then (FanoutID sc, autoID)
               else (let a = next_id ids autoID in (a, a + 1)))
        in case start_socks m sc fanoutID [0..<nat (FanoutSize sc)] of
             Inl e \<Rightarrow> Inl e
           | Inr socks \<Rightarrow>
               if \<not> m_listen m (SocketName sc) then Inl (ListenFailed (SocketName sc))
               else case setPermissions m sc of
                 Inl e \<Rightarrow> Inl (PermFailed e)
               | Inr owner \<Rightarrow>
                   (case run_configs m ids autoID' (SocketName sc # names) t of
                      Inl e \<Rightarrow> Inl e
                    | Inr svs \<Rightarrow>
                        Inr (\<lparr>sv_conf = sc, sv_id = fanoutID, sv_socks = socks, sv_owner = owner\<rparr> # svs)))"

definition RunTestimony :: "machine \<Rightarrow> SocketConfig list \<Rightarrow> fatal + service list" where
  "RunTestimony m t =
     (case collect_ids [] t of Inl e \<Rightarrow> Inl e | Inr ids \<Rightarrow> run_configs m ids 1 [] t)"

section \<open>main\<close>

datatype main_err = NoConfigFile | BadConfigFile | Fatal fatal

definition default_fanout :: "SocketConfig \<Rightarrow> SocketConfig" where
  "default_fanout sc = (if FanoutSize sc = 0 then sc\<lparr>FanoutSize := 1\<rparr> else sc)"

text \<open>\<open>decode\<close> is the JSON decoder.\<close>

definition testimonyd_main ::
    "(string \<Rightarrow> SocketConfig list option) \<Rightarrow> machine \<Rightarrow> string option \<Rightarrow> main_err + service list" where
  "testimonyd_main decode m confdata =
     (case confdata of
        None \<Rightarrow> Inl NoConfigFile
      | Some data \<Rightarrow>
          (case decode data of
             None \<Rightarrow> Inl BadConfigFile
           | Some t \<Rightarrow>
               (case RunTestimony m (map default_fanout t) of Inl e \<Rightarrow> Inl (Fatal e) | Inr svs \<Rightarrow> Inr svs)))"

section \<open>Fanout ids and names\<close>

definition manual_ids :: "SocketConfig list \<Rightarrow> int list" where
  "manual_ids t = filter (\<lambda>x. 0 < x) (map FanoutID t)"

lemma manual_ids_simps [simp]:
  "manual_ids [] = []"
  "manual_ids (sc # t) = (if 0 < FanoutID sc then FanoutID sc # manual_ids t else manual_ids t)"
  by (simp_all add: manual_ids_def)

lemma collect_ids_iff:
  assumes "\<forall>x \<in> set acc. 0 < x"
  shows "(\<exists>ids. collect_ids acc t = Inr ids) \<longleftrightarrow>
           (\<forall>sc \<in> set t. 0 \<le> FanoutID sc) \<and> distinct (manual_ids t) \<and> set acc \<inter> set (manual_ids t) = {}"
  using assms
proof (induction acc t rule: collect_ids.induct)
  case (2 ids sc t)
  show ?case
  proof (cases "FanoutID sc < 0 \<or> FanoutID sc \<in> set ids")
    case True
    then show ?thesis using 2(2) by auto
  next
    case False
    with 2 show ?thesis by (cases "0 < FanoutID sc") auto
  qed
qed simp

lemma collect_ids_set: "collect_ids acc t = Inr ids \<Longrightarrow> set ids = set acc \<union> set (manual_ids t)"
  by (induction acc t rule: collect_ids.induct) (auto split: if_splits)

lemma next_id_free: "next_id ids a \<notin> set ids \<and> a \<le> next_id ids a \<and> {a..<next_id ids a} \<subseteq> set ids"
proof (induction ids a rule: next_id.induct)
  case (1 ids a)
  show ?case
  proof (cases "a \<in> set ids")
    case True
    moreover have "{a..<x} \<subseteq> insert a {a + 1..<x}" for x by auto
    ultimately show ?thesis
      using 1 by (simp add: next_id.simps [of ids a]) (meson insert_subset order_trans)
  next
    case False
    then show ?thesis by (simp add: next_id.simps [of ids a])
  qed
qed

text \<open>C35: the search for an automatic fanout id ends, and gives the smallest id from the counter on that no
  configuration claims.\<close>

theorem next_id_least:
  "next_id ids a \<notin> set ids \<and> a \<le> next_id ids a \<and> {a..<next_id ids a} \<subseteq> set ids"
  by (rule next_id_free)

definition service_ok :: "int list \<Rightarrow> int \<Rightarrow> service \<Rightarrow> bool" where
  "service_ok ids a sv \<longleftrightarrow>
     (if 0 < FanoutID (sv_conf sv) then sv_id sv = FanoutID (sv_conf sv)
      else a \<le> sv_id sv \<and> sv_id sv \<notin> set ids) \<and>
     length (sv_socks sv) = nat (FanoutSize (sv_conf sv))"

lemma start_socks_length: "start_socks m sc f is = Inr ss \<Longrightarrow> length ss = length is"
  by (induction "is" arbitrary: ss) (auto split: option.splits sum.splits)

lemma service_ok_mono: "service_ok ids a sv \<Longrightarrow> b \<le> a \<Longrightarrow> service_ok ids b sv"
  by (auto simp: service_ok_def split: if_splits)

lemma run_configs_services:
  assumes "run_configs m ids a names t = Inr svs" and "set (manual_ids t) \<subseteq> set ids" and "distinct (manual_ids t)"
  shows "map sv_conf svs = t \<and> (\<forall>sv \<in> set svs. service_ok ids a sv) \<and> distinct (map sv_id svs) \<and>
         distinct (map SocketName t) \<and> set names \<inter> set (map SocketName t) = {}"
  using assms
proof (induction m ids a names t arbitrary: svs rule: run_configs.induct)
  case (2 m ids a names sc t)
  define f where "f = (if 0 < FanoutID sc then FanoutID sc else next_id ids a)"
  define a' where "a' = (if 0 < FanoutID sc then a else next_id ids a + 1)"
  have fa: "(if FanoutID sc > 0 then (FanoutID sc, a) else (let x = next_id ids a in (x, x + 1))) = (f, a')"
    by (simp add: f_def a'_def Let_def)
  obtain socks owner rest where r: "SocketName sc \<notin> set names"
      "start_socks m sc f [0..<nat (FanoutSize sc)] = Inr socks"
      "m_listen m (SocketName sc)" "setPermissions m sc = Inr owner"
      "run_configs m ids a' (SocketName sc # names) t = Inr rest"
      "svs = \<lparr>sv_conf = sc, sv_id = f, sv_socks = socks, sv_owner = owner\<rparr> # rest"
    using 2(2) by (auto simp: fa split: if_splits sum.splits)
  have sub: "set (manual_ids t) \<subseteq> set ids" "distinct (manual_ids t)"
    using 2(3,4) by (auto split: if_splits)
  note IH = 2(1) [OF r(1) fa [symmetric] refl r(2) _ r(4) r(5) sub]
  have IH': "map sv_conf rest = t" "\<forall>sv \<in> set rest. service_ok ids a' sv" "distinct (map sv_id rest)"
      "distinct (map SocketName t)" "set (SocketName sc # names) \<inter> set (map SocketName t) = {}"
    using IH r(3) by auto
  have "f \<noteq> sv_id sv" if sv: "sv \<in> set rest" for sv
  proof (cases "0 < FanoutID (sv_conf sv)")
    case True
    then have "FanoutID (sv_conf sv) \<in> set (manual_ids t)" "sv_id sv = FanoutID (sv_conf sv)"
      using sv IH'(1,2) by (auto simp: manual_ids_def service_ok_def)
    then show ?thesis
      using 2(3,4) sub next_id_free [of ids a] by (auto simp: f_def split: if_splits)
  next
    case False
    then have "a' \<le> sv_id sv" "sv_id sv \<notin> set ids"
      using sv IH'(2) by (auto simp: service_ok_def)
    then show ?thesis using 2(3) by (auto simp: f_def a'_def split: if_splits)
  qed
  then have "distinct (map sv_id svs)" using IH'(3) r(6) by auto
  moreover have "service_ok ids a sv" if "sv \<in> set rest" for sv
    using service_ok_mono [of ids a' sv a] IH'(2) that next_id_free [of ids a] by (auto simp: a'_def)
  moreover have "service_ok ids a (hd svs)"
    using r(6) start_socks_length [OF r(2)] next_id_free [of ids a] by (simp add: service_ok_def f_def)
  ultimately show ?case
    using IH' r(1,6) by auto
qed simp

text \<open>C30: when the daemon starts to serve, there is one service per configuration, in order; each has as many packet
  sockets as its fanout size says; the fanout ids are positive and pairwise different, and an id that the
  configuration asks for is the one used; and no two services share a socket name.\<close>

theorem services_distinct:
  assumes "RunTestimony m t = Inr svs"
  shows "map sv_conf svs = t \<and> distinct (map sv_id svs) \<and> distinct (map (SocketName \<circ> sv_conf) svs) \<and>
         (\<forall>sv \<in> set svs. 0 < sv_id sv \<and> length (sv_socks sv) = nat (FanoutSize (sv_conf sv)) \<and>
            (FanoutID (sv_conf sv) = 0 \<or> sv_id sv = FanoutID (sv_conf sv)))"
proof -
  obtain ids where ids: "collect_ids [] t = Inr ids" "run_configs m ids 1 [] t = Inr svs"
    using assms by (auto simp: RunTestimony_def split: sum.splits)
  have nonneg: "\<forall>sc \<in> set t. 0 \<le> FanoutID sc" "distinct (manual_ids t)"
    using collect_ids_iff [of "[]" t] ids(1) by auto
  have "set (manual_ids t) \<subseteq> set ids" using collect_ids_set [OF ids(1)] by simp
  note R = run_configs_services [OF ids(2) this nonneg(2)]
  then have conf: "map sv_conf svs = t" by blast
  then have "0 \<le> FanoutID (sv_conf sv)" if "sv \<in> set svs" for sv
    using nonneg(1) that by auto
  with R show ?thesis by (fastforce simp: service_ok_def split: if_splits)
qed

section \<open>A machine and a configuration\<close>

definition demo_machine :: machine where
  "demo_machine =
     \<lparr>m_tcpdump = (\<lambda>iface filt. Some ''1 6 0 0 65535''), m_bpf = True,
      m_kernel = (\<lambda>name i. demo_kernel), m_currentUid = Some ''0'',
      m_lookupUid = (\<lambda>u. Some ''1000''), m_getgrnam = (\<lambda>g. GrpFound 100),
      m_chown = (\<lambda>name u g. True), m_listen = (\<lambda>name. True)\<rparr>"

definition demo_config :: "string \<Rightarrow> int \<Rightarrow> string \<Rightarrow> SocketConfig" where
  "demo_config name i filt =
     \<lparr>SocketName = name, Interface = ''lo'', BlockSize = 4096, NumBlocks = 4, BlockTimeoutMillis = 10,
      FanoutType = 0, FanoutSize = 2, FanoutID = i, User = '''', Group = ''tcpdump'', Filter = filt\<rparr>"

definition demo_sock :: "SocketConfig \<Rightarrow> nat \<Rightarrow> sock_info" where
  "demo_sock sc i =
     \<lparr>si_num = i, si_conf = sc, si_fd = 5, si_ring = 4096, si_state = init_socket 4\<rparr>"

lemma demo_compile:
  "compileFilter (\<lambda>iface filt. Some ''1 6 0 0 65535'') iface filt =
     Some (Inr [\<lparr>sf_code = 6, sf_jt = 0, sf_jf = 0, sf_k = 65535\<rparr>])"
proof -
  have "scan_words ''1 6 0 0 65535'' = [''1'', ''6'', ''0'', ''0'', ''65535'']" by code_simp
  moreover have "scan_ints [''1'', ''6'', ''0'', ''0'', ''65535''] = Inr [1, 6, 0, 0, 65535]" by code_simp
  ultimately show ?thesis by (simp add: compileFilter_def wrap64_def)
qed

lemma demo_newSocket:
  "newSocket demo_machine (demo_config name i filt) f num = Some (Inr (demo_sock (demo_config name i filt) num))"
  by (simp add: newSocket_def demo_machine_def demo_config_def demo_sock_def demo_compile af_defs errno_after_def
      C_int_def)

lemma demo_permissions: "setPermissions demo_machine (demo_config name i filt) = Inr (0, 100)"
proof -
  have "Atoi ''0'' = Some 0" by code_simp
  then show ?thesis
    by (simp add: setPermissions_def uid_def gid_def demo_machine_def demo_config_def)
qed

definition demo_service :: "SocketConfig \<Rightarrow> int \<Rightarrow> service" where
  "demo_service sc f = \<lparr>sv_conf = sc, sv_id = f, sv_socks = [demo_sock sc 0, demo_sock sc 1], sv_owner = (0, 100)\<rparr>"

definition demo_configs :: "SocketConfig list" where
  "demo_configs = [demo_config ''/a'' 0 '''', demo_config ''/b'' 65537 ''ip'']"

lemma demo_fanout_size [simp]:
  "nat (FanoutSize (demo_config name i filt)) = 2" "FanoutID (demo_config name i filt) = i"
  "SocketName (demo_config name i filt) = name"
  by (simp_all add: demo_config_def)

lemma demo_run:
  "RunTestimony demo_machine demo_configs =
     Inr [demo_service (demo_config ''/a'' 0 '''') 1, demo_service (demo_config ''/b'' 65537 ''ip'') 65537]"
proof -
  have "m_listen demo_machine name" for name by (simp add: demo_machine_def)
  then show ?thesis
    by (simp add: RunTestimony_def demo_configs_def demo_service_def next_id.simps demo_newSocket demo_permissions
        upt_rec numeral_2_eq_2)
qed

theorem services_distinct_witness:
  "distinct (map sv_id [demo_service (demo_config ''/a'' 0 '''') 1,
                        demo_service (demo_config ''/b'' 65537 ''ip'') 65537])"
  using services_distinct [OF demo_run] by blast

section \<open>Which configurations are accepted\<close>

definition machine_grants :: "machine \<Rightarrow> SocketConfig \<Rightarrow> bool" where
  "machine_grants m sc \<longleftrightarrow>
     (\<forall>f num. \<exists>s. newSocket m sc f num = Some (Inr s)) \<and> m_listen m (SocketName sc) \<and>
     (\<exists>owner. setPermissions m sc = Inr owner)"

lemma start_socks_granted:
  "machine_grants m sc \<Longrightarrow> \<exists>ss. start_socks m sc f is = Inr ss"
proof (induction "is")
  case (Cons i "is")
  then obtain s ss where "newSocket m sc f i = Some (Inr s)" "start_socks m sc f is = Inr ss"
    unfolding machine_grants_def by blast
  then show ?case by simp
qed simp

lemma run_configs_granted:
  assumes "\<forall>sc \<in> set t. machine_grants m sc" and "distinct (map SocketName t)"
    and "set names \<inter> set (map SocketName t) = {}"
  shows "\<exists>svs. run_configs m ids a names t = Inr svs"
  using assms
proof (induction t arbitrary: a names)
  case (Cons sc t)
  define f where "f = (if 0 < FanoutID sc then FanoutID sc else next_id ids a)"
  define a' where "a' = (if 0 < FanoutID sc then a else next_id ids a + 1)"
  have fa: "(if FanoutID sc > 0 then (FanoutID sc, a) else (let x = next_id ids a in (x, x + 1))) = (f, a')"
    by (simp add: f_def a'_def Let_def)
  obtain ss where ss: "start_socks m sc f [0..<nat (FanoutSize sc)] = Inr ss"
    using start_socks_granted [of m sc f] Cons.prems(1) by auto
  obtain owner where owner: "setPermissions m sc = Inr owner" "m_listen m (SocketName sc)"
    using Cons.prems(1) by (auto simp: machine_grants_def)
  obtain rest where "run_configs m ids a' (SocketName sc # names) t = Inr rest"
    using Cons.IH [of "SocketName sc # names" a'] Cons.prems by auto
  then show ?case using Cons.prems(3) by (simp add: fa ss owner)
qed simp

text \<open>C32: on a machine that grants every resource, the daemon accepts exactly the configurations in which no fanout id is
  negative, no two configurations ask for the same id, and no two have the same socket name.\<close>

theorem RunTestimony_accepts_iff:
  assumes "\<forall>sc \<in> set t. machine_grants m sc"
  shows "(\<exists>svs. RunTestimony m t = Inr svs) \<longleftrightarrow>
           (\<forall>sc \<in> set t. 0 \<le> FanoutID sc) \<and> distinct (manual_ids t) \<and> distinct (map SocketName t)"
proof (cases "collect_ids [] t")
  case (Inl e)
  then show ?thesis using collect_ids_iff [of "[]" t] by (auto simp: RunTestimony_def)
next
  case (Inr ids)
  then have ok: "\<forall>sc \<in> set t. 0 \<le> FanoutID sc" "distinct (manual_ids t)"
    using collect_ids_iff [of "[]" t] by auto
  have sub: "set (manual_ids t) \<subseteq> set ids" using collect_ids_set [OF Inr] by simp
  have "distinct (map SocketName t)" if "run_configs m ids 1 [] t = Inr svs" for svs
    using run_configs_services [OF that sub ok(2)] by blast
  then show ?thesis
    using ok run_configs_granted [OF assms, of "[]" ids 1] Inr by (auto simp: RunTestimony_def)
qed

lemma demo_grants: "machine_grants demo_machine (demo_config name i filt)"
  by (simp add: machine_grants_def demo_newSocket demo_permissions) (simp add: demo_machine_def)

theorem RunTestimony_accepts_iff_witness:
  "\<not> (\<exists>svs. RunTestimony demo_machine [demo_config ''/a'' 0 '''', demo_config ''/a'' 3 ''''] = Inr svs)"
  using RunTestimony_accepts_iff [of "[demo_config ''/a'' 0 '''', demo_config ''/a'' 3 '''']" demo_machine]
  by (simp add: demo_grants)

section \<open>Fanout groups in the kernel\<close>

text \<open>The 16 bits by which the kernel tells fanout groups apart.\<close>

definition fanout_group :: "int \<Rightarrow> i32" where
  "fanout_group f = C_int f AND 0xFFFF"

lemma fanout_group_small: "0 \<le> f \<Longrightarrow> f < 2 ^ 16 \<Longrightarrow> uint (fanout_group f) = f"
proof -
  assume f: "0 \<le> f" "f < 2 ^ 16"
  have u: "uint (C_int f) = f"
    using f by (simp add: C_int_def unsigned_of_int take_bit_int_eq_self)
  have "fanout_group f = take_bit 16 (C_int f)"
    by (simp add: fanout_group_def take_bit_eq_mask mask_eq_exp_minus_1)
  then show ?thesis
    using f u by (simp add: unsigned_take_bit_eq take_bit_int_eq_self)
qed

text \<open>Services whose fanout ids fit into 16 bits are in different fanout groups of the kernel, so none of them gets
  another one's packets.\<close>

theorem fanout_groups_distinct:
  assumes "RunTestimony m t = Inr svs" and "\<forall>sv \<in> set svs. sv_id sv < 2 ^ 16"
  shows "distinct (map (fanout_group \<circ> sv_id) svs)"
proof -
  obtain ids where ids: "collect_ids [] t = Inr ids" "run_configs m ids 1 [] t = Inr svs"
    using assms(1) by (auto simp: RunTestimony_def split: sum.splits)
  have dist: "distinct (manual_ids t)" using collect_ids_iff [of "[]" t] ids(1) by auto
  have "set (manual_ids t) \<subseteq> set ids" using collect_ids_set [OF ids(1)] by simp
  note R = run_configs_services [OF ids(2) this dist]
  have "0 < sv_id sv" if "sv \<in> set svs" for sv
    using R that by (auto simp: service_ok_def split: if_splits)
  then have "inj_on fanout_group (sv_id ` set svs)"
    using assms(2) fanout_group_small by (intro inj_onI) (metis (no_types, lifting) imageE less_imp_le)
  with R show ?thesis
    by (simp add: distinct_map comp_inj_on)
qed


section \<open>Filters and owners\<close>



text \<open>C33: a socket file is served only after it was given to the configured user and group: to the user's numeric id (of
  the daemon's own user when none is configured) and to the group's id (group 0 when none is configured).  An
  unknown user or group, or a failing \<^verbatim>\<open>chown\<close>, stops the daemon.\<close>

theorem services_owned:
  assumes "RunTestimony m t = Inr svs" and "sv \<in> set svs"
  shows "\<exists>u name.
           (if User (sv_conf sv) = '''' then m_currentUid m else m_lookupUid m (User (sv_conf sv))) = Some name \<and>
           Atoi name = Some u \<and> fst (sv_owner sv) = u \<and>
           (if Group (sv_conf sv) = '''' then snd (sv_owner sv) = 0
            else \<exists>g. m_getgrnam m (Group (sv_conf sv)) = GrpFound g \<and> snd (sv_owner sv) = uint g) \<and>
           m_chown m (SocketName (sv_conf sv)) u (snd (sv_owner sv))"
proof -
  have "setPermissions m (sv_conf sv) = Inr (sv_owner sv)"
    if "run_configs m ids a names t = Inr svs" for ids a names
    using that assms(2)
    by (induction t arbitrary: a names svs) (auto simp: Let_def split: if_splits sum.splits)
  then have "setPermissions m (sv_conf sv) = Inr (sv_owner sv)"
    using assms(1) by (auto simp: RunTestimony_def split: sum.splits)
  then show ?thesis
    by (cases "sv_owner sv")
       (auto simp: setPermissions_def uid_def gid_def split: sum.splits option.splits if_splits grp_res.splits)
qed

theorem services_owned_witness:
  "snd (sv_owner (demo_service (demo_config ''/a'' 0 '''') 1)) = uint (100 :: u32)"
  using services_owned [OF demo_run, of "demo_service (demo_config ''/a'' 0 '''') 1"]
  by (simp add: demo_service_def demo_config_def demo_machine_def)

definition demo_small :: "SocketConfig list" where
  "demo_small = [demo_config ''/a'' 0 '''', demo_config ''/b'' 7 ''ip'']"

lemma demo_small_run:
  "RunTestimony demo_machine demo_small =
     Inr [demo_service (demo_config ''/a'' 0 '''') 1, demo_service (demo_config ''/b'' 7 ''ip'') 7]"
proof -
  have "m_listen demo_machine name" for name by (simp add: demo_machine_def)
  then show ?thesis
    by (simp add: RunTestimony_def demo_small_def demo_service_def next_id.simps demo_newSocket demo_permissions
        upt_rec numeral_2_eq_2)
qed

theorem fanout_groups_distinct_witness: "fanout_group 1 \<noteq> fanout_group 7"
  using fanout_groups_distinct [OF demo_small_run] by (simp add: demo_service_def)

end
