(* ===== verification/Handshake.thy ===== *)
theory Handshake
  imports Daemon
begin

text \<open>
  The server's side of a new connection (\<^verbatim>\<open>handle\<close> of \<^verbatim>\<open>daemon.go\<close>): version byte, the sizes as TLVs, the
  request for a fanout index, the client's answer, and the packet socket's descriptor in return.
\<close>

section \<open>The code\<close>

definition protocolVersion :: byte where
  "protocolVersion = 2"

text \<open>How a call ends: the connection is closed, by the deferred function or because a panic ends the process, or
  it is handed to the socket with the given index.\<close>

datatype handle_out = HandleClosed uconn | HandlePanic | HandleHandoff nat uconn

text \<open>The four messages up to the request for the fanout index; the first failing send ends the chain.\<close>

definition send_hello :: "nat \<Rightarrow> SocketConfig \<Rightarrow> uconn \<Rightarrow> send_err option \<times> uconn" where
  "send_hello nsocks conf c =
     (case SendUint32 Write c TypeFanoutSize (of_nat nsocks) of
        (Some e, c) \<Rightarrow> (Some e, c)
      | (None, c) \<Rightarrow>
          (case SendUint32 Write c TypeBlockSize (word_of_int (BlockSize conf)) of
             (Some e, c) \<Rightarrow> (Some e, c)
           | (None, c) \<Rightarrow>
               (case SendUint32 Write c TypeNumBlocks (word_of_int (NumBlocks conf)) of
                  (Some e, c) \<Rightarrow> (Some e, c)
                | (None, c) \<Rightarrow> SendType Write c TypeWaitingForFanoutIndex)))"

text \<open>The answer of the client: a message of type \<open>TypeFanoutIndex\<close> and length four, and an index in range.  The
  eight bytes have been read in full, so both halves can be decoded.\<close>

definition fanout_choice :: "nat \<Rightarrow> byte list \<Rightarrow> nat option" where
  "fanout_choice nsocks fanoutMsg =
     (case (Uint32 (take 4 fanoutMsg), Uint32 (drop 4 fanoutMsg)) of
        (Some valA, Some valB) \<Rightarrow>
          if valA \<noteq> ToTL TypeFanoutIndex 4 then None
          else (let idx = uint valB in
                if idx < 0 \<or> idx \<ge> int nsocks then None else Some (nat idx))
      | _ \<Rightarrow> None)"

definition handle :: "sock_info list \<Rightarrow> uconn \<Rightarrow> handle_out" where
  "handle socks c =
     (case Write c [protocolVersion] of
        (Some e, c) \<Rightarrow> HandleClosed (Close c)
      | (None, c) \<Rightarrow>
          (case socks of
             [] \<Rightarrow> HandlePanic
           | s0 # _ \<Rightarrow>
               (case send_hello (length socks) (si_conf s0) c of
                  (Some e, c) \<Rightarrow> HandleClosed (Close c)
                | (None, c) \<Rightarrow>
                    (case ReadFull c 8 of
                       (Inl e, c) \<Rightarrow> HandleClosed (Close c)
                     | (Inr fanoutMsg, c) \<Rightarrow>
                         (case fanout_choice (length socks) fanoutMsg of
                            None \<Rightarrow> HandleClosed (Close c)
                          | Some idx \<Rightarrow>
                              (case WriteMsgUnix c [0] (si_fd (socks ! idx)) of
                                 (Some e, c) \<Rightarrow> HandleClosed (Close c)
                               | (None, c) \<Rightarrow> HandleHandoff idx c))))))"

section \<open>What is written\<close>

definition hello_bytes :: "nat \<Rightarrow> SocketConfig \<Rightarrow> byte list" where
  "hello_bytes nsocks conf =
     PutUint32 (ToTL TypeFanoutSize 4) @ PutUint32 (of_nat nsocks) @
     PutUint32 (ToTL TypeBlockSize 4) @ PutUint32 (word_of_int (BlockSize conf)) @
     PutUint32 (ToTL TypeNumBlocks 4) @ PutUint32 (word_of_int (NumBlocks conf)) @
     PutUint32 (ToTL TypeWaitingForFanoutIndex 0)"

definition choice_bytes :: "nat \<Rightarrow> byte list" where
  "choice_bytes idx = PutUint32 (ToTL TypeFanoutIndex 4) @ PutUint32 (of_nat idx)"

lemma sendable_types:
  "TypeOf TypeFanoutSize = TypeServerToClient" "TypeOf TypeBlockSize = TypeServerToClient"
  "TypeOf TypeNumBlocks = TypeServerToClient" "TypeOf TypeWaitingForFanoutIndex = TypeServerToClient"
  "TypeOf TypeFanoutIndex = TypeClientToServer"
  by (simp_all add: TypeOf_def type_consts)

lemma SendTLV_open:
  assumes "\<not> uclosed c" and "wroom c = None" and "TypeOf t \<in> {TypeServerToClient, TypeClientToServer}"
    and "length val \<le> 0xFFFF"
  shows "SendTLV Write c t val =
           (None, c\<lparr>wbytes := wbytes c @ PutUint32 (ToTL t (int (length val))) @ val\<rparr>)"
  using assms by (auto simp: SendTLV_def)

lemma SendUint32_open:
  assumes "\<not> uclosed c" and "wroom c = None" and "TypeOf t \<in> {TypeServerToClient, TypeClientToServer}"
  shows "SendUint32 Write c t v = (None, c\<lparr>wbytes := wbytes c @ PutUint32 (ToTL t 4) @ PutUint32 v\<rparr>)"
  using SendTLV_open [OF assms, of "PutUint32 v"] by (simp add: SendUint32_def)

lemma send_hello_open:
  assumes "\<not> uclosed c" and "wroom c = None"
  shows "send_hello nsocks conf c = (None, c\<lparr>wbytes := wbytes c @ hello_bytes nsocks conf\<rparr>)"
  using assms
  by (simp add: send_hello_def SendUint32_open SendType_def SendTLV_open sendable_types hello_bytes_def)

lemma fanout_choice_bytes:
  assumes "idx < nsocks" and "nsocks < 2 ^ 32"
  shows "fanout_choice nsocks (choice_bytes idx) = Some idx"
proof -
  have "uint (of_nat idx :: u32) = int idx"
    using assms by (simp add: unsigned_of_nat take_bit_nat_eq_self)
  then show ?thesis
    using assms(1) by (simp add: fanout_choice_def choice_bytes_def)
qed

lemma fanout_choice_Some:
  assumes "fanout_choice nsocks msg = Some idx"
  shows "idx < nsocks"
  using assms by (auto simp: fanout_choice_def Let_def Suc_le_eq split: option.splits if_splits dest!: unat_less_if_uint)

section \<open>Which connections get a descriptor\<close>

lemma Write_frame: "Write c bs = (r, c') \<Longrightarrow> wfds c' = wfds c \<and> uclosed c' = uclosed c \<and> (uclosed c \<longrightarrow> r \<noteq> None)"
  by (auto simp: Write_def split: if_splits option.splits)

lemma SendTLV_frame: "SendTLV Write c t val = (r, c') \<Longrightarrow> wfds c' = wfds c \<and> uclosed c' = uclosed c"
  by (auto simp: SendTLV_def split: if_splits prod.splits option.splits dest: Write_frame)

lemma send_hello_frame: "send_hello n conf c = (r, c') \<Longrightarrow> wfds c' = wfds c \<and> uclosed c' = uclosed c"
  by (auto simp: send_hello_def SendUint32_def SendType_def split: prod.splits option.splits dest!: SendTLV_frame)

lemma ReadFull_frame: "ReadFull c n = (r, c') \<Longrightarrow> wfds c' = wfds c \<and> uclosed c' = uclosed c"
  using ReadFull_fields [of c n r c'] by (metis uconn.select_convs(4,6) uconn.surjective uconn.update_convs(1))

lemmas handle_frame = Write_frame send_hello_frame ReadFull_frame


lemma handle_ok:
  assumes "\<not> uclosed c" and "wroom c = None" and "pending c = choice_bytes idx @ rest"
    and "idx < length socks" and "length socks < 2 ^ 32"
  shows "\<exists>c'. handle socks c = HandleHandoff idx c' \<and>
           wbytes c' = wbytes c @ [2] @ hello_bytes (length socks) (si_conf (hd socks)) @ [0] \<and>
           wfds c' = wfds c @ [si_fd (socks ! idx)] \<and> pending c' = rest \<and> \<not> uclosed c'"
proof -
  obtain s0 ss where socks: "socks = s0 # ss" using assms(4) by (cases socks) auto
  define c2 where "c2 = c\<lparr>wbytes := (wbytes c @ [2]) @ hello_bytes (length socks) (si_conf s0)\<rparr>"
  have hello: "send_hello (length socks) (si_conf s0) (c\<lparr>wbytes := wbytes c @ [2]\<rparr>) = (None, c2)"
    using assms(1,2) by (simp add: send_hello_open c2_def)
  have "pending c2 = choice_bytes idx @ rest" "length (choice_bytes idx) = 8"
    using assms(3) by (simp_all add: c2_def pending_def choice_bytes_def)
  then obtain c3 where rd: "ReadFull c2 8 = (Inr (choice_bytes idx), c3)" "pending c3 = rest" "\<not> uclosed c3"
    using uc.rd_prefix [of c2 "choice_bytes idx" rest 8] assms(1) by (auto simp: c2_def)
  have c3: "c3 = c2\<lparr>rchunks := rchunks c3\<rparr>" by (rule ReadFull_fields [OF rd(1)])
  then have c3f: "wbytes c3 = wbytes c2" "wfds c3 = wfds c" "wroom c3 = None"
    using assms(2) by (simp_all add: c2_def) (metis uconn.select_convs(3-5) uconn.surjective uconn.update_convs)+
  show ?thesis
    using assms(1,2) rd c3f hello fanout_choice_bytes [OF assms(4,5)] socks
    by (simp add: handle_def protocolVersion_def WriteMsgUnix_def pending_def c2_def)
qed


text \<open>A well-behaved client is served: on a working connection on which a valid fanout index arrives, \<^verbatim>\<open>handle\<close> sends the
  protocol version, the number of sockets, the block size, the number of blocks and the request for the index,
  passes the chosen socket's descriptor with one zero byte, and hands the connection over with all
  further input of the client unread.\<close>

theorem handle_serves:
  assumes "\<not> uclosed c" and "wroom c = None" and "pending c = choice_bytes idx @ rest"
    and "idx < length socks" and "length socks < 2 ^ 32"
  shows "\<exists>c'. handle socks c = HandleHandoff idx c' \<and>
           wbytes c' = wbytes c @ [2] @ hello_bytes (length socks) (si_conf (hd socks)) @ [0] \<and>
           wfds c' = wfds c @ [si_fd (socks ! idx)] \<and> pending c' = rest \<and> \<not> uclosed c'"
  using assms by (rule handle_ok)

definition demo_socks :: "sock_info list" where
  "demo_socks = [demo_sock (demo_config ''/a'' 0 '''') 0, demo_sock (demo_config ''/a'' 0 '''') 1]"

text \<open>A client that asks for socket 1, in two pieces, and returns block 3 later.\<close>

definition demo_asking :: uconn where
  "demo_asking =
     \<lparr>rchunks = [take 5 (choice_bytes 1), drop 5 (choice_bytes 1) @ [0, 0, 0, 3]], rfin = EOF, wbytes = [],
      wfds = [], wroom = None, uclosed = False\<rparr>"

lemma demo_asking_pending: "pending demo_asking = choice_bytes 1 @ [0, 0, 0, 3]"
  by (simp add: demo_asking_def pending_def flip: append_assoc)

theorem handle_serves_witness:
  "\<exists>c'. handle demo_socks demo_asking = HandleHandoff 1 c' \<and> wfds c' = [5] \<and> pending c' = [0, 0, 0, 3]"
  using handle_serves [OF _ _ demo_asking_pending, of demo_socks]
  by (auto simp: demo_asking_def demo_socks_def demo_sock_def)


section \<open>A service without sockets\<close>

text \<open>A negative fanout size is not refused: the service starts without any packet socket, and the first client that
  connects makes the daemon panic.\<close>

lemma negative_fanout_size_panics:
  assumes "FanoutSize sc < 0" and "FanoutID sc = 0" and "m_listen m (SocketName sc)"
    and "setPermissions m sc = Inr owner" and "\<not> uclosed c" and "wroom c = None"
  shows "\<exists>sv. RunTestimony m [default_fanout sc] = Inr [sv] \<and> handle (sv_socks sv) c = HandlePanic"
  using assms
  by (simp add: RunTestimony_def default_fanout_def next_id.simps handle_def protocolVersion_def)

end
