(* ===== verification/Gopath.thy ===== *)
theory Gopath
  imports Main
begin

text \<open>
  Path names as Go's \<^verbatim>\<open>path/filepath\<close> treats them: \<^verbatim>\<open>Clean\<close> and \<^verbatim>\<open>Join\<close> of two elements, on slash-separated paths.
\<close>

text \<open>\<^verbatim>\<open>filepath.Clean\<close> works on the elements between slashes; \<open>out\<close> is the reversed list of elements kept.\<close>

fun split_slash :: "string \<Rightarrow> string list" where
  "split_slash [] = [[]]"
| "split_slash (ch # cs) =
     (case split_slash cs of
        [] \<Rightarrow> [[ch]]
      | w # ws \<Rightarrow> if ch = CHR ''/'' then [] # w # ws else (ch # w) # ws)"

fun clean_elems :: "bool \<Rightarrow> string list \<Rightarrow> string list \<Rightarrow> string list" where
  "clean_elems rooted out [] = rev out"
| "clean_elems rooted out (w # ws) =
     (if w = [] \<or> w = ''.'' then clean_elems rooted out ws
      else if w = ''..'' then
        (case out of
           [] \<Rightarrow> clean_elems rooted (if rooted then [] else [w]) ws
         | v # vs \<Rightarrow> if v = ''..'' then clean_elems rooted (w # out) ws else clean_elems rooted vs ws)
      else clean_elems rooted (w # out) ws)"

fun join_slash :: "string list \<Rightarrow> string" where
  "join_slash [] = []"
| "join_slash [w] = w"
| "join_slash (w # ws) = w @ ''/'' @ join_slash ws"

definition path_clean :: "string \<Rightarrow> string" where
  "path_clean p =
     (let rooted = (p \<noteq> [] \<and> hd p = CHR ''/'');
          q = join_slash (clean_elems rooted [] (split_slash p))
      in if rooted then CHR ''/'' # q else if q = [] then ''.'' else q)"

text \<open>\<^verbatim>\<open>filepath.Join\<close> of two elements, the second not empty.\<close>

definition path_join :: "string \<Rightarrow> string \<Rightarrow> string" where
  "path_join a b = (if a = [] then path_clean b else path_clean (a @ ''/'' @ b))"

end
