(* ===== verification/Diagnostics.thy ===== *)
theory Diagnostics
  imports Handshake Gopath
begin

text \<open>
  What the daemon reports about itself: the names of sockets and blocks in messages (the \<^verbatim>\<open>String\<close> methods of
  \<^verbatim>\<open>socket.go\<close>), verbose logging (\<^verbatim>\<open>vlog.go\<close>), the packet statistics of \<^verbatim>\<open>reportStats\<close>, and the accept loop
  \<^verbatim>\<open>Testimony.run\<close> with its fatal error.
\<close>

section \<open>Names\<close>

definition socket_String :: "string \<Rightarrow> nat \<Rightarrow> string" where
  "socket_String socketName num = ''[S:'' @ socketName @ '':'' @ dec_digits num @ '']''"

definition conn_String :: "string \<Rightarrow> string \<Rightarrow> string" where
  "conn_String s remoteAddr = ''[C:'' @ s @ '':'' @ remoteAddr @ '']''"

definition block_String :: "string \<Rightarrow> nat \<Rightarrow> string" where
  "block_String s index = ''[B:'' @ s @ '':'' @ dec_digits index @ '']''"

lemma dec_digits_inj:
  assumes "dec_digits m = dec_digits n"
  shows "m = n"
proof -
  have "Some (int m) = Some (int n)" using digits_val_dec [of m] digits_val_dec [of n] unfolding assms by argo
  then show ?thesis by simp
qed

lemma colon_no_digit: "\<not> is_digit CHR '':''"
  by (simp add: is_digit_def digit_val_def)

lemma colon_not_digit: "CHR '':'' \<notin> set (dec_digits n)"
  using dec_digits_digits colon_no_digit by blast

lemma split_at_last_colon:
  assumes "xs @ CHR '':'' # ds = ys @ CHR '':'' # es" and "CHR '':'' \<notin> set ds" and "CHR '':'' \<notin> set es"
  shows "xs = ys \<and> ds = es"
proof -
  have "rev ds @ CHR '':'' # rev xs = rev es @ CHR '':'' # rev ys"
    using arg_cong [OF assms(1), of rev] by simp
  then have "takeWhile (\<lambda>ch. ch \<noteq> CHR '':'') (rev ds @ CHR '':'' # rev xs) =
             takeWhile (\<lambda>ch. ch \<noteq> CHR '':'') (rev es @ CHR '':'' # rev ys)"
    by simp
  moreover have "takeWhile (\<lambda>ch. ch \<noteq> CHR '':'') (rev zs @ CHR '':'' # ws) = rev zs" if "CHR '':'' \<notin> set zs" for zs ws
    using that by (subst takeWhile_append2) auto
  ultimately have "rev ds = rev es" using assms(2,3) by simp
  then show ?thesis using assms(1) by simp
qed

text \<open>The names are unique, as the comments of the code claim: a socket's name determines the file name and the fanout index,
  a block's name the socket and the block.\<close>

lemma bracket_inj:
  assumes "p @ n @ '':'' @ dec_digits i @ '']'' = p @ m @ '':'' @ dec_digits j @ '']''"
  shows "n = m \<and> i = j"
proof -
  have "(n @ CHR '':'' # dec_digits i) @ '']'' = (m @ CHR '':'' # dec_digits j) @ '']''"
    using assms unfolding same_append_eq by (simp only: append_assoc append_Cons append_Nil)
  then have "n @ CHR '':'' # dec_digits i = m @ CHR '':'' # dec_digits j" unfolding append_same_eq .
  from split_at_last_colon [OF this colon_not_digit colon_not_digit] show ?thesis
    using dec_digits_inj by blast
qed

lemma socket_String_inj: "socket_String n i = socket_String m j \<Longrightarrow> n = m \<and> i = j"
  unfolding socket_String_def by (rule bracket_inj)

lemma block_String_inj: "block_String s i = block_String t j \<Longrightarrow> s = t \<and> i = j"
  unfolding block_String_def by (rule bracket_inj)

section \<open>Verbose logging\<close>

text \<open>A frame of the call stack is a file and a line.  \<open>stack\<close> lists the frames of the callers of \<^verbatim>\<open>VUp\<close>, innermost first;
  \<^verbatim>\<open>runtime.Caller\<close> counts from \<^verbatim>\<open>VUp\<close> itself.\<close>

type_synonym frame = "string \<times> int"

datatype 'a log_arg = ArgFile string | ArgLine int | ArgVal 'a

definition Caller :: "frame \<Rightarrow> frame list \<Rightarrow> nat \<Rightarrow> frame" where
  "Caller self stack skip = (let st = self # stack in if skip < length st then st ! skip else ([], 0))"

definition path_base :: "string \<Rightarrow> string" where
  "path_base p =
     (if p = [] then ''.''
      else let q = rev (dropWhile (\<lambda>ch. ch = CHR ''/'') (rev p))
           in if q = [] then ''/'' else rev (takeWhile (\<lambda>ch. ch \<noteq> CHR ''/'') (rev q)))"

text \<open>The message that is printed, if any: a format and its arguments.\<close>

definition VUp ::
    "int \<Rightarrow> frame \<Rightarrow> frame list \<Rightarrow> int \<Rightarrow> nat \<Rightarrow> string \<Rightarrow> 'a log_arg list \<Rightarrow> (string \<times> 'a log_arg list) option" where
  "VUp verbose self stack level caller format args =
     (if level \<le> verbose then
        (case Caller self stack (caller + 1) of
           (file, line) \<Rightarrow>
             Some (''%s:%d -'' @ [CHR 0x09] @ format, [ArgFile (path_base file), ArgLine line] @ args))
      else None)"

definition V ::
    "int \<Rightarrow> frame \<Rightarrow> frame \<Rightarrow> frame list \<Rightarrow> int \<Rightarrow> string \<Rightarrow> 'a log_arg list \<Rightarrow> (string \<times> 'a log_arg list) option" where
  "V verbose vup self stack level format args = VUp verbose vup (self # stack) level 1 format args"

text \<open>A message of \<^verbatim>\<open>V\<close> carries the file and line of the code that called \<^verbatim>\<open>V\<close>, and is printed exactly when its level is
  enabled.\<close>

lemma V_names_caller:
  "V verbose vup self ((file, line) # stack) level format args =
     (if level \<le> verbose
      then Some (''%s:%d -'' @ [CHR 0x09] @ format, [ArgFile (path_base file), ArgLine line] @ args) else None)"
  by (simp add: V_def VUp_def Caller_def)

section \<open>Statistics\<close>

record tpacket_stats =
  tp_packets :: u32
  tp_drops :: u32

text \<open>\<^verbatim>\<open>stats\<close>: the values of \<^verbatim>\<open>getsockopt\<close>, or an error when \<^verbatim>\<open>errno\<close> is not zero.\<close>

definition stats :: "int \<Rightarrow> tpacket_stats \<Rightarrow> int + tpacket_stats" where
  "stats errno out = (if errno \<noteq> 0 then Inl errno else Inr out)"

type_synonym u64 = "64 word"

text \<open>A rate in the log line, as the operands of its floating point division.  The per cent values are the quotient times 100.\<close>

record rate =
  r_num :: nat
  r_den :: nat

record stat_line =
  l_packets :: u32
  l_pps :: rate
  l_drops :: u32
  l_dps :: rate
  l_dropped :: rate
  l_totalPackets :: u64
  l_totalDrops :: u64
  l_totalDropped :: rate

datatype stat_log = StatErr int | StatLine stat_line

text \<open>The sums under the fraction bars are taken before the conversion to \<^verbatim>\<open>float64\<close>: of the two 32-bit counters of the reading, and of the
  two 64-bit totals.\<close>

definition line_of :: "tpacket_stats \<Rightarrow> u64 \<Rightarrow> u64 \<Rightarrow> stat_line" where
  "line_of st totalPackets totalDrops =
     \<lparr>l_packets = tp_packets st, l_pps = \<lparr>r_num = unat (tp_packets st), r_den = 60\<rparr>,
      l_drops = tp_drops st, l_dps = \<lparr>r_num = unat (tp_drops st), r_den = 60\<rparr>,
      l_dropped = \<lparr>r_num = unat (tp_drops st), r_den = unat (tp_drops st + tp_packets st)\<rparr>,
      l_totalPackets = totalPackets, l_totalDrops = totalDrops,
      l_totalDropped = \<lparr>r_num = unat totalDrops, r_den = unat (totalPackets + totalDrops)\<rparr>\<rparr>"

text \<open>One tick of \<^verbatim>\<open>reportStats\<close>: what is logged and the totals; a failed reading changes nothing.\<close>

definition report_tick :: "int + tpacket_stats \<Rightarrow> u64 \<times> u64 \<Rightarrow> stat_log \<times> u64 \<times> u64" where
  "report_tick reading tot =
     (case reading of
        Inl e \<Rightarrow> (StatErr e, tot)
      | Inr st \<Rightarrow>
          (let totalPackets = fst tot + ucast (tp_packets st); totalDrops = snd tot + ucast (tp_drops st)
           in (StatLine (line_of st totalPackets totalDrops), totalPackets, totalDrops)))"

fun report_loop :: "(int + tpacket_stats) list \<Rightarrow> u64 \<times> u64 \<Rightarrow> stat_log list \<times> u64 \<times> u64" where
  "report_loop [] tot = ([], tot)"
| "report_loop (r # rs) tot =
     (case report_tick r tot of (l, tot) \<Rightarrow> (case report_loop rs tot of (ls, tot) \<Rightarrow> (l # ls, tot)))"

text \<open>The first reading is ignored: it clears the kernel's counters.\<close>

definition reportStats :: "(int + tpacket_stats) list \<Rightarrow> stat_log list \<times> u64 \<times> u64" where
  "reportStats readings = report_loop (tl readings) (0, 0)"

fun good_readings :: "(int + tpacket_stats) list \<Rightarrow> tpacket_stats list" where
  "good_readings [] = []"
| "good_readings (Inl e # rs) = good_readings rs"
| "good_readings (Inr st # rs) = st # good_readings rs"

lemma report_loop_totals:
  "snd (report_loop rs (p, d)) =
     (p + (\<Sum>st\<leftarrow>good_readings rs. ucast (tp_packets st)), d + (\<Sum>st\<leftarrow>good_readings rs. ucast (tp_drops st)))"
  by (induction rs arbitrary: p d rule: good_readings.induct)
     (simp_all add: report_tick_def Let_def add.assoc case_prod_beta)

lemma sum_ucast: "(\<Sum>x\<leftarrow>xs. ucast (f x :: u32)) = (of_nat (\<Sum>x\<leftarrow>xs. unat (f x)) :: u64)"
  by (induction xs) (simp_all add: unsigned_ucast_eq)

text \<open>One line is logged per reading after the first, and the totals are the sums, modulo \<open>2 ^ 64\<close>, of the successful readings after the
  first.\<close>

lemma reportStats_totals:
  "length (fst (reportStats (first # rs))) = length rs \<and>
   snd (reportStats (first # rs)) =
     (of_nat (\<Sum>st\<leftarrow>good_readings rs. unat (tp_packets st)), of_nat (\<Sum>st\<leftarrow>good_readings rs. unat (tp_drops st)))"
proof -
  have "length (fst (report_loop rs tot)) = length rs" for tot
    by (induction rs arbitrary: tot) (simp_all add: case_prod_beta)
  then show ?thesis by (simp add: reportStats_def report_loop_totals sum_ucast)
qed

text \<open>A logged share of dropped packets is at most 100 per cent, unless the sum of the two counters of the reading does not fit into 32 bits.\<close>

lemma dropped_share:
  assumes "unat (tp_drops st) + unat (tp_packets st) < 2 ^ 32"
  shows "r_num (l_dropped (line_of st p d)) \<le> r_den (l_dropped (line_of st p d))"
proof -
  have "tp_drops st + tp_packets st = of_nat (unat (tp_drops st) + unat (tp_packets st))" by simp
  then have "unat (tp_drops st + tp_packets st) = unat (tp_drops st) + unat (tp_packets st)"
    using assms by (simp only: unsigned_of_nat) (simp add: take_bit_nat_eq_self)
  then show ?thesis by (simp add: line_of_def)
qed

theorem dropped_share_wraps:
  "l_dropped (line_of \<lparr>tp_packets = 0xFFFFFFFF, tp_drops = 2\<rparr> p d) = \<lparr>r_num = 2, r_den = 1\<rparr>"
  by (simp add: line_of_def)

section \<open>Waiting for the kernel\<close>

text \<open>\<^verbatim>\<open>WaitForBlocks\<close>: the result of \<^verbatim>\<open>select\<close> and \<^verbatim>\<open>errno\<close>.\<close>

definition WaitForBlocks :: "int \<Rightarrow> int \<Rightarrow> int" where
  "WaitForBlocks selected errno = (if selected < 0 then errno else 0)"

text \<open>The step of \<^verbatim>\<open>getNewBlocks\<close> after the call: go on, or the panic for any error, an interrupted call included.\<close>

definition wait_event :: "int \<Rightarrow> event" where
  "wait_event err = (if err \<noteq> 0 then EGetFail (nat err) else EGet)"

section \<open>The accept loop\<close>

text \<open>Connections as they are accepted, \<open>None\<close> for a failing \<^verbatim>\<open>accept\<close>: the outcomes of their handlers up to the fatal
  error, and whether there was one.\<close>

fun Testimony_run :: "sock_info list \<Rightarrow> uconn option list \<Rightarrow> handle_out list \<times> bool" where
  "Testimony_run socks [] = ([], False)"
| "Testimony_run socks (None # rs) = ([], True)"
| "Testimony_run socks (Some c # rs) =
     (case Testimony_run socks rs of (hs, fatal) \<Rightarrow> (handle socks c # hs, fatal))"

lemma Testimony_run_handles_all: "Testimony_run socks (map Some cs) = (map (handle socks) cs, False)"
  by (induction cs) simp_all

end
