(* ===== verification/Socket_Inv.thy ===== *)
theory Socket_Inv
  imports Socket
begin

text \<open>
  The invariant of a running socket: every reference counter equals the number of places that hold
  the block, no client holds a block twice, and channels are closed once and only when nobody can
  send on them any more.  From it follows that the daemon never reaches one of its panics.
\<close>

section \<open>Who holds a block\<close>

text \<open>Every place that owes one \<^verbatim>\<open>unref\<close>.\<close>

primrec pc_hold :: "conn_pc \<Rightarrow> nat \<Rightarrow> nat" where
  "pc_hold CSelect i = 0"
| "pc_hold (CBatch out) i = 0"
| "pc_hold (CWrite out) i = 0"
| "pc_hold (CUnref b) i = of_bool (b = i)"
| "pc_hold CClose i = 0"
| "pc_hold CMarkOld i = 0"
| "pc_hold CDrainNew i = 0"
| "pc_hold (CDrainUnref b) i = of_bool (b = i)"
| "pc_hold CDrainOld i = 0"
| "pc_hold (CFinal j) i = 0"
| "pc_hold CDone i = 0"
| "pc_hold (CClear b pc) i = pc_hold pc i"

text \<open>The final loop over \<^verbatim>\<open>outstanding\<close> gives the blocks up one after the other.\<close>

primrec released :: "conn_pc \<Rightarrow> nat \<Rightarrow> bool" where
  "released CSelect i = False"
| "released (CBatch out) i = False"
| "released (CWrite out) i = False"
| "released (CUnref b) i = False"
| "released CClose i = False"
| "released CMarkOld i = False"
| "released CDrainNew i = False"
| "released (CDrainUnref b) i = False"
| "released CDrainOld i = False"
| "released (CFinal j) i = (i < j)"
| "released CDone i = True"
| "released (CClear b pc) i = released pc i"

definition chold :: "conn \<Rightarrow> nat \<Rightarrow> nat" where
  "chold k i =
     count_list (cbuf (cnew k)) i + pc_hold (c_pc k) i +
     of_bool (i < length (outstanding k) \<and> outstanding k ! i \<and> \<not> released (c_pc k) i)"

primrec run_hold :: "run_pc \<Rightarrow> nat \<Rightarrow> nat" where
  "run_hold RSelect i = 0"
| "run_hold (RClose c) i = 0"
| "run_hold (RRange b todo) i = of_bool (b = i)"
| "run_hold (RSend b c todo) i = 2 * of_bool (b = i)"
| "run_hold (RUnsend b todo) i = 2 * of_bool (b = i)"
| "run_hold (RClear b pc) i = run_hold pc i"

definition get_hold :: "socket \<Rightarrow> nat \<Rightarrow> nat" where
  "get_hold s i = of_bool (g_pc s = GSend \<and> blockIndex s = i)"

definition holders :: "socket \<Rightarrow> nat \<Rightarrow> nat" where
  "holders s i =
     get_hold s i + count_list (cbuf (newBlocks s)) i + run_hold (r_pc s) i +
     (\<Sum>k\<leftarrow>conns s. chold k i)"

section \<open>The parts of the invariant\<close>

primrec pc_wf :: "nat \<Rightarrow> conn_pc \<Rightarrow> bool" where
  "pc_wf n CSelect = True"
| "pc_wf n (CBatch out) = True"
| "pc_wf n (CWrite out) = True"
| "pc_wf n (CUnref b) = (b < n)"
| "pc_wf n CClose = True"
| "pc_wf n CMarkOld = True"
| "pc_wf n CDrainNew = True"
| "pc_wf n (CDrainUnref b) = (b < n)"
| "pc_wf n CDrainOld = True"
| "pc_wf n (CFinal j) = True"
| "pc_wf n CDone = True"
| "pc_wf n (CClear b pc) = (b < n \<and> pc_wf n pc)"

definition conn_wf :: "nat \<Rightarrow> conn \<Rightarrow> bool" where
  "conn_wf n k \<longleftrightarrow>
     length (outstanding k) = n \<and> ccap (cnew k) = n \<and> ccap (cold k) = n \<and>
     set (cbuf (cnew k)) \<subseteq> {..<n} \<and> set (cbuf (cold k)) \<subseteq> {1..n} \<and> length (cbuf (cold k)) \<le> n \<and>
     (cclosed (cold k) \<longleftrightarrow> h_pc k = HDone) \<and> pc_wf n (c_pc k) \<and>
     (\<forall>v. h_pc k = HSend v \<longrightarrow> 1 \<le> v \<and> v \<le> n)"

text \<open>The block that \<^verbatim>\<open>run\<close> is distributing and the clients it has still to serve.\<close>

primrec run_block :: "run_pc \<Rightarrow> nat option" where
  "run_block RSelect = None"
| "run_block (RClose c) = None"
| "run_block (RRange b todo) = Some b"
| "run_block (RSend b c todo) = Some b"
| "run_block (RUnsend b todo) = Some b"
| "run_block (RClear b pc) = run_block pc"

primrec targets :: "run_pc \<Rightarrow> nat list" where
  "targets RSelect = []"
| "targets (RClose c) = []"
| "targets (RRange b todo) = todo"
| "targets (RSend b c todo) = c # todo"
| "targets (RUnsend b todo) = todo"
| "targets (RClear b pc) = targets pc"

text \<open>A send to a client never finds its channel full, so the place after a failed send is not
  reached.\<close>

primrec run_wf :: "nat \<Rightarrow> run_pc \<Rightarrow> bool" where
  "run_wf n RSelect = True"
| "run_wf n (RClose c) = True"
| "run_wf n (RRange b todo) = (b < n)"
| "run_wf n (RSend b c todo) = (b < n)"
| "run_wf n (RUnsend b todo) = False"
| "run_wf n (RClear b pc) = (b < n \<and> pc = RSelect)"

definition shape_ok :: "socket \<Rightarrow> bool" where
  "shape_ok s \<longleftrightarrow>
     0 < numBlocks s \<and> length (refs s) = numBlocks s \<and> length (status s) = numBlocks s \<and>
     blockIndex s < numBlocks s \<and>
     ccap (newBlocks s) = numBlocks s \<and> \<not> cclosed (newBlocks s) \<and>
     set (cbuf (newBlocks s)) \<subseteq> {..<numBlocks s} \<and>
     run_wf (numBlocks s) (r_pc s) \<and> distinct (targets (r_pc s)) \<and>
     set (targets (r_pc s)) \<subseteq> set (currentConns s) \<and>
     distinct (currentConns s) \<and> set (currentConns s) \<subseteq> {..<length (conns s)} \<and>
     (\<forall>k \<in> set (conns s). conn_wf (numBlocks s) k)"

datatype phase = Active | Draining | Finished

primrec pc_phase :: "conn_pc \<Rightarrow> phase" where
  "pc_phase CSelect = Active"
| "pc_phase (CBatch out) = Active"
| "pc_phase (CWrite out) = Active"
| "pc_phase (CUnref b) = Active"
| "pc_phase CClose = Active"
| "pc_phase CMarkOld = Active"
| "pc_phase CDrainNew = Draining"
| "pc_phase (CDrainUnref b) = Draining"
| "pc_phase CDrainOld = Finished"
| "pc_phase (CFinal j) = Finished"
| "pc_phase CDone = Finished"
| "pc_phase (CClear b pc) = pc_phase pc"

text \<open>A client is registered and its channel open until \<^verbatim>\<open>run\<close> has taken it from \<^verbatim>\<open>oldConns\<close>; then
  \<^verbatim>\<open>run\<close> closes the channel and removes the client, in one go.\<close>

definition phase_ok :: "run_pc \<Rightarrow> nat list \<Rightarrow> nat \<Rightarrow> conn \<Rightarrow> bool" where
  "phase_ok pc cur c k \<longleftrightarrow>
     (case pc_phase (c_pc k) of
        Active \<Rightarrow> c \<in> set cur \<and> \<not> cclosed (cnew k) \<and> pc \<noteq> RClose c
      | Draining \<Rightarrow> (c \<in> set cur \<and> \<not> cclosed (cnew k) \<and> pc = RClose c) \<or>
                   (c \<notin> set cur \<and> cclosed (cnew k) \<and> pc \<noteq> RClose c)
      | Finished \<Rightarrow> c \<notin> set cur \<and> cclosed (cnew k) \<and> cbuf (cnew k) = [] \<and> pc \<noteq> RClose c)"

definition phases_ok :: "socket \<Rightarrow> bool" where
  "phases_ok s \<longleftrightarrow>
     (\<forall>c < length (conns s). phase_ok (r_pc s) (currentConns s) c (conns s ! c)) \<and>
     (\<forall>c. r_pc s = RClose c \<longrightarrow> c < length (conns s))"

definition counts_ok :: "socket \<Rightarrow> bool" where
  "counts_ok s \<longleftrightarrow> (\<forall>i < numBlocks s. refs s ! i = of_nat (holders s i))"

text \<open>A block on its way to the clients exists once, and the clients it has still to reach hold none of
  it; when the counter was seen to be zero nobody holds the block.\<close>

definition token_ok :: "socket \<Rightarrow> nat \<Rightarrow> bool" where
  "token_ok s i \<longleftrightarrow>
     get_hold s i + count_list (cbuf (newBlocks s)) i + of_bool (run_block (r_pc s) = Some i) \<le> 1 \<and>
     (\<forall>k \<in> set (conns s). chold k i \<le> 1) \<and>
     (0 < get_hold s i + count_list (cbuf (newBlocks s)) i \<longrightarrow> (\<forall>k \<in> set (conns s). chold k i = 0)) \<and>
     (run_block (r_pc s) = Some i \<longrightarrow> (\<forall>c \<in> set (targets (r_pc s)). chold (conns s ! c) i = 0)) \<and>
     (g_pc s \<in> {GStatus, GRef} \<and> blockIndex s = i \<longrightarrow> holders s i = 0)"

definition tokens_ok :: "socket \<Rightarrow> bool" where
  "tokens_ok s \<longleftrightarrow> (\<forall>i < numBlocks s. token_ok s i)"

definition no_panic :: "socket \<Rightarrow> bool" where
  "no_panic s \<longleftrightarrow> crashed s = None \<or> (\<exists>n. crashed s = Some (WaitFailed n))"

definition sock_inv :: "socket \<Rightarrow> bool" where
  "sock_inv s \<longleftrightarrow> shape_ok s \<and> phases_ok s \<and> counts_ok s \<and> tokens_ok s \<and> no_panic s"

lemma sock_invD:
  assumes "sock_inv s"
  shows "shape_ok s" "phases_ok s" "counts_ok s" "tokens_ok s" "no_panic s"
  using assms by (simp_all add: sock_inv_def)

lemma sock_invI: "shape_ok s \<Longrightarrow> phases_ok s \<Longrightarrow> counts_ok s \<Longrightarrow> tokens_ok s \<Longrightarrow> no_panic s \<Longrightarrow> sock_inv s"
  by (simp add: sock_inv_def)

lemma counts_okD: "sock_inv s \<Longrightarrow> i < numBlocks s \<Longrightarrow> refs s ! i = of_nat (holders s i)"
  by (simp add: sock_inv_def counts_ok_def)

lemma tokens_okD: "sock_inv s \<Longrightarrow> i < numBlocks s \<Longrightarrow> token_ok s i"
  by (simp add: sock_inv_def tokens_ok_def)

lemma conn_wfD: "sock_inv s \<Longrightarrow> c < length (conns s) \<Longrightarrow> conn_wf (numBlocks s) (conns s ! c)"
  by (simp add: sock_inv_def shape_ok_def)

lemma phase_okD:
  "sock_inv s \<Longrightarrow> c < length (conns s) \<Longrightarrow> phase_ok (r_pc s) (currentConns s) c (conns s ! c)"
  by (simp add: sock_inv_def phases_ok_def)

section \<open>Counting under updates\<close>

lemma set_conn_fields [simp]:
  "numBlocks (set_conn s c k) = numBlocks s" "refs (set_conn s c k) = refs s"
  "status (set_conn s c k) = status s" "newBlocks (set_conn s c k) = newBlocks s"
  "blockIndex (set_conn s c k) = blockIndex s" "g_pc (set_conn s c k) = g_pc s"
  "r_pc (set_conn s c k) = r_pc s" "currentConns (set_conn s c k) = currentConns s"
  "conns (set_conn s c k) = (conns s)[c := k]" "crashed (set_conn s c k) = crashed s"
  by (simp_all add: set_conn_def)

lemma block_op_fields [simp]:
  "numBlocks (ref_block s b) = numBlocks s" "numBlocks (dec_block s b) = numBlocks s"
  "refs (ref_block s b) = (refs s)[b := ref (refs s ! b)]"
  "refs (dec_block s b) = (refs s)[b := fst (unref (refs s ! b))]"
  "status (ref_block s b) = status s" "status (dec_block s b) = status s"
  "newBlocks (ref_block s b) = newBlocks s" "newBlocks (dec_block s b) = newBlocks s"
  "blockIndex (ref_block s b) = blockIndex s" "blockIndex (dec_block s b) = blockIndex s"
  "g_pc (ref_block s b) = g_pc s" "g_pc (dec_block s b) = g_pc s"
  "r_pc (ref_block s b) = r_pc s" "r_pc (dec_block s b) = r_pc s"
  "currentConns (ref_block s b) = currentConns s" "currentConns (dec_block s b) = currentConns s"
  "conns (ref_block s b) = conns s" "conns (dec_block s b) = conns s"
  "crashed (ref_block s b) = crashed s" "crashed (dec_block s b) = crashed s"
  by (simp_all add: ref_block_def dec_block_def)

lemma holders_set_conn:
  "c < length (conns s) \<Longrightarrow>
   holders (set_conn s c k) i + chold (conns s ! c) i = holders s i + chold k i"
  using sum_map_update [of c "conns s" "\<lambda>k. chold k i" k]
  by (simp add: holders_def get_hold_def)

lemma chold_le_holders:
  assumes "c < length (conns s)"
  shows "chold (conns s ! c) i \<le> holders s i"
proof -
  have "chold (conns s ! c) i \<le> (\<Sum>k\<leftarrow>conns s. chold k i)"
    using assms by (intro member_le_sum_list) simp_all
  then show ?thesis by (simp add: holders_def)
qed

lemma holders_zero_iff:
  "holders s i = 0 \<longleftrightarrow>
     get_hold s i = 0 \<and> i \<notin> set (cbuf (newBlocks s)) \<and> run_hold (r_pc s) i = 0 \<and>
     (\<forall>k \<in> set (conns s). chold k i = 0)"
  by (auto simp: holders_def sum_map_zero_iff count_list_eq_0)

lemma run_hold_le: "run_hold pc i \<le> 2 * of_bool (run_block pc = Some i)"
  by (induction pc) auto

lemma holders_bound:
  assumes "token_ok s i"
  shows "holders s i \<le> length (conns s) + 2"
proof -
  have "(\<Sum>k\<leftarrow>conns s. chold k i) \<le> length (conns s)"
    using assms by (intro sum_map_bound) (auto simp: token_ok_def)
  moreover have "get_hold s i + count_list (cbuf (newBlocks s)) i + run_hold (r_pc s) i \<le> 2"
    using assms run_hold_le [of "r_pc s" i] by (auto simp: token_ok_def split: if_splits)
  ultimately show ?thesis by (simp add: holders_def)
qed

text \<open>As long as the daemon has served fewer clients than an \<^verbatim>\<open>int32\<close> can count.\<close>

definition few_conns :: "socket \<Rightarrow> bool" where
  "few_conns s \<longleftrightarrow> length (conns s) + 2 < max_refs"

lemma holders_few:
  "sock_inv s \<Longrightarrow> few_conns s \<Longrightarrow> i < numBlocks s \<Longrightarrow> holders s i < max_refs"
  using holders_bound [OF tokens_okD, of s i] by (simp add: few_conns_def)

lemma refs_zero_iff:
  assumes "sock_inv s" and "few_conns s" and "i < numBlocks s"
  shows "refs s ! i = 0 \<longleftrightarrow> holders s i = 0"
  using rc.rep_zero_iff [OF holders_few [OF assms]] counts_okD [OF assms(1,3)] by simp

lemma unref_held:
  assumes "sock_inv s" and "few_conns s" and "i < numBlocks s" and "0 < holders s i"
  shows "snd (unref (refs s ! i)) = (if holders s i = 1 then ClearBlock else KeepBlock) \<and>
         fst (unref (refs s ! i)) = of_nat (holders s i - 1)"
  using rc.dec_out [OF assms(4)] rc.dec_fst [OF assms(4)] holders_few [OF assms(1-3)]
    counts_okD [OF assms(1,3)] by simp

section \<open>Steps of a connection\<close>

lemma sock_inv_status:
  assumes "sock_inv s" and "length st = numBlocks s"
  shows "sock_inv (s\<lparr>status := st\<rparr>)"
proof (rule sock_invI)
  have h: "holders (s\<lparr>status := st\<rparr>) i = holders s i" for i
    by (simp add: holders_def get_hold_def)
  show "shape_ok (s\<lparr>status := st\<rparr>)"
    using sock_invD(1) [OF assms(1)] assms(2) by (simp add: shape_ok_def)
  show "phases_ok (s\<lparr>status := st\<rparr>)"
    using sock_invD(2) [OF assms(1)] by (simp add: phases_ok_def)
  show "counts_ok (s\<lparr>status := st\<rparr>)"
    using sock_invD(3) [OF assms(1)] by (simp add: counts_ok_def h)
  show "tokens_ok (s\<lparr>status := st\<rparr>)"
    using sock_invD(4) [OF assms(1)] by (simp add: tokens_ok_def token_ok_def h get_hold_def)
  show "no_panic (s\<lparr>status := st\<rparr>)"
    using sock_invD(5) [OF assms(1)] by (simp add: no_panic_def)
qed

lemma set_update_subset: "x \<in> set (xs[i := y]) \<Longrightarrow> x = y \<or> x \<in> set xs"
  using set_update_subset_insert by fastforce

text \<open>A change of one connection that moves no reference into or out of it.\<close>

lemma tokens_ok_set_conn:
  assumes tok: "tokens_ok s" and c: "c < length (conns s)"
    and hold: "\<And>i. i < numBlocks s \<Longrightarrow> chold k i \<le> chold (conns s ! c) i"
    and le: "\<And>i. holders s' i \<le> holders s i"
    and eq: "numBlocks s' = numBlocks s" "newBlocks s' = newBlocks s" "blockIndex s' = blockIndex s"
      "g_pc s' = g_pc s" "r_pc s' = r_pc s" "conns s' = (conns s)[c := k]"
  shows "tokens_ok s'"
  unfolding tokens_ok_def
proof (intro allI impI)
  fix i assume "i < numBlocks s'"
  then have i: "i < numBlocks s" and t: "token_ok s i"
    using tok eq by (auto simp: tokens_ok_def)
  have old: "conns s ! c \<in> set (conns s)" using c by simp
  have g: "get_hold s' i = get_hold s i" using eq by (simp add: get_hold_def)
  have "chold k' i \<le> 1" if "k' \<in> set (conns s')" for k'
    using that t hold [OF i] old eq(6) set_update_subset [of k' "conns s" c k]
    by (fastforce simp: token_ok_def)
  moreover have "chold k' i = 0" if "k' \<in> set (conns s')" "0 < get_hold s i + count_list (cbuf (newBlocks s)) i" for k'
    using that t hold [OF i] old eq(6) set_update_subset [of k' "conns s" c k]
    by (fastforce simp: token_ok_def)
  moreover have "chold (conns s' ! d) i = 0" if "run_block (r_pc s) = Some i" "d \<in> set (targets (r_pc s))" for d
    using that t hold [OF i] eq(6) c by (cases "d = c") (auto simp: token_ok_def)
  ultimately show "token_ok s' i"
    using t g eq le [of i] by (auto simp: token_ok_def)
qed

lemma shape_ok_set_conn:
  assumes "shape_ok s" and "conn_wf (numBlocks s) k"
  shows "shape_ok (set_conn s c k)"
  using assms by (auto simp: shape_ok_def dest: set_update_subset)

text \<open>The change keeps the phase of the connection and the state of its channel.\<close>

definition same_phase :: "conn \<Rightarrow> conn \<Rightarrow> bool" where
  "same_phase k k' \<longleftrightarrow>
     pc_phase (c_pc k') = pc_phase (c_pc k) \<and> cclosed (cnew k') = cclosed (cnew k) \<and>
     (cbuf (cnew k) = [] \<longrightarrow> cbuf (cnew k') = [])"

lemma same_phase_ok: "same_phase k k' \<Longrightarrow> phase_ok pc cur c k \<Longrightarrow> phase_ok pc cur c k'"
  by (cases "pc_phase (c_pc k)") (simp_all add: phase_ok_def same_phase_def)

lemma phases_ok_set_conn:
  assumes "phases_ok s" and "same_phase (conns s ! c) k"
  shows "phases_ok (set_conn s c k)"
  unfolding phases_ok_def
proof (intro conjI allI impI)
  fix d assume "d < length (conns (set_conn s c k))"
  then have d: "d < length (conns s)" and "phase_ok (r_pc s) (currentConns s) d (conns s ! d)"
    using assms(1) by (simp_all add: phases_ok_def)
  with assms(2) show "phase_ok (r_pc (set_conn s c k)) (currentConns (set_conn s c k)) d (conns (set_conn s c k) ! d)"
    by (cases "d = c") (auto simp: nth_list_update intro: same_phase_ok)
qed (use assms(1) in \<open>simp add: phases_ok_def\<close>)

lemma sock_inv_quiet:
  assumes inv: "sock_inv s" and c: "c < length (conns s)" and wf: "conn_wf (numBlocks s) k"
    and hold: "\<And>i. chold k i = chold (conns s ! c) i" and ph: "same_phase (conns s ! c) k"
  shows "sock_inv (set_conn s c k)"
proof -
  have h: "holders (set_conn s c k) i = holders s i" for i
    using holders_set_conn [OF c, of k i] hold [of i] by simp
  show ?thesis
  proof (rule sock_invI)
    show "shape_ok (set_conn s c k)"
      by (rule shape_ok_set_conn [OF sock_invD(1) [OF inv] wf])
    show "phases_ok (set_conn s c k)"
      by (rule phases_ok_set_conn [OF sock_invD(2) [OF inv] ph])
    show "counts_ok (set_conn s c k)"
      using sock_invD(3) [OF inv] h by (simp add: counts_ok_def)
    show "tokens_ok (set_conn s c k)"
      by (rule tokens_ok_set_conn [OF sock_invD(4) [OF inv] c, of k]) (simp_all add: hold h)
    show "no_panic (set_conn s c k)"
      using sock_invD(5) [OF inv] by (simp add: no_panic_def)
  qed
qed

text \<open>A change of one connection that gives up one reference to block \<open>b\<close>.\<close>

lemma sock_inv_release:
  assumes inv: "sock_inv s" and few: "few_conns s" and c: "c < length (conns s)" and b: "b < numBlocks s"
    and wf: "conn_wf (numBlocks s) k" and ph: "same_phase (conns s ! c) k"
    and hold: "\<And>i. chold k i + of_bool (i = b) = chold (conns s ! c) i"
  shows "sock_inv (set_conn (dec_block s b) c k)"
proof -
  let ?s = "set_conn (dec_block s b) c k"
  have "holders (dec_block s b) i = holders s i" for i
    by (simp add: holders_def get_hold_def)
  then have h: "holders ?s i + of_bool (i = b) = holders s i" for i
    using holders_set_conn [of c "dec_block s b" k i] hold [of i] c by simp
  have "0 < holders s b" using h [of b] by simp
  then have r: "fst (unref (refs s ! b)) = of_nat (holders s b - 1)"
    using unref_held [OF inv few b] by simp
  have le: "chold k i \<le> chold (conns s ! c) i" "holders ?s i \<le> holders s i" for i
    using hold [of i] h [of i] by linarith+
  show ?thesis
  proof (rule sock_invI)
    have "shape_ok (dec_block s b)" "phases_ok (dec_block s b)"
      using sock_invD(1,2) [OF inv] by (simp_all add: shape_ok_def phases_ok_def)
    then show "shape_ok ?s" "phases_ok ?s"
      using shape_ok_set_conn phases_ok_set_conn wf ph by simp_all
    show "counts_ok ?s"
      unfolding counts_ok_def
    proof (intro allI impI)
      fix i assume "i < numBlocks ?s"
      then have i: "i < numBlocks s" by simp
      have len: "length (refs s) = numBlocks s"
        using sock_invD(1) [OF inv] by (simp add: shape_ok_def)
      show "refs ?s ! i = of_nat (holders ?s i)"
      proof (cases "i = b")
        case True
        have "holders ?s b = holders s b - 1" using h [of b] by simp
        with True r b len show ?thesis by simp
      next
        case False
        with h [of i] have "holders ?s i = holders s i" by simp
        with False counts_okD [OF inv i] show ?thesis by simp
      qed
    qed
    show "tokens_ok ?s"
      by (rule tokens_ok_set_conn [OF sock_invD(4) [OF inv] c, of k]) (simp_all add: le)
    show "no_panic ?s"
      using sock_invD(5) [OF inv] by (simp add: no_panic_def)
  qed
qed

end
