(* ===== verification/Socket_Conn.thy ===== *)
theory Socket_Conn
  imports Socket_Inv
begin

text \<open>The steps of a client's goroutines keep the invariant of the socket.\<close>

lemma chan_recv_ValD:
  "chan_recv ch = RecvVal v ch' \<Longrightarrow>
   cbuf ch = v # cbuf ch' \<and> ccap ch' = ccap ch \<and> cclosed ch' = cclosed ch"
  using gc.get_Some [of ch v ch'] by (auto simp: chan_recv_get)

lemma chan_send_OkD:
  "chan_send ch v = SendOk ch' \<Longrightarrow>
   cbuf ch' = cbuf ch @ [v] \<and> ccap ch' = ccap ch \<and> \<not> cclosed ch \<and> \<not> cclosed ch' \<and> length (cbuf ch) < ccap ch"
  using gc.put_Some [of ch v ch'] by (auto simp: chan_send_put)

lemma chan_close_SomeD:
  "chan_close ch = Some ch' \<Longrightarrow> cbuf ch' = cbuf ch \<and> ccap ch' = ccap ch \<and> \<not> cclosed ch \<and> cclosed ch'"
  by (auto simp: chan_close_def split: if_splits)

lemma conn_unref_inv:
  assumes inv: "sock_inv s" and few: "few_conns s" and c: "c < length (conns s)" and b: "b < numBlocks s"
    and wf: "pc_wf (numBlocks s) pc" and ph: "pc_phase pc = pc_phase (c_pc (conns s ! c))"
    and hold: "\<And>i. chold ((conns s ! c)\<lparr>c_pc := pc\<rparr>) i + of_bool (i = b) = chold (conns s ! c) i"
  shows "sock_inv (conn_unref s c b pc)"
proof -
  let ?k = "conns s ! c"
  have k: "conn_wf (numBlocks s) ?k" by (rule conn_wfD [OF inv c])
  have "chold ?k b \<le> holders s b"
    by (rule chold_le_holders [OF c])
  then have "0 < holders s b" using hold [of b] by simp
  then have out: "snd (unref (refs s ! b)) \<noteq> InvalidUnrefPanic"
    using unref_held [OF inv few b] by (simp split: if_splits)
  have "sock_inv (set_conn (dec_block s b) c (?k\<lparr>c_pc := pc'\<rparr>))" if "pc' = pc \<or> pc' = CClear b pc" for pc'
  proof (rule sock_inv_release [OF inv few c b])
    show "conn_wf (numBlocks s) (?k\<lparr>c_pc := pc'\<rparr>)"
      using k that wf b by (auto simp: conn_wf_def)
    show "same_phase ?k (?k\<lparr>c_pc := pc'\<rparr>)"
      using ph that by (auto simp: same_phase_def)
    show "chold (?k\<lparr>c_pc := pc'\<rparr>) i + of_bool (i = b) = chold ?k i" for i
      using hold [of i] that by (auto simp: chold_def)
  qed
  then show ?thesis
    using out by (auto simp: conn_unref_def split: unref_out.split)
qed

text \<open>A registered client never receives a block that it has not returned.\<close>

lemma conn_take_inv:
  assumes inv: "sock_inv s" and c: "c < length (conns s)"
    and pc: "c_pc (conns s ! c) = CSelect \<or> c_pc (conns s ! c) = CBatch out'"
    and rv: "chan_recv (cnew (conns s ! c)) = RecvVal b ch"
  shows "sock_inv (conn_take s c ch out b)"
proof -
  let ?k = "conns s ! c"
  have k: "conn_wf (numBlocks s) ?k" by (rule conn_wfD [OF inv c])
  note ch = chan_recv_ValD [OF rv]
  have b: "b < numBlocks s" "b < length (outstanding ?k)"
    using k ch by (auto simp: conn_wf_def)
  have "chold ?k b \<le> 1"
    using tokens_okD [OF inv b(1)] c by (simp add: token_ok_def)
  then have nout: "\<not> outstanding ?k ! b"
    using ch b(2) pc by (auto simp: chold_def)
  let ?k' = "?k\<lparr>cnew := ch, outstanding := (outstanding ?k)[b := True],
                c_pc := CBatch (out @ PutUint32 (of_nat b))\<rparr>"
  have "sock_inv (set_conn s c ?k')"
  proof (rule sock_inv_quiet [OF inv c])
    show "conn_wf (numBlocks s) ?k'"
      using k ch by (auto simp: conn_wf_def)
    show "chold ?k' i = chold ?k i" for i
      using ch b(2) nout pc by (cases "i = b") (auto simp: chold_def)
    show "same_phase ?k ?k'"
      using ch pc by (auto simp: same_phase_def)
  qed
  then show ?thesis
    using b(2) nout by (simp add: conn_take_def Let_def)
qed

lemma active_open:
  assumes "sock_inv s" and "c < length (conns s)" and "pc_phase (c_pc (conns s ! c)) = Active"
  shows "\<not> cclosed (cnew (conns s ! c))"
  using phase_okD [OF assms(1,2)] assms(3) by (simp add: phase_ok_def)

lemma conn_newBlock_inv:
  assumes "sock_inv s" and "c < length (conns s)" and "conn_newBlock c s = Some s'"
  shows "sock_inv s'"
proof (cases "chan_recv (cnew (conns s ! c))")
  case (RecvVal b ch)
  with assms conn_take_inv [OF assms(1,2) _ RecvVal] show ?thesis
    by (auto simp: conn_newBlock_def Let_def split: if_splits)
next
  case RecvZero
  with assms active_open [OF assms(1,2)] show ?thesis
    by (auto simp: conn_newBlock_def Let_def chan_recv_zero split: if_splits)
next
  case RecvBlocks
  with assms show ?thesis
    by (auto simp: conn_newBlock_def Let_def split: if_splits)
qed

text \<open>A change of a connection that leaves the references, the channel \<open>newBlocks\<close> and the phase alone.\<close>

lemma conn_pc_inv:
  assumes inv: "sock_inv s" and c: "c < length (conns s)"
    and wf: "conn_wf (numBlocks s) k"
    and eq: "cnew k = cnew (conns s ! c)" "outstanding k = outstanding (conns s ! c)"
    and ph: "pc_phase (c_pc k) = pc_phase (c_pc (conns s ! c))"
    and pc: "\<And>i. pc_hold (c_pc k) i = pc_hold (c_pc (conns s ! c)) i"
    and rel: "\<And>i. i < length (outstanding k) \<Longrightarrow> outstanding k ! i \<Longrightarrow>
       released (c_pc k) i = released (c_pc (conns s ! c)) i"
  shows "sock_inv (set_conn s c k)"
proof (rule sock_inv_quiet [OF inv c wf])
  show "chold k i = chold (conns s ! c) i" for i
    using eq pc [of i] rel [of i] by (auto simp: chold_def)
  show "same_phase (conns s ! c) k"
    using eq ph by (simp add: same_phase_def)
qed

lemma conn_oldBlock_inv:
  assumes inv: "sock_inv s" and c: "c < length (conns s)" and st: "conn_oldBlock c s = Some s'"
  shows "sock_inv s'"
proof -
  let ?k = "conns s ! c"
  have k: "conn_wf (numBlocks s) ?k" by (rule conn_wfD [OF inv c])
  have pc: "c_pc ?k = CSelect"
    using st by (auto simp: conn_oldBlock_def Let_def split: if_splits)
  show ?thesis
  proof (cases "chan_recv (cold ?k)")
    case (RecvVal v ch)
    note ch = chan_recv_ValD [OF RecvVal]
    have v: "1 \<le> v" "v - 1 < length (outstanding ?k)"
      using k ch by (auto simp: conn_wf_def)
    have wf: "conn_wf (numBlocks s) (?k\<lparr>cold := ch, c_pc := CClose\<rparr>)"
      using k ch by (auto simp: conn_wf_def)
    show ?thesis
    proof (cases "outstanding ?k ! (v - 1)")
      case False
      then have "s' = set_conn s c (?k\<lparr>cold := ch, c_pc := CClose\<rparr>)"
        using st RecvVal v pc by (simp add: conn_oldBlock_def Let_def)
      with pc wf show ?thesis
        by (auto intro!: conn_pc_inv [OF inv c])
    next
      case True
      let ?k' = "?k\<lparr>cold := ch, outstanding := (outstanding ?k)[v - 1 := False], c_pc := CUnref (v - 1)\<rparr>"
      have "sock_inv (set_conn s c ?k')"
      proof (rule sock_inv_quiet [OF inv c])
        show "conn_wf (numBlocks s) ?k'"
          using k ch v by (auto simp: conn_wf_def)
        show "chold ?k' i = chold ?k i" for i
          using v True pc by (cases "i = v - 1") (auto simp: chold_def)
        show "same_phase ?k ?k'"
          using pc by (simp add: same_phase_def)
      qed
      then show ?thesis
        using st RecvVal v pc True by (simp add: conn_oldBlock_def Let_def)
    qed
  next
    case RecvZero
    then have "s' = set_conn s c (?k\<lparr>c_pc := CClose\<rparr>)"
      using st pc by (simp add: conn_oldBlock_def Let_def)
    with pc k show ?thesis
      by (auto intro!: conn_pc_inv [OF inv c] simp: conn_wf_def)
  next
    case RecvBlocks
    with st pc show ?thesis by (simp add: conn_oldBlock_def Let_def)
  qed
qed

text \<open>The last range over \<^verbatim>\<open>newBlocks\<close> ends: the channel is closed and empty.\<close>

lemma conn_drained_inv:
  assumes inv: "sock_inv s" and c: "c < length (conns s)" and pc: "c_pc (conns s ! c) = CDrainNew"
    and zero: "chan_recv (cnew (conns s ! c)) = RecvZero"
  shows "sock_inv (set_conn s c ((conns s ! c)\<lparr>c_pc := CDrainOld\<rparr>))"
proof -
  let ?k = "conns s ! c" let ?k' = "?k\<lparr>c_pc := CDrainOld\<rparr>"
  have k: "conn_wf (numBlocks s) ?k'"
    using conn_wfD [OF inv c] by (simp add: conn_wf_def)
  have hold: "chold ?k' i = chold ?k i" for i
    using pc by (simp add: chold_def)
  have h: "holders (set_conn s c ?k') i = holders s i" for i
    using holders_set_conn [OF c, of ?k' i] hold [of i] by simp
  have fin: "phase_ok (r_pc s) (currentConns s) c ?k'"
    using phase_okD [OF inv c] pc zero by (auto simp: phase_ok_def chan_recv_zero)
  show ?thesis
  proof (rule sock_invI)
    show "shape_ok (set_conn s c ?k')"
      by (rule shape_ok_set_conn [OF sock_invD(1) [OF inv] k])
    show "phases_ok (set_conn s c ?k')"
      using sock_invD(2) [OF inv] fin c by (auto simp: phases_ok_def nth_list_update)
    show "counts_ok (set_conn s c ?k')"
      using sock_invD(3) [OF inv] h by (simp add: counts_ok_def)
    show "tokens_ok (set_conn s c ?k')"
      by (rule tokens_ok_set_conn [OF sock_invD(4) [OF inv] c, of ?k']) (simp_all add: hold h)
    show "no_panic (set_conn s c ?k')"
      using sock_invD(5) [OF inv] by (simp add: no_panic_def)
  qed
qed

lemma conn_clear_inv:
  assumes inv: "sock_inv s" and c: "c < length (conns s)" and pc: "c_pc (conns s ! c) = CClear b pc'"
  shows "sock_inv (set_conn (clear_block s b) c ((conns s ! c)\<lparr>c_pc := pc'\<rparr>))"
proof -
  have inv': "sock_inv (clear_block s b)"
    using sock_inv_status [OF inv, of "(status s)[b := 0]"] sock_invD(1) [OF inv]
    by (simp add: clear_block_def shape_ok_def)
  show ?thesis
    using conn_wfD [OF inv c] pc c
    by (intro conn_pc_inv [OF inv']) (auto simp: conn_wf_def clear_block_def)
qed

lemma conn_step_inv:
  assumes inv: "sock_inv s" and few: "few_conns s" and c: "c < length (conns s)"
    and st: "conn_step c s = Some s'"
  shows "sock_inv s'"
proof -
  let ?k = "conns s ! c"
  have k: "conn_wf (numBlocks s) ?k" by (rule conn_wfD [OF inv c])
  show ?thesis
  proof (cases "c_pc ?k")
    case (CBatch out)
    show ?thesis
    proof (cases "chan_recv (cnew ?k)")
      case (RecvVal b ch)
      with st CBatch conn_take_inv [OF inv c _ RecvVal] show ?thesis
        by (auto simp: conn_step_def Let_def)
    next
      case RecvZero
      with CBatch active_open [OF inv c] show ?thesis by (simp add: chan_recv_zero)
    next
      case RecvBlocks
      with st CBatch have "s' = set_conn s c (?k\<lparr>c_pc := CWrite out\<rparr>)"
        by (simp add: conn_step_def Let_def)
      with CBatch k show ?thesis
        by (auto intro!: conn_pc_inv [OF inv c] simp: conn_wf_def)
    qed
  next
    case (CWrite out)
    obtain e w where "Write (sock ?k) out = (e, w)" by (cases "Write (sock ?k) out")
    with st CWrite have "s' = set_conn s c (?k\<lparr>sock := w, c_pc := if e = None then CSelect else CClose\<rparr>)"
      by (auto simp: conn_step_def Let_def split: option.splits)
    with CWrite k show ?thesis
      by (auto intro!: conn_pc_inv [OF inv c] simp: conn_wf_def)
  next
    case (CUnref i)
    with k have "i < numBlocks s" by (simp add: conn_wf_def)
    with CUnref have "sock_inv (conn_unref s c i CSelect)"
      by (intro conn_unref_inv [OF inv few c]) (auto simp: chold_def)
    with st CUnref show ?thesis by (simp add: conn_step_def Let_def)
  next
    case CClose
    with st have "s' = set_conn s c (?k\<lparr>sock := Close (sock ?k), c_pc := CMarkOld\<rparr>)"
      by (simp add: conn_step_def Let_def)
    with CClose k show ?thesis
      by (auto intro!: conn_pc_inv [OF inv c] simp: conn_wf_def)
  next
    case CDrainNew
    show ?thesis
    proof (cases "chan_recv (cnew ?k)")
      case (RecvVal b ch)
      note ch = chan_recv_ValD [OF RecvVal]
      let ?k' = "?k\<lparr>cnew := ch, c_pc := CDrainUnref b\<rparr>"
      have "sock_inv (set_conn s c ?k')"
        using k ch CDrainNew
        by (intro sock_inv_quiet [OF inv c]) (auto simp: conn_wf_def chold_def same_phase_def)
      with st CDrainNew RecvVal show ?thesis by (simp add: conn_step_def Let_def)
    next
      case RecvZero
      with st CDrainNew conn_drained_inv [OF inv c] show ?thesis by (simp add: conn_step_def Let_def)
    next
      case RecvBlocks
      with st CDrainNew show ?thesis by (simp add: conn_step_def Let_def)
    qed
  next
    case (CDrainUnref b)
    with k have "b < numBlocks s" by (simp add: conn_wf_def)
    with CDrainUnref have "sock_inv (conn_unref s c b CDrainNew)"
      by (intro conn_unref_inv [OF inv few c]) (auto simp: chold_def)
    with st CDrainUnref show ?thesis by (simp add: conn_step_def Let_def)
  next
    case CDrainOld
    show ?thesis
    proof (cases "chan_recv (cold ?k)")
      case (RecvVal v ch)
      note ch = chan_recv_ValD [OF RecvVal]
      from st CDrainOld RecvVal have "s' = set_conn s c (?k\<lparr>cold := ch\<rparr>)"
        by (simp add: conn_step_def Let_def)
      with CDrainOld k ch show ?thesis
        by (auto intro!: conn_pc_inv [OF inv c] simp: conn_wf_def)
    next
      case RecvZero
      with st CDrainOld have "s' = set_conn s c (?k\<lparr>c_pc := CFinal 0\<rparr>)"
        by (simp add: conn_step_def Let_def)
      with CDrainOld k show ?thesis
        by (auto intro!: conn_pc_inv [OF inv c] simp: conn_wf_def)
    next
      case RecvBlocks
      with st CDrainOld show ?thesis by (simp add: conn_step_def Let_def)
    qed
  next
    case (CFinal i)
    show ?thesis
    proof (cases "i < length (outstanding ?k) \<and> outstanding ?k ! i")
      case True
      with k have "i < numBlocks s" by (simp add: conn_wf_def)
      moreover have "chold (?k\<lparr>c_pc := CFinal (i + 1)\<rparr>) j + of_bool (j = i) = chold ?k j" for j
        using CFinal True by (cases "j = i") (auto simp: chold_def less_Suc_eq)
      ultimately have "sock_inv (conn_unref s c i (CFinal (i + 1)))"
        using CFinal by (intro conn_unref_inv [OF inv few c]) auto
      with st CFinal True show ?thesis by (simp add: conn_step_def Let_def)
    next
      case False
      then have "s' = set_conn s c (?k\<lparr>c_pc := if i < length (outstanding ?k) then CFinal (i + 1) else CDone\<rparr>)"
        using st CFinal by (auto simp: conn_step_def Let_def)
      with CFinal False k show ?thesis
        by (auto intro!: conn_pc_inv [OF inv c] simp: conn_wf_def less_Suc_eq)
    qed
  next
    case (CClear b pc)
    with st conn_clear_inv [OF inv c] show ?thesis by (simp add: conn_step_def Let_def)
  qed (use st in \<open>simp_all add: conn_step_def Let_def\<close>)
qed

lemma reads_step_inv:
  assumes inv: "sock_inv s" and c: "c < length (conns s)" and st: "reads_step c s = Some s'"
  shows "sock_inv s'"
proof -
  let ?k = "conns s ! c"
  have k: "conn_wf (numBlocks s) ?k" by (rule conn_wfD [OF inv c])
  have quiet: "sock_inv (set_conn s c k')"
    if "conn_wf (numBlocks s) k'" "cnew k' = cnew ?k" "outstanding k' = outstanding ?k" "c_pc k' = c_pc ?k" for k'
    using that by (intro conn_pc_inv [OF inv c]) auto
  show ?thesis
  proof (cases "h_pc ?k")
    case HRead
    obtain r w where it: "handleReads_iter (numBlocks s) (sock ?k) = (r, w)"
      by (cases "handleReads_iter (numBlocks s) (sock ?k)")
    have "r \<noteq> ReadPanic" using handleReads_iter_no_panic [of "numBlocks s" "sock ?k"] it by auto
    moreover have "1 \<le> v \<and> v \<le> numBlocks s" if "r = ReadBlock v" for v
      using handleReads_iter_block it that by blast
    ultimately show ?thesis
      using st HRead it k
      by (auto simp: reads_step_def Let_def conn_wf_def intro!: quiet split: if_splits read_out.splits)
  next
    case (HSend v)
    show ?thesis
    proof (cases "chan_send (cold ?k) v")
      case (SendOk ch)
      with st HSend k chan_send_OkD [OF SendOk] show ?thesis
        by (auto simp: reads_step_def Let_def conn_wf_def intro!: quiet)
    next
      case SendPanics
      with HSend k show ?thesis by (auto simp: conn_wf_def)
    qed (use st HSend in \<open>simp add: reads_step_def Let_def\<close>)
  next
    case HDefer
    then obtain ch where ch: "chan_close (cold ?k) = Some ch"
      using k by (cases "chan_close (cold ?k)") (auto simp: conn_wf_def)
    with st HDefer k chan_close_SomeD [OF ch] show ?thesis
      by (auto simp: reads_step_def Let_def conn_wf_def intro!: quiet)
  qed (use st in \<open>simp add: reads_step_def Let_def\<close>)
qed

lemma client_inv:
  assumes inv: "sock_inv s" and c: "c < length (conns s)"
    and st: "client_send c bs s = Some s' \<or> client_hangup c s = Some s'"
  shows "sock_inv s'"
  using st conn_wfD [OF inv c]
  by (auto simp: client_send_def client_hangup_def Let_def conn_wf_def
      intro!: conn_pc_inv [OF inv c] split: if_splits)

end
