(* ===== verification/Socket_Run.thy ===== *)
theory Socket_Run
  imports Socket_Conn
begin

text \<open>The steps of \<^verbatim>\<open>getNewBlocks\<close>, \<^verbatim>\<open>socket.run\<close> and the kernel keep the invariant of the socket.\<close>

section \<open>getNewBlocks\<close>

lemma run_hold_zero_iff: "run_hold pc i = 0 \<longleftrightarrow> run_block pc \<noteq> Some i"
  by (induction pc) auto

lemma get_pc_inv:
  assumes inv: "sock_inv s" and old: "g_pc s \<noteq> GSend" and new: "pc \<noteq> GSend"
    and zero: "pc = GStatus \<or> pc = GRef \<Longrightarrow> holders s (blockIndex s) = 0"
  shows "sock_inv (s\<lparr>g_pc := pc\<rparr>)"
proof (rule sock_invI)
  have g: "get_hold (s\<lparr>g_pc := pc\<rparr>) i = get_hold s i" for i
    using old new by (simp add: get_hold_def)
  have h: "holders (s\<lparr>g_pc := pc\<rparr>) i = holders s i" for i
    using g [of i] by (simp add: holders_def)
  show "shape_ok (s\<lparr>g_pc := pc\<rparr>)"
    using sock_invD(1) [OF inv] by (simp add: shape_ok_def)
  show "phases_ok (s\<lparr>g_pc := pc\<rparr>)"
    using sock_invD(2) [OF inv] by (simp add: phases_ok_def)
  show "counts_ok (s\<lparr>g_pc := pc\<rparr>)"
    using sock_invD(3) [OF inv] by (simp add: counts_ok_def h)
  show "no_panic (s\<lparr>g_pc := pc\<rparr>)"
    using sock_invD(5) [OF inv] by (simp add: no_panic_def)
  show "tokens_ok (s\<lparr>g_pc := pc\<rparr>)"
    unfolding tokens_ok_def
  proof (intro allI impI)
    fix i assume "i < numBlocks (s\<lparr>g_pc := pc\<rparr>)"
    then have "token_ok s i" using tokens_okD [OF inv] by simp
    with zero show "token_ok (s\<lparr>g_pc := pc\<rparr>) i"
      by (auto simp: token_ok_def g h)
  qed
qed

lemma get_ref_inv:
  assumes inv: "sock_inv s" and pc: "g_pc s = GRef"
  shows "sock_inv ((ref_block s (blockIndex s))\<lparr>g_pc := GSend\<rparr>)" (is "sock_inv ?s")
proof (rule sock_invI)
  let ?b = "blockIndex s"
  have b: "?b < numBlocks s" "length (refs s) = numBlocks s"
    using sock_invD(1) [OF inv] by (simp_all add: shape_ok_def)
  have zero: "holders s ?b = 0"
    using tokens_okD [OF inv b(1)] pc by (simp add: token_ok_def)
  have g: "get_hold ?s i = of_bool (i = ?b)" "get_hold s i = 0" for i
    using pc by (auto simp: get_hold_def)
  have h: "holders ?s i = holders s i + of_bool (i = ?b)" for i
    by (simp add: holders_def g)
  show "shape_ok ?s"
    using sock_invD(1) [OF inv] by (simp add: shape_ok_def)
  show "phases_ok ?s"
    using sock_invD(2) [OF inv] by (simp add: phases_ok_def)
  show "no_panic ?s"
    using sock_invD(5) [OF inv] by (simp add: no_panic_def)
  show "counts_ok ?s"
    unfolding counts_ok_def
  proof (intro allI impI)
    fix i assume "i < numBlocks ?s"
    then have i: "i < numBlocks s" by simp
    then show "refs ?s ! i = of_nat (holders ?s i)"
      using counts_okD [OF inv i] b zero rc.inc_rep [of "holders s ?b"] h [of i]
      by (cases "i = ?b") simp_all
  qed
  show "tokens_ok ?s"
    unfolding tokens_ok_def
  proof (intro allI impI)
    fix i assume "i < numBlocks ?s"
    then have t: "token_ok s i" using tokens_okD [OF inv] by simp
    show "token_ok ?s i"
    proof (cases "i = ?b")
      case True
      with zero show ?thesis
        by (auto simp: token_ok_def g holders_zero_iff run_hold_zero_iff count_list_eq_0)
    next
      case False
      with t show ?thesis by (simp add: token_ok_def g h)
    qed
  qed
qed

lemma get_send_inv:
  assumes inv: "sock_inv s" and pc: "g_pc s = GSend" and send: "chan_send (newBlocks s) (blockIndex s) = SendOk ch"
  shows "sock_inv (s\<lparr>newBlocks := ch, blockIndex := Suc (blockIndex s) mod numBlocks s, g_pc := GLoad\<rparr>)"
    (is "sock_inv ?s")
proof (rule sock_invI)
  let ?b = "blockIndex s"
  note ch = chan_send_OkD [OF send]
  have g: "get_hold s i = of_bool (i = ?b)" "get_hold ?s i = 0" for i
    using pc by (auto simp: get_hold_def)
  have q: "count_list (cbuf ch) i = count_list (cbuf (newBlocks s)) i + of_bool (i = ?b)" for i
    using ch by simp
  have h: "holders ?s i = holders s i" for i
    using g [of i] q [of i] by (simp add: holders_def)
  show "shape_ok ?s"
    using sock_invD(1) [OF inv] ch by (simp add: shape_ok_def)
  show "phases_ok ?s"
    using sock_invD(2) [OF inv] by (simp add: phases_ok_def)
  show "no_panic ?s"
    using sock_invD(5) [OF inv] by (simp add: no_panic_def)
  show "counts_ok ?s"
    using sock_invD(3) [OF inv] by (simp add: counts_ok_def h)
  show "tokens_ok ?s"
    using sock_invD(4) [OF inv] by (simp add: tokens_ok_def token_ok_def g q add.commute)
qed

lemma getNewBlocks_step_inv:
  assumes inv: "sock_inv s" and few: "few_conns s" and st: "getNewBlocks_step s = Some s'"
  shows "sock_inv s'"
proof -
  have b: "blockIndex s < numBlocks s" "length (refs s) = numBlocks s" "\<not> cclosed (newBlocks s)"
    using sock_invD(1) [OF inv] by (simp_all add: shape_ok_def)
  show ?thesis
  proof (cases "g_pc s")
    case GLoad
    with st b have "s' = s\<lparr>g_pc := if refs s ! blockIndex s = 0 then GStatus else GWait\<rparr>"
      by (simp add: getNewBlocks_step_def Let_def)
    with GLoad refs_zero_iff [OF inv few b(1)] show ?thesis
      by (auto intro!: get_pc_inv [OF inv])
  next
    case GStatus
    with st have "s' = s\<lparr>g_pc := if status s ! blockIndex s \<noteq> 0 then GRef else GWait\<rparr>"
      by (simp add: getNewBlocks_step_def Let_def)
    moreover have "holders s (blockIndex s) = 0"
      using tokens_okD [OF inv b(1)] GStatus by (simp add: token_ok_def)
    ultimately show ?thesis
      using GStatus by (auto intro!: get_pc_inv [OF inv])
  next
    case GWait
    with st have "s' = s\<lparr>g_pc := GLoad\<rparr>"
      by (simp add: getNewBlocks_step_def Let_def)
    with GWait show ?thesis
      by (auto intro!: get_pc_inv [OF inv])
  next
    case GRef
    with st get_ref_inv [OF inv] show ?thesis
      by (simp add: getNewBlocks_step_def Let_def)
  next
    case GSend
    with st b get_send_inv [OF inv] show ?thesis
      by (auto simp: getNewBlocks_step_def Let_def split: send_res.splits)
  qed
qed

lemma getNewBlocks_fail_inv:
  assumes inv: "sock_inv s" and st: "getNewBlocks_fail e s = Some s'"
  shows "sock_inv s'"
proof -
  have s': "s' = set_crash s (WaitFailed e)"
    using st by (auto simp: getNewBlocks_fail_def split: if_splits)
  have h: "holders s' i = holders s i" "get_hold s' i = get_hold s i" for i
    by (simp_all add: s' holders_def get_hold_def set_crash_def)
  show ?thesis
  proof (rule sock_invI)
    show "shape_ok s'" "phases_ok s'"
      using sock_invD(1,2) [OF inv] by (simp_all add: s' set_crash_def shape_ok_def phases_ok_def)
    show "counts_ok s'"
      using sock_invD(3) [OF inv] h by (simp add: s' set_crash_def counts_ok_def)
    show "tokens_ok s'"
      using sock_invD(4) [OF inv] h by (simp add: s' set_crash_def tokens_ok_def token_ok_def)
    show "no_panic s'"
      by (simp add: s' set_crash_def no_panic_def)
  qed
qed

lemma kernel_step_inv:
  assumes "sock_inv s" and "kernel_step b v s = Some s'"
  shows "sock_inv s'"
  using assms sock_inv_status [OF assms(1), of "(status s)[b := v]"] sock_invD(1) [OF assms(1)]
  by (auto simp: kernel_step_def shape_ok_def split: if_splits)

section \<open>socket.run\<close>

lemma addNewConn_inv:
  assumes inv: "sock_inv s" and pc: "r_pc s = RSelect"
  shows "sock_inv (addNewConn k s)" (is "sock_inv ?s")
proof (rule sock_invI)
  define k0 where "k0 = \<lparr>sock = k, peer_open = True, cnew = make_chan (length (refs s)),
           cold = make_chan (length (refs s)), outstanding = replicate (length (refs s)) False,
           c_pc = CSelect, h_pc = HRead\<rparr>"
  have fields: "conns ?s = conns s @ [k0]" "currentConns ?s = currentConns s @ [length (conns s)]"
    "numBlocks ?s = numBlocks s" "refs ?s = refs s" "status ?s = status s" "newBlocks ?s = newBlocks s"
    "blockIndex ?s = blockIndex s" "g_pc ?s = g_pc s" "r_pc ?s = r_pc s" "crashed ?s = crashed s"
    by (simp_all add: addNewConn_def k0_def)
  have c0: "chold k0 i = 0" for i
    by (simp add: chold_def k0_def make_chan_def)
  have h: "holders ?s i = holders s i" for i
    by (simp add: holders_def get_hold_def fields c0)
  have wf0: "conn_wf (numBlocks s) k0"
    using sock_invD(1) [OF inv] by (simp add: conn_wf_def k0_def make_chan_def shape_ok_def)
  have cur: "set (currentConns s) \<subseteq> {..<length (conns s)}"
    using sock_invD(1) [OF inv] by (simp add: shape_ok_def)
  show "shape_ok ?s"
    using sock_invD(1) [OF inv] wf0 cur pc by (auto simp: shape_ok_def fields)
  show "phases_ok ?s"
    unfolding phases_ok_def
  proof (intro conjI allI impI)
    fix c assume "c < length (conns ?s)"
    then consider "c < length (conns s)" | "c = length (conns s)" by (fastforce simp: fields less_Suc_eq)
    then show "phase_ok (r_pc ?s) (currentConns ?s) c (conns ?s ! c)"
    proof cases
      case 1
      then show ?thesis
        using phase_okD [OF inv 1] by (auto simp: phase_ok_def fields nth_append split: phase.splits)
    next
      case 2
      then show ?thesis
        by (simp add: phase_ok_def fields pc) (simp add: k0_def make_chan_def)
    qed
  qed (simp add: fields pc)
  show "counts_ok ?s"
    using sock_invD(3) [OF inv] by (simp add: counts_ok_def h fields)
  show "tokens_ok ?s"
    using sock_invD(4) [OF inv] pc by (simp add: tokens_ok_def token_ok_def get_hold_def h fields c0)
  show "no_panic ?s"
    using sock_invD(5) [OF inv] by (simp add: no_panic_def fields)
qed

text \<open>A change of \<^verbatim>\<open>run\<close>'s place that moves no reference, together with a change of one connection that
  moves none either.\<close>

lemma run_conn_tokens:
  assumes inv: "sock_inv s" and c: "c < length (conns s)" and hold: "\<And>i. chold k i = chold (conns s ! c) i"
    and rh: "\<And>i. run_hold (r_pc s') i = run_hold (r_pc s) i" and tg: "targets (r_pc s') = []"
    and eq: "numBlocks s' = numBlocks s" "refs s' = refs s" "newBlocks s' = newBlocks s"
      "blockIndex s' = blockIndex s" "g_pc s' = g_pc s" "conns s' = (conns s)[c := k]"
  shows "counts_ok s'" and "tokens_ok s'"
proof -
  have "(\<Sum>k\<leftarrow>(conns s)[c := k]. chold k i) = (\<Sum>k\<leftarrow>conns s. chold k i)" for i
    using sum_map_update [OF c, of "\<lambda>k. chold k i" k] hold [of i] by simp
  then have h: "holders s' i = holders s i" for i
    by (simp add: holders_def get_hold_def eq rh)
  then show "counts_ok s'"
    using sock_invD(3) [OF inv] by (simp add: counts_ok_def eq)
  have rb: "run_block (r_pc s') = Some i \<longleftrightarrow> run_block (r_pc s) = Some i" for i
    using run_hold_zero_iff [of "r_pc s" i] run_hold_zero_iff [of "r_pc s'" i] rh [of i] by auto
  have old: "conns s ! c \<in> set (conns s)" using c by simp
  show "tokens_ok s'"
    unfolding tokens_ok_def
  proof (intro allI impI)
    fix i assume "i < numBlocks s'"
    then have t: "token_ok s i" using tokens_okD [OF inv] eq by simp
    have same: "\<exists>k'' \<in> set (conns s). chold k' i = chold k'' i" if "k' \<in> set (conns s')" for k'
      using that eq(6) set_update_subset [of k' "conns s" c k] hold [of i] old by auto
    have g: "get_hold s' i = get_hold s i" by (simp add: get_hold_def eq)
    have "\<forall>k \<in> set (conns s'). chold k i \<le> 1"
      using same t unfolding token_ok_def by metis
    moreover have "\<forall>k \<in> set (conns s'). chold k i = 0"
      if "0 < get_hold s i + count_list (cbuf (newBlocks s)) i"
      using same t that unfolding token_ok_def by metis
    ultimately show "token_ok s' i"
      using t by (simp add: token_ok_def h rb eq g tg)
  qed
qed

lemma run_oldConn_inv:
  assumes inv: "sock_inv s" and st: "run_oldConn c s = Some s'"
  shows "sock_inv s'"
proof -
  let ?k = "(conns s ! c)\<lparr>c_pc := CDrainNew\<rparr>"
  have pc: "r_pc s = RSelect" and c: "c < length (conns s)" and cpc: "c_pc (conns s ! c) = CMarkOld"
    and s': "s' = (set_conn s c ?k)\<lparr>r_pc := RClose c\<rparr>"
    using st by (auto simp: run_oldConn_def split: if_splits)
  have k: "conn_wf (numBlocks s) ?k"
    using conn_wfD [OF inv c] by (simp add: conn_wf_def)
  have hold: "chold ?k i = chold (conns s ! c) i" for i
    using cpc by (simp add: chold_def)
  show ?thesis
  proof (rule sock_invI)
    show "shape_ok s'"
      using shape_ok_set_conn [OF sock_invD(1) [OF inv] k, of c] by (simp add: s' shape_ok_def)
    show "phases_ok s'"
      unfolding phases_ok_def
    proof (intro conjI allI impI)
      fix d assume "d < length (conns s')"
      then have d: "d < length (conns s)" by (simp add: s')
      show "phase_ok (r_pc s') (currentConns s') d (conns s' ! d)"
        using phase_okD [OF inv d] cpc pc c
        by (cases "d = c") (auto simp: s' phase_ok_def split: phase.splits)
    qed (use c in \<open>auto simp: s'\<close>)
    show "counts_ok s'" "tokens_ok s'"
      using run_conn_tokens [OF inv c hold, of s'] pc by (simp_all add: s')
    show "no_panic s'"
      using sock_invD(5) [OF inv] by (simp add: no_panic_def s')
  qed
qed

lemma run_close_inv:
  assumes inv: "sock_inv s" and pc: "r_pc s = RClose c" and st: "run_step s = Some s'"
  shows "sock_inv s'"
proof -
  have c: "c < length (conns s)"
    using sock_invD(2) [OF inv] pc by (simp add: phases_ok_def)
  have ph: "pc_phase (c_pc (conns s ! c)) = Draining" "c \<in> set (currentConns s)" "\<not> cclosed (cnew (conns s ! c))"
    using phase_okD [OF inv c] pc by (auto simp: phase_ok_def split: phase.splits)
  then obtain ch where cl: "chan_close (cnew (conns s ! c)) = Some ch"
    by (cases "chan_close (cnew (conns s ! c))") auto
  note ch = chan_close_SomeD [OF cl]
  let ?k = "(conns s ! c)\<lparr>cnew := ch\<rparr>"
  have s': "s' = (set_conn s c ?k)\<lparr>currentConns := filter (\<lambda>d. d \<noteq> c) (currentConns s), r_pc := RSelect\<rparr>"
    using st pc cl by (simp add: run_step_def)
  have k: "conn_wf (numBlocks s) ?k"
    using conn_wfD [OF inv c] ch by (simp add: conn_wf_def)
  have hold: "chold ?k i = chold (conns s ! c) i" for i
    using ch by (simp add: chold_def)
  show ?thesis
  proof (rule sock_invI)
    show "shape_ok s'"
      using shape_ok_set_conn [OF sock_invD(1) [OF inv] k, of c] by (auto simp: s' shape_ok_def)
    show "phases_ok s'"
      unfolding phases_ok_def
    proof (intro conjI allI impI)
      fix d assume "d < length (conns s')"
      then have d: "d < length (conns s)" by (simp add: s')
      show "phase_ok (r_pc s') (currentConns s') d (conns s' ! d)"
        using phase_okD [OF inv d] pc c ph ch
        by (cases "d = c") (auto simp: s' phase_ok_def split: phase.splits)
    qed (simp add: s')
    show "counts_ok s'" "tokens_ok s'"
      using run_conn_tokens [OF inv c hold, of s'] pc by (simp_all add: s')
    show "no_panic s'"
      using sock_invD(5) [OF inv] by (simp add: no_panic_def s')
  qed
qed

lemma run_newBlock_inv:
  assumes inv: "sock_inv s" and st: "run_newBlock order s = Some s'"
  shows "sock_inv s'"
proof -
  have pc: "r_pc s = RSelect" and ord: "distinct order" "set order = set (currentConns s)"
    using st by (auto simp: run_newBlock_def split: if_splits)
  have op: "\<not> cclosed (newBlocks s)"
    using sock_invD(1) [OF inv] by (simp add: shape_ok_def)
  with st pc ord obtain b ch where rv: "chan_recv (newBlocks s) = RecvVal b ch"
    and s': "s' = s\<lparr>newBlocks := ch, r_pc := RRange b order\<rparr>"
    by (auto simp: run_newBlock_def chan_recv_zero split: recv_res.splits)
  note ch = chan_recv_ValD [OF rv]
  have q: "count_list (cbuf (newBlocks s)) i = count_list (cbuf ch) i + of_bool (i = b)" for i
    using ch by simp
  have g: "get_hold s' i = get_hold s i" for i
    by (simp add: s' get_hold_def)
  have h: "holders s' i = holders s i" for i
    using q [of i] g [of i] by (simp add: holders_def s' pc)
  have cur: "set (currentConns s) \<subseteq> {..<length (conns s)}"
    using sock_invD(1) [OF inv] by (simp add: shape_ok_def)
  show ?thesis
  proof (rule sock_invI)
    show "shape_ok s'"
      using sock_invD(1) [OF inv] ch ord by (auto simp: s' shape_ok_def)
    show "phases_ok s'"
      using sock_invD(2) [OF inv] pc by (auto simp: s' phases_ok_def phase_ok_def split: phase.splits)
    show "counts_ok s'"
      using sock_invD(3) [OF inv] h by (simp add: counts_ok_def s')
    show "no_panic s'"
      using sock_invD(5) [OF inv] by (simp add: no_panic_def s')
    show "tokens_ok s'"
      unfolding tokens_ok_def
    proof (intro allI impI)
      fix i assume "i < numBlocks s'"
      then have t: "token_ok s i" using tokens_okD [OF inv] by (simp add: s')
      have "chold (conns s ! c) i = 0" if "b = i" "c \<in> set order" for c
      proof -
        have "conns s ! c \<in> set (conns s)" using that(2) ord(2) cur by auto
        then show ?thesis using t q [of i] that(1) by (simp add: token_ok_def)
      qed
      then show "token_ok s' i"
        using t q [of i] pc by (cases "i = b") (simp_all add: token_ok_def g h, simp_all add: s')
    qed
  qed
qed

lemma run_final_inv:
  assumes inv: "sock_inv s" and few: "few_conns s" and pc: "r_pc s = RRange b []"
  shows "sock_inv (run_unref s b RSelect)"
proof -
  have b: "b < numBlocks s" "length (refs s) = numBlocks s"
    using sock_invD(1) [OF inv] pc by (simp_all add: shape_ok_def)
  have pos: "0 < holders s b" by (simp add: holders_def pc)
  note un = unref_held [OF inv few b(1) pos]
  have "sock_inv ((dec_block s b)\<lparr>r_pc := pc'\<rparr>)" (is "sock_inv ?s") if "pc' \<in> {RSelect, RClear b RSelect}" for pc'
  proof (rule sock_invI)
    have rp: "run_hold pc' i = 0" "run_block pc' = None" "targets pc' = []" "run_wf (numBlocks s) pc'"
      "pc' \<noteq> RClose c" for i c
      using that b by auto
    have g: "get_hold ?s i = get_hold s i" for i by (simp add: get_hold_def)
    have h: "holders ?s i + of_bool (i = b) = holders s i" for i
      using g [of i] by (simp add: holders_def rp pc)
    have le: "holders s i = 0 \<Longrightarrow> holders ?s i = 0" for i
      using h [of i] by simp
    show "shape_ok ?s"
      using sock_invD(1) [OF inv] by (simp add: shape_ok_def rp)
    show "phases_ok ?s"
      using sock_invD(2) [OF inv] pc rp by (simp add: phases_ok_def phase_ok_def cong: phase.case_cong)
    show "counts_ok ?s"
      unfolding counts_ok_def
    proof (intro allI impI)
      fix i assume "i < numBlocks ?s"
      then have i: "i < numBlocks s" by simp
      show "refs ?s ! i = of_nat (holders ?s i)"
      proof (cases "i = b")
        case True
        with h [of b] have "holders ?s i = holders s b - 1" by simp
        with True un b show ?thesis by simp
      next
        case False
        with h [of i] have "holders ?s i = holders s i" by simp
        with False counts_okD [OF inv i] show ?thesis by simp
      qed
    qed
    show "tokens_ok ?s"
      using sock_invD(4) [OF inv] le by (auto simp: tokens_ok_def token_ok_def g rp)
    show "no_panic ?s"
      using sock_invD(5) [OF inv] by (simp add: no_panic_def)
  qed
  then show ?thesis
    using un by (auto simp: run_unref_def)
qed

lemma run_ref_inv:
  assumes inv: "sock_inv s" and pc: "r_pc s = RRange b (c # todo)"
  shows "sock_inv ((ref_block s b)\<lparr>r_pc := RSend b c todo\<rparr>)" (is "sock_inv ?s")
proof (rule sock_invI)
  have b: "b < numBlocks s" "length (refs s) = numBlocks s"
    using sock_invD(1) [OF inv] pc by (simp_all add: shape_ok_def)
  have g: "get_hold ?s i = get_hold s i" for i by (simp add: get_hold_def)
  have h: "holders ?s i = holders s i + of_bool (i = b)" for i
    using g [of i] by (simp add: holders_def pc)
  have pos: "0 < holders s b" by (simp add: holders_def pc)
  show "shape_ok ?s"
    using sock_invD(1) [OF inv] pc by (simp add: shape_ok_def)
  show "phases_ok ?s"
    using sock_invD(2) [OF inv] pc by (simp add: phases_ok_def phase_ok_def cong: phase.case_cong)
  show "counts_ok ?s"
    unfolding counts_ok_def
  proof (intro allI impI)
    fix i assume "i < numBlocks ?s"
    then have i: "i < numBlocks s" by simp
    show "refs ?s ! i = of_nat (holders ?s i)"
      using counts_okD [OF inv i] b rc.inc_rep [of "holders s b"] h [of i]
      by (cases "i = b") simp_all
  qed
  show "tokens_ok ?s"
    unfolding tokens_ok_def
  proof (intro allI impI)
    fix i assume "i < numBlocks ?s"
    then have t: "token_ok s i" using tokens_okD [OF inv] by simp
    then have "g_pc s \<in> {GStatus, GRef} \<and> blockIndex s = i \<longrightarrow> i \<noteq> b \<and> holders s i = 0"
      using pos by (auto simp: token_ok_def)
    with t pc show "token_ok ?s i"
      by (simp add: token_ok_def g h)
  qed
  show "no_panic ?s"
    using sock_invD(5) [OF inv] by (simp add: no_panic_def)
qed

lemma distinct_if_count: "(\<And>x. count_list xs x \<le> 1) \<Longrightarrow> distinct xs"
proof (induction xs)
  case (Cons x xs)
  have "count_list xs x = 0" using Cons.prems [of x] by simp
  moreover have "count_list xs y \<le> 1" for y using Cons.prems [of y] by (simp split: if_splits)
  ultimately show ?case using Cons.IH by (simp add: count_list_eq_0)
qed simp

text \<open>The channel of a client that is about to be served has room: its capacity is the number of blocks,
  it holds every block at most once, and it does not hold this one.\<close>

lemma run_send_room:
  assumes inv: "sock_inv s" and pc: "r_pc s = RSend b c todo"
  shows "\<exists>ch. chan_send (cnew (conns s ! c)) b = SendOk ch"
proof -
  have b: "b < numBlocks s" and cur: "c \<in> set (currentConns s)" and c: "c < length (conns s)"
    using sock_invD(1) [OF inv] pc by (auto simp: shape_ok_def)
  let ?k = "conns s ! c"
  have k: "conn_wf (numBlocks s) ?k" by (rule conn_wfD [OF inv c])
  have op: "\<not> cclosed (cnew ?k)"
    using phase_okD [OF inv c] cur pc by (auto simp: phase_ok_def split: phase.splits)
  have cnt: "count_list (cbuf (cnew ?k)) x \<le> 1" for x
  proof (cases "x < numBlocks s")
    case True
    then have "chold ?k x \<le> 1" using tokens_okD [OF inv] c by (simp add: token_ok_def)
    then show ?thesis by (simp add: chold_def)
  next
    case False
    with k have "x \<notin> set (cbuf (cnew ?k))" by (auto simp: conn_wf_def)
    then show ?thesis by (simp add: count_list_eq_0 [symmetric])
  qed
  have "chold ?k b = 0"
    using tokens_okD [OF inv b] pc by (simp add: token_ok_def)
  then have nb: "b \<notin> set (cbuf (cnew ?k))"
    by (simp add: chold_def count_list_eq_0)
  have "\<exists>ch. chan_put (cnew ?k) b = Some ch"
    using k nb b op distinct_if_count [OF cnt]
    by (intro gc.put_distinct [where A = "{..<numBlocks s}"]) (auto simp: conn_wf_def)
  then show ?thesis by (simp add: chan_send_put)
qed

lemma run_send_inv:
  assumes inv: "sock_inv s" and pc: "r_pc s = RSend b c todo"
    and send: "chan_send (cnew (conns s ! c)) b = SendOk ch"
  shows "sock_inv ((set_conn s c ((conns s ! c)\<lparr>cnew := ch\<rparr>))\<lparr>r_pc := RRange b todo\<rparr>)" (is "sock_inv ?s")
proof (rule sock_invI)
  let ?k = "conns s ! c" let ?k' = "?k\<lparr>cnew := ch\<rparr>"
  have b: "b < numBlocks s" and cur: "c \<in> set (currentConns s)" and c: "c < length (conns s)"
    and ct: "c \<notin> set todo"
    using sock_invD(1) [OF inv] pc by (auto simp: shape_ok_def)
  note ch = chan_send_OkD [OF send]
  have k: "conn_wf (numBlocks s) ?k'"
    using conn_wfD [OF inv c] ch b by (auto simp: conn_wf_def)
  have hold: "chold ?k' i = chold ?k i + of_bool (i = b)" for i
    using ch by (simp add: chold_def)
  have g: "get_hold ?s i = get_hold s i" for i by (simp add: get_hold_def)
  have h: "holders ?s i = holders s i" for i
  proof -
    have "(\<Sum>k\<leftarrow>(conns s)[c := ?k']. chold k i) = (\<Sum>k\<leftarrow>conns s. chold k i) + of_bool (i = b)"
      using sum_map_update [OF c, of "\<lambda>k. chold k i" ?k'] hold [of i] by simp
    with g [of i] pc show ?thesis by (simp add: holders_def)
  qed
  show "shape_ok ?s"
    using shape_ok_set_conn [OF sock_invD(1) [OF inv] k, of c] pc by (simp add: shape_ok_def)
  show "phases_ok ?s"
    unfolding phases_ok_def
  proof (intro conjI allI impI)
    fix d assume "d < length (conns ?s)"
    then have d: "d < length (conns s)" by simp
    show "phase_ok (r_pc ?s) (currentConns ?s) d (conns ?s ! d)"
      using phase_okD [OF inv d] pc c ch cur
      by (cases "d = c") (auto simp: phase_ok_def split: phase.splits)
  qed simp
  show "counts_ok ?s"
    using sock_invD(3) [OF inv] by (simp add: counts_ok_def h)
  show "no_panic ?s"
    using sock_invD(5) [OF inv] by (simp add: no_panic_def)
  show "tokens_ok ?s"
    unfolding tokens_ok_def
  proof (intro allI impI)
    fix i assume "i < numBlocks ?s"
    then have t: "token_ok s i" using tokens_okD [OF inv] by simp
    show "token_ok ?s i"
    proof (cases "i = b")
      case True
      have z: "chold ?k b = 0" "get_hold s b + count_list (cbuf (newBlocks s)) b = 0"
        using t True pc by (simp_all add: token_ok_def)
      have "chold k i \<le> 1" if "k \<in> set (conns ?s)" for k
        using set_update_subset [of k "conns s" c ?k'] that t True hold [of b] z
        by (auto simp: token_ok_def)
      moreover have "chold (conns ?s ! d) i = 0" if "d \<in> set todo" for d
        using that t ct True pc by (cases "d = c") (auto simp: token_ok_def)
      ultimately show ?thesis
        using t z True pc h [of i] by (simp add: token_ok_def g)
    next
      case False
      have old: "conns s ! c \<in> set (conns s)" using c by simp
      have "\<exists>k' \<in> set (conns s). chold k i = chold k' i" if "k \<in> set (conns ?s)" for k
        using set_update_subset [of k "conns s" c ?k'] that hold [of i] False old by auto
      then have "\<forall>k \<in> set (conns ?s). chold k i \<le> 1"
        and "0 < get_hold s i + count_list (cbuf (newBlocks s)) i \<Longrightarrow> \<forall>k \<in> set (conns ?s). chold k i = 0"
        using t unfolding token_ok_def by metis+
      then show ?thesis
        using t False pc h [of i] by (simp add: token_ok_def g)
    qed
  qed
qed

lemma run_clear_inv:
  assumes inv: "sock_inv s" and pc: "r_pc s = RClear b pc'"
  shows "sock_inv ((clear_block s b)\<lparr>r_pc := pc'\<rparr>)" (is "sock_inv ?s")
proof (rule sock_invI)
  have pc': "pc' = RSelect"
    using sock_invD(1) [OF inv] pc by (simp add: shape_ok_def)
  have g: "get_hold ?s i = get_hold s i" for i by (simp add: get_hold_def clear_block_def)
  have h: "holders ?s i = holders s i" for i
    using g [of i] by (simp add: holders_def pc pc' clear_block_def)
  show "shape_ok ?s"
    using sock_invD(1) [OF inv] pc pc' by (simp add: shape_ok_def clear_block_def)
  show "phases_ok ?s"
    using sock_invD(2) [OF inv] pc pc'
    by (simp add: phases_ok_def phase_ok_def clear_block_def cong: phase.case_cong)
  show "counts_ok ?s"
    using sock_invD(3) [OF inv] h by (simp add: counts_ok_def clear_block_def)
  show "tokens_ok ?s"
    using sock_invD(4) [OF inv] pc pc' g h by (simp add: tokens_ok_def token_ok_def clear_block_def)
  show "no_panic ?s"
    using sock_invD(5) [OF inv] by (simp add: no_panic_def clear_block_def)
qed

lemma run_step_inv:
  assumes inv: "sock_inv s" and few: "few_conns s" and st: "run_step s = Some s'"
  shows "sock_inv s'"
proof (cases "r_pc s")
  case (RClose c)
  then show ?thesis using run_close_inv [OF inv _ st] by simp
next
  case (RRange b todo)
  with st run_final_inv [OF inv few, of b] run_ref_inv [OF inv, of b] show ?thesis
    by (cases todo) (auto simp: run_step_def)
next
  case (RSend b c todo)
  with st run_send_room [OF inv RSend] run_send_inv [OF inv RSend] show ?thesis
    by (auto simp: run_step_def)
next
  case (RUnsend b todo)
  then show ?thesis using sock_invD(1) [OF inv] by (simp add: shape_ok_def)
next
  case (RClear b pc)
  with st run_clear_inv [OF inv] show ?thesis by (simp add: run_step_def)
qed (use st in \<open>simp add: run_step_def\<close>)

section \<open>Every step, every reachable state\<close>

lemma exec_inv:
  assumes "sock_inv s" and "few_conns s" and "exec e s = Some s'"
  shows "sock_inv s'"
proof (cases e)
  case (EConn c)
  then show ?thesis using assms conn_step_inv by (auto simp: on_conn_def split: if_splits)
next
  case (ENewConn k)
  then show ?thesis using assms addNewConn_inv by (auto simp: run_newConn_def split: if_splits)
qed (use assms in \<open>auto simp: on_conn_def split: if_splits
    intro: kernel_step_inv getNewBlocks_step_inv getNewBlocks_fail_inv run_oldConn_inv run_newBlock_inv
      run_step_inv conn_newBlock_inv conn_oldBlock_inv reads_step_inv client_inv\<close>)

lemma init_inv: "0 < n \<Longrightarrow> sock_inv (init_socket n)"
  by (simp add: sock_inv_def shape_ok_def phases_ok_def counts_ok_def tokens_ok_def token_ok_def no_panic_def
      init_socket_def make_chan_def holders_def get_hold_def)

end
