(* ===== verification/Socket_Safe.thy ===== *)
theory Socket_Safe
  imports Socket_Run
begin

text \<open>
  What the invariant says of the running daemon: reference counts are exact, no goroutine panics, no
  client is skipped or served twice, nothing leaks, and the distributing goroutine always returns to
  its \<^verbatim>\<open>select\<close>.
\<close>

section \<open>Reachable states\<close>

lemma length_conns_simps [simp]:
  "length (conns (set_crash s e)) = length (conns s)"
  "length (conns (conn_unref s c b pc)) = length (conns s)"
  "length (conns (conn_take s c ch out b)) = length (conns s)"
  "length (conns (run_unref s b k)) = length (conns s)"
  "length (conns (clear_block s b)) = length (conns s)"
  by (simp_all add: set_crash_def conn_unref_def conn_take_def run_unref_def clear_block_def Let_def
      split: unref_out.split)

lemma numBlocks_simps [simp]:
  "numBlocks (set_crash s e) = numBlocks s"
  "numBlocks (conn_unref s c b pc) = numBlocks s"
  "numBlocks (conn_take s c ch out b) = numBlocks s"
  "numBlocks (run_unref s b k) = numBlocks s"
  "numBlocks (clear_block s b) = numBlocks s"
  by (simp_all add: set_crash_def conn_unref_def conn_take_def run_unref_def clear_block_def Let_def
      split: unref_out.split)

lemmas step_defs =
  kernel_step_def getNewBlocks_step_def getNewBlocks_fail_def run_newConn_def run_oldConn_def
  run_newBlock_def run_step_def conn_newBlock_def conn_oldBlock_def conn_step_def reads_step_def
  client_send_def client_hangup_def addNewConn_def on_conn_def

lemma exec_frame:
  assumes "exec e s = Some s'"
  shows "length (conns s) \<le> length (conns s') \<and> numBlocks s' = numBlocks s"
  using assms
  by (cases e) (auto simp: step_defs Let_def split: if_splits get_pc.splits run_pc.splits list.splits
      conn_pc.splits reads_pc.splits send_res.splits recv_res.splits option.splits prod.splits
      read_out.splits)

lemma reach_inv:
  assumes "reach n s" and "0 < n" and "few_conns s"
  shows "sock_inv s \<and> numBlocks s = n"
  using assms
proof (induction rule: reach.induct)
  case start
  then show ?case by (simp add: init_inv) (simp add: init_socket_def)
next
  case (next_step s e s')
  then have ex: "exec e s = Some s'" by (simp add: step_def split: if_splits)
  with next_step.prems(2) have "few_conns s"
    using exec_frame [of e s s'] by (simp add: few_conns_def)
  with next_step ex show ?case
    using exec_inv exec_frame by blast
qed

section \<open>A run that serves one client\<close>

text \<open>The kernel fills block 0 of two, and the daemon hands it to its only client.\<close>

definition demo_conn :: uconn where
  "demo_conn = \<lparr>rchunks = [], rfin = EOF, wbytes = [], wfds = [], wroom = None, uclosed = False\<rparr>"

definition demo_queue :: "event list" where
  "demo_queue = [ENewConn demo_conn, EKernel 0 1, EGet, EGet, EGet, EGet]"

definition demo_deliver :: "event list" where
  "demo_deliver = demo_queue @ [ENewBlock [0], ERun, ERun, ERun, EConnNew 0, EConn 0, EConn 0]"

definition demo_client :: conn where
  "demo_client =
     \<lparr>sock = demo_conn, peer_open = True, cnew = make_chan 2, cold = make_chan 2,
      outstanding = [False, False], c_pc = CSelect, h_pc = HRead\<rparr>"

definition demo_queued :: socket where
  "demo_queued =
     \<lparr>numBlocks = 2, refs = [1, 0], status = [1, 0],
      newBlocks = \<lparr>cbuf = [0], ccap = 2, cclosed = False\<rparr>, blockIndex = 1, g_pc = GLoad,
      r_pc = RSelect, currentConns = [0], conns = [demo_client], crashed = None\<rparr>"

definition demo_delivered :: socket where
  "demo_delivered =
     \<lparr>numBlocks = 2, refs = [1, 0], status = [1, 0], newBlocks = make_chan 2, blockIndex = 1,
      g_pc = GLoad, r_pc = RSelect, currentConns = [0],
      conns = [demo_client\<lparr>sock := demo_conn\<lparr>wbytes := [0, 0, 0, 0]\<rparr>, outstanding := [True, False]\<rparr>],
      crashed = None\<rparr>"

lemma demo_queue_run: "run_events demo_queue (init_socket 2) = Some demo_queued"
  by code_simp

lemma demo_deliver_run: "run_events demo_deliver (init_socket 2) = Some demo_delivered"
  by code_simp

lemma demo_reach: "reach 2 demo_queued" "reach 2 demo_delivered"
  using run_events_reach [OF reach.start demo_queue_run] run_events_reach [OF reach.start demo_deliver_run]
  by simp_all

lemma demo_few: "few_conns demo_queued" "few_conns demo_delivered"
  by (simp_all add: few_conns_def max_refs_def demo_queued_def demo_delivered_def)

text \<open>A client that hangs up while it holds block 0.\<close>

definition demo_leaving :: socket where
  "demo_leaving =
     demo_delivered\<lparr>conns :=
       [demo_client\<lparr>sock := demo_conn\<lparr>wbytes := [0, 0, 0, 0]\<rparr>, peer_open := False,
                    cold := \<lparr>cbuf = [], ccap = 2, cclosed = True\<rparr>, outstanding := [True, False],
                    c_pc := CClose, h_pc := HDone\<rparr>]\<rparr>"

lemma demo_leaving_run:
  "run_events [EHangup 0, EReads 0, EReads 0, EConnOld 0] demo_delivered = Some demo_leaving"
  by code_simp

lemma demo_leaving_reach: "reach 2 demo_leaving" "few_conns demo_leaving"
  using run_events_reach [OF demo_reach(2) demo_leaving_run]
  by (simp_all add: few_conns_def max_refs_def demo_leaving_def)

text \<open>Its connection is shut down; block 0 goes back to the kernel.\<close>

definition demo_gone :: socket where
  "demo_gone =
     demo_delivered\<lparr>refs := [0, 0], status := [0, 0], currentConns := [], conns :=
       [demo_client\<lparr>sock := demo_conn\<lparr>wbytes := [0, 0, 0, 0], uclosed := True\<rparr>, peer_open := False,
                    cnew := \<lparr>cbuf = [], ccap = 2, cclosed = True\<rparr>,
                    cold := \<lparr>cbuf = [], ccap = 2, cclosed = True\<rparr>, outstanding := [True, False],
                    c_pc := CDone, h_pc := HDone\<rparr>]\<rparr>"

lemma demo_gone_run:
  "run_events ([EConn 0, EOldConn 0, ERun] @ replicate 6 (EConn 0)) demo_leaving = Some demo_gone"
  by code_simp

lemma demo_gone_reach: "reach 2 demo_gone" "few_conns demo_gone"
  using run_events_reach [OF demo_leaving_reach(1) demo_gone_run]
  by (simp_all add: few_conns_def max_refs_def demo_gone_def)

section \<open>Reference counts and panics\<close>

text \<open>C1: in every state that the daemon can reach, with the goroutines interleaved in any way, the
  reference counter of a block, read as the signed \<^verbatim>\<open>int32\<close> it is, equals the number of places that hold the
  block: \<^verbatim>\<open>getNewBlocks\<close> before its send, the socket's channel, \<^verbatim>\<open>run\<close> while it distributes the block,
  each client's channel, each client's outstanding entry, and the goroutines about to give the block up.\<close>

theorem refcount_exact:
  assumes "reach n s" and "0 < n" and "few_conns s" and "i < n"
  shows "sint (refs s ! i) = int (holders s i)"
proof -
  have inv: "sock_inv s" and n: "numBlocks s = n"
    using reach_inv [OF assms(1-3)] by auto
  have "holders s i < max_refs"
    using holders_few [OF inv assms(3)] assms(4) n by simp
  then show ?thesis
    using counts_okD [OF inv] assms(4) n sint_of_nat32 [of "holders s i"] by (simp add: max_refs_def)
qed

theorem refcount_exact_witness: "sint (refs demo_delivered ! 0) = int (holders demo_delivered 0)"
  using refcount_exact [OF demo_reach(2) _ demo_few(2), of 0] by simp

text \<open>C2: no goroutine of the socket ever panics or aborts the process.  The panic of \<^verbatim>\<open>unref\<close> on a
  negative count, the fatal error of \<^verbatim>\<open>conn.run\<close> on an already outstanding block, a send on a closed
  channel, a second close of a channel, a nil block and an index out of range are all unreachable; the
  only abort left is the one for a failing \<^verbatim>\<open>select\<close> system call.\<close>

theorem daemon_never_panics:
  assumes "reach n s" and "0 < n" and "few_conns s"
  shows "crashed s = None \<or> (\<exists>errno. crashed s = Some (WaitFailed errno))"
  using reach_inv [OF assms] by (simp add: sock_inv_def no_panic_def)

theorem daemon_never_panics_witness:
  "crashed demo_delivered = None \<or> (\<exists>errno. crashed demo_delivered = Some (WaitFailed errno))"
  by (rule daemon_never_panics [OF demo_reach(2) _ demo_few(2)]) simp

text \<open>No client holds a block twice, counting its channel, its outstanding blocks and a block its goroutine
  is giving up; and while a block is still on its way to the clients no client holds it.\<close>

theorem client_holds_once:
  assumes "reach n s" and "0 < n" and "few_conns s" and "i < n" and "c < length (conns s)"
  shows "chold (conns s ! c) i \<le> 1 \<and>
         (i \<in> set (cbuf (newBlocks s)) \<longrightarrow> chold (conns s ! c) i = 0)"
proof -
  have "token_ok s i"
    using reach_inv [OF assms(1-3)] assms(4) tokens_okD by auto
  then show ?thesis
    using assms(5) count_list_eq_0 [of "cbuf (newBlocks s)" i] by (auto simp: token_ok_def)
qed

theorem client_holds_once_witness: "chold (conns demo_queued ! 0) 0 = 0"
  using client_holds_once [OF demo_reach(1) _ demo_few(1), of 0 0] by (simp add: demo_queued_def)

text \<open>\<^verbatim>\<open>run\<close> never fails to send a block: the default branch that drops the block for a slow client is
  not reached, because a client's channel has room for every block it does not hold.\<close>

theorem no_block_dropped:
  assumes "reach n s" and "0 < n" and "few_conns s"
  shows "r_pc s \<noteq> RUnsend b todo"
  using reach_inv [OF assms] by (auto simp: sock_inv_def shape_ok_def)

theorem no_block_dropped_witness: "r_pc demo_delivered \<noteq> RUnsend 0 []"
  by (rule no_block_dropped [OF demo_reach(2) _ demo_few(2)]) simp



end
