(* ===== verification/Socket_Live.thy ===== *)
theory Socket_Live
  imports Socket_Safe
begin

text \<open>
  Progress of the goroutines of a socket: \<^verbatim>\<open>run\<close> delivers a new block to every registered client and
  always comes back to its \<^verbatim>\<open>select\<close>, and a client that is being shut down can always be shut down to
  the end.  Blocks travel to every client in ring order.
\<close>

section \<open>Runs\<close>

lemma run_events_append:
  "run_events (es @ fs) s = (case run_events es s of None \<Rightarrow> None | Some s' \<Rightarrow> run_events fs s')"
  by (induction es arbitrary: s) (auto split: option.split)

lemma exec_same_conns:
  assumes "exec e s = Some s'" and "\<And>k. e \<noteq> ENewConn k"
  shows "length (conns s') = length (conns s)"
  using assms
  by (cases e) (auto simp: step_defs Let_def split: if_splits get_pc.splits run_pc.splits list.splits
      conn_pc.splits reads_pc.splits send_res.splits recv_res.splits option.splits prod.splits
      read_out.splits)

lemma step_few:
  assumes "step e s = Some s'" and "\<And>k. e \<noteq> ENewConn k" and "few_conns s"
  shows "few_conns s'"
  using exec_same_conns [of e s s'] assms by (simp add: step_def few_conns_def split: if_splits)

lemma run_events_few:
  assumes "run_events es s = Some s'" and "\<And>k. ENewConn k \<notin> set es" and "few_conns s"
  shows "few_conns s'"
  using assms
proof (induction es arbitrary: s)
  case (Cons e es)
  then show ?case
    using step_few [of e s] by (fastforce split: option.splits)
qed simp

lemma run_events_conns: "run_events es s = Some s' \<Longrightarrow> length (conns s) \<le> length (conns s')"
proof (induction es arbitrary: s)
  case (Cons e es)
  then show ?case
    by (fastforce simp: step_def split: option.splits if_splits dest: exec_frame)
qed simp

lemma run_events_inv:
  assumes "run_events es s = Some s'" and "sock_inv s" and "few_conns s'"
  shows "sock_inv s'"
  using assms
proof (induction es arbitrary: s)
  case (Cons e es)
  then obtain t where t: "exec e s = Some t" "run_events es t = Some s'"
    by (auto simp: step_def split: option.splits if_splits)
  with Cons.prems(3) have "few_conns s"
    using exec_frame [OF t(1)] run_events_conns [OF t(2)] by (simp add: few_conns_def)
  then show ?case
    using Cons.IH [OF t(2)] exec_inv [OF _ _ t(1)] Cons.prems by blast
qed simp

section \<open>Distribution of a block\<close>

text \<open>What the range loop over the clients does with block \<open>b\<close>: each client that is still to be served
  gets it at the end of its channel, nothing else of the clients changes.\<close>

definition served :: "nat \<Rightarrow> nat list \<Rightarrow> socket \<Rightarrow> socket \<Rightarrow> bool" where
  "served b todo s s' \<longleftrightarrow>
     currentConns s' = currentConns s \<and> newBlocks s' = newBlocks s \<and> status s' = status s \<and>
     length (conns s') = length (conns s) \<and> crashed s' = crashed s \<and>
     (\<forall>c < length (conns s). conns s' ! c =
        (if c \<in> set todo
         then (conns s ! c)\<lparr>cnew := (cnew (conns s ! c))\<lparr>cbuf := cbuf (cnew (conns s ! c)) @ [b]\<rparr>\<rparr>
         else conns s ! c))"

lemma run_range:
  assumes "sock_inv s" and "few_conns s" and "crashed s = None" and "r_pc s = RRange b todo"
  shows "\<exists>s'. run_events (replicate (2 * length todo) ERun) s = Some s' \<and>
           r_pc s' = RRange b [] \<and> served b todo s s'"
  using assms
proof (induction todo arbitrary: s)
  case Nil
  then show ?case by (simp add: served_def)
next
  case (Cons c todo)
  define s1 where "s1 = (ref_block s b)\<lparr>r_pc := RSend b c todo\<rparr>"
  have st1: "step ERun s = Some s1"
    using Cons.prems by (simp add: step_def run_step_def s1_def)
  have few1: "few_conns s1" using Cons.prems(2) by (simp add: s1_def few_conns_def)
  have inv1: "sock_inv s1"
    using exec_inv [of s ERun s1] st1 Cons.prems by (simp add: step_def)
  have pc1: "r_pc s1 = RSend b c todo" by (simp add: s1_def)
  obtain ch where ch: "chan_send (cnew (conns s1 ! c)) b = SendOk ch"
    using run_send_room [OF inv1 pc1] by blast
  define s2 where "s2 = (set_conn s1 c ((conns s1 ! c)\<lparr>cnew := ch\<rparr>))\<lparr>r_pc := RRange b todo\<rparr>"
  have st2: "step ERun s1 = Some s2"
    using ch pc1 Cons.prems(3) by (simp add: step_def run_step_def s2_def s1_def)
  have few2: "few_conns s2" using few1 by (simp add: s2_def few_conns_def)
  have inv2: "sock_inv s2"
    using exec_inv [of s1 ERun s2] st2 inv1 few1 Cons.prems(3) by (simp add: step_def s1_def)
  obtain s' where s': "run_events (replicate (2 * length todo) ERun) s2 = Some s'"
      "r_pc s' = RRange b []" "served b todo s2 s'"
    using Cons.IH [OF inv2 few2] Cons.prems(3) by (auto simp: s2_def s1_def)
  have c: "c < length (conns s)" "c \<notin> set todo"
    using sock_invD(1) [OF Cons.prems(1)] Cons.prems(4) by (auto simp: shape_ok_def)
  have "served b (c # todo) s s'"
    using s'(3) c ch
    by (auto simp: served_def s2_def s1_def nth_list_update chan_send_def split: if_splits)
  with s' st1 st2 show ?case by auto
qed

lemma run_range_back:
  assumes "sock_inv s" and "few_conns s" and "crashed s = None" and "r_pc s = RRange b todo"
  shows "\<exists>k s'. run_events (replicate k ERun) s = Some s' \<and> r_pc s' = RSelect \<and> crashed s' = None"
proof -
  obtain t where t: "run_events (replicate (2 * length todo) ERun) s = Some t"
      "r_pc t = RRange b []" "served b todo s t"
    using run_range [OF assms] by blast
  have few: "few_conns t" and cr: "crashed t = None"
    using t(3) assms(2,3) by (simp_all add: served_def few_conns_def)
  have inv: "sock_inv t" using run_events_inv [OF t(1) assms(1) few] .
  have b: "b < numBlocks t"
    using sock_invD(1) [OF inv] t(2) by (simp add: shape_ok_def)
  have "snd (unref (refs t ! b)) \<noteq> InvalidUnrefPanic"
    using unref_held [OF inv few b] t(2) by (auto simp: holders_def)
  then have "\<exists>j s'. run_events (replicate j ERun) t = Some s' \<and> r_pc s' = RSelect \<and> crashed s' = None"
    using t(2) cr
    by (cases "snd (unref (refs t ! b))")
       (auto simp: step_def run_step_def run_unref_def clear_block_def intro: exI [of _ "Suc 0"] exI [of _ "Suc (Suc 0)"])
  then obtain j s' where "run_events (replicate j ERun) t = Some s'" "r_pc s' = RSelect" "crashed s' = None"
    by blast
  with t(1) show ?thesis
    by (intro exI [of _ "2 * length todo + j"]) (simp add: replicate_add run_events_append)
qed

lemma run_events_one: "step e s = Some t \<Longrightarrow> run_events [e] s = Some t"
  by simp

lemma run_back_after:
  assumes "step ERun s = Some t" and "run_events (replicate k ERun) t = Some s'"
  shows "run_events (replicate (Suc k) ERun) s = Some s'"
  using assms by simp

lemma run_to_select:
  assumes inv: "sock_inv s" and few: "few_conns s" and cr: "crashed s = None"
  shows "\<exists>k s'. run_events (replicate k ERun) s = Some s' \<and> r_pc s' = RSelect \<and> crashed s' = None"
proof (cases "r_pc s")
  case RSelect
  with cr show ?thesis by (intro exI [of _ 0]) simp
next
  case (RClose c)
  have "c < length (conns s)" using sock_invD(2) [OF inv] RClose by (simp add: phases_ok_def)
  then have "\<not> cclosed (cnew (conns s ! c))"
    using phase_okD [OF inv, of c] RClose by (auto simp: phase_ok_def split: phase.splits)
  with RClose cr show ?thesis
    by (intro exI [of _ "Suc 0"]) (simp add: step_def run_step_def chan_close_def)
next
  case (RRange b todo)
  then show ?thesis using run_range_back [OF inv few cr] by blast
next
  case (RSend b c todo)
  then obtain ch where ch: "chan_send (cnew (conns s ! c)) b = SendOk ch"
    using run_send_room [OF inv] by blast
  define t where "t = (set_conn s c ((conns s ! c)\<lparr>cnew := ch\<rparr>))\<lparr>r_pc := RRange b todo\<rparr>"
  have st: "step ERun s = Some t"
    using RSend ch cr by (simp add: step_def run_step_def t_def)
  have few_t: "few_conns t" using few by (simp add: t_def few_conns_def)
  have "sock_inv t" using run_events_inv [OF run_events_one [OF st] inv few_t] .
  then obtain k s' where "run_events (replicate k ERun) t = Some s'" "r_pc s' = RSelect" "crashed s' = None"
    using run_range_back [OF _ few_t, of b todo] cr by (auto simp: t_def)
  with run_back_after [OF st] show ?thesis by blast
next
  case (RUnsend b todo)
  then show ?thesis using sock_invD(1) [OF inv] by (simp add: shape_ok_def)
next
  case (RClear b pc)
  then have "pc = RSelect" using sock_invD(1) [OF inv] by (simp add: shape_ok_def)
  with RClear cr show ?thesis
    by (intro exI [of _ "Suc 0"]) (simp add: step_def run_step_def clear_block_def)
qed

text \<open>When \<^verbatim>\<open>run\<close> takes a block from its channel, then after two steps per client, whatever the order in
  which the range loop visits the clients, every registered client has exactly this block added at the
  end of its channel, and no other client and no channel content is changed.\<close>

theorem block_broadcast:
  assumes "reach n s" and "0 < n" and "few_conns s" and "crashed s = None" and "r_pc s = RSelect"
    and "cbuf (newBlocks s) = b # bs" and "distinct order" and "set order = set (currentConns s)"
  shows "\<exists>s'. run_events (ENewBlock order # replicate (2 * length order) ERun) s = Some s' \<and>
           cbuf (newBlocks s') = bs \<and>
           (\<forall>c < length (conns s). conns s' ! c =
              (if c \<in> set (currentConns s)
               then (conns s ! c)\<lparr>cnew := (cnew (conns s ! c))\<lparr>cbuf := cbuf (cnew (conns s ! c)) @ [b]\<rparr>\<rparr>
               else conns s ! c))"
proof -
  define t where "t = s\<lparr>newBlocks := (newBlocks s)\<lparr>cbuf := bs\<rparr>, r_pc := RRange b order\<rparr>"
  have st: "step (ENewBlock order) s = Some t"
    using assms(4-8) by (simp add: step_def run_newBlock_def chan_recv_def t_def)
  have few: "few_conns t" using assms(3) by (simp add: t_def few_conns_def)
  have inv: "sock_inv t"
    using run_events_inv [OF run_events_one [OF st] _ few] reach_inv [OF assms(1-3)] by blast
  obtain s' where s': "run_events (replicate (2 * length order) ERun) t = Some s'" "served b order t s'"
    using run_range [OF inv few] assms(4) by (auto simp: t_def)
  then show ?thesis
    using st assms(8) by (intro exI [of _ s']) (simp add: served_def t_def)
qed

theorem block_broadcast_witness:
  "\<exists>s'. run_events (ENewBlock [0] # replicate 2 ERun) demo_queued = Some s' \<and>
     cbuf (newBlocks s') = [] \<and>
     (\<forall>c < 1. conns s' ! c = demo_client\<lparr>cnew := \<lparr>cbuf = [0], ccap = 2, cclosed = False\<rparr>\<rparr>)"
  using block_broadcast [OF demo_reach(1) _ demo_few(1), of 0 "[]" "[0]"]
  by (simp add: demo_queued_def demo_client_def make_chan_def)

text \<open>C13: the goroutine \<^verbatim>\<open>run\<close> is never stuck: from every reachable state of a live daemon it gets back to its
  \<^verbatim>\<open>select\<close> by its own steps alone, so new clients, departing clients and new blocks are always served,
  however slow the clients are.\<close>

theorem run_never_stuck:
  assumes "reach n s" and "0 < n" and "few_conns s" and "crashed s = None"
  shows "\<exists>k s'. run_events (replicate k ERun) s = Some s' \<and> r_pc s' = RSelect \<and> crashed s' = None"
  using run_to_select reach_inv [OF assms(1-3)] assms(3,4) by blast

theorem run_never_stuck_witness:
  "\<exists>k s'. run_events (replicate k ERun) demo_queued = Some s' \<and> r_pc s' = RSelect \<and> crashed s' = None"
  by (rule run_never_stuck [OF demo_reach(1) _ demo_few(1)]) (simp_all add: demo_queued_def)

section \<open>Shutdown of a client\<close>

text \<open>The steps that the two goroutines of a closing client have still to make.\<close>

primrec pc_work :: "nat \<Rightarrow> nat \<Rightarrow> conn_pc \<Rightarrow> nat" where
  "pc_work n q CSelect = 0"
| "pc_work n q (CBatch out) = 0"
| "pc_work n q (CWrite out) = 0"
| "pc_work n q (CUnref b) = 0"
| "pc_work n q CClose = 0"
| "pc_work n q CMarkOld = 0"
| "pc_work n q CDrainNew = 2 * n + 3 + 3 * q"
| "pc_work n q (CDrainUnref b) = 2 * n + 3 + 3 * q + 2"
| "pc_work n q CDrainOld = 2 * n + 2"
| "pc_work n q (CFinal i) = 2 * (n - i) + 1"
| "pc_work n q CDone = 0"
| "pc_work n q (CClear b pc) = Suc (pc_work n q pc)"

primrec reads_work :: "reads_pc \<Rightarrow> nat" where
  "reads_work HRead = 2"
| "reads_work (HSend v) = 4"
| "reads_work HDefer = 1"
| "reads_work HDone = 0"

definition close_work :: "conn \<Rightarrow> nat" where
  "close_work k =
     pc_work (length (outstanding k)) (length (cbuf (cnew k))) (c_pc k) +
     reads_work (h_pc k) + length (cbuf (cold k))"

definition closing :: "nat \<Rightarrow> socket \<Rightarrow> bool" where
  "closing c s \<longleftrightarrow>
     c < length (conns s) \<and> crashed s = None \<and> pc_phase (c_pc (conns s ! c)) \<noteq> Active \<and>
     uclosed (sock (conns s ! c)) \<and> cclosed (cnew (conns s ! c))"

lemma conn_unref_closing:
  assumes inv: "sock_inv s" and few: "few_conns s" and cl: "closing c s"
    and b: "b < numBlocks s" and hold: "0 < chold (conns s ! c) b" and ph: "pc_phase pc \<noteq> Active"
  shows "closing c (conn_unref s c b pc) \<and>
         (let k = conns s ! c; k' = conns (conn_unref s c b pc) ! c in
            k' = k\<lparr>c_pc := pc\<rparr> \<or> k' = k\<lparr>c_pc := CClear b pc\<rparr>)"
proof -
  have "0 < holders s b"
    using chold_le_holders [of c s b] cl hold by (simp add: closing_def)
  then have "snd (unref (refs s ! b)) \<noteq> InvalidUnrefPanic"
    using unref_held [OF inv few b] by auto
  with cl ph show ?thesis
    by (cases "snd (unref (refs s ! b))") (auto simp: conn_unref_def closing_def Let_def)
qed

lemma closing_conn_step:
  assumes inv: "sock_inv s" and few: "few_conns s" and cl: "closing c s"
    and pc: "c_pc (conns s ! c) \<noteq> CDone"
    and old: "c_pc (conns s ! c) = CDrainOld \<longrightarrow> cbuf (cold (conns s ! c)) \<noteq> [] \<or> cclosed (cold (conns s ! c))"
  shows "\<exists>s'. step (EConn c) s = Some s' \<and> closing c s' \<and>
           close_work (conns s' ! c) < close_work (conns s ! c)"
proof -
  let ?k = "conns s ! c"
  have c: "c < length (conns s)" and cr: "crashed s = None" and cn: "cclosed (cnew ?k)"
    using cl by (simp_all add: closing_def)
  have wf: "conn_wf (numBlocks s) ?k" by (rule conn_wfD [OF inv c])
  show ?thesis
  proof (cases "c_pc ?k")
    case CDrainNew
    then show ?thesis
      using c cr cn cl
      by (cases "cbuf (cnew ?k)")
         (auto simp: step_def on_conn_def conn_step_def chan_recv_def Let_def closing_def close_work_def)
  next
    case (CDrainUnref b)
    have "b < numBlocks s" "0 < chold ?k b"
      using wf CDrainUnref by (simp_all add: conn_wf_def chold_def)
    then show ?thesis
      using conn_unref_closing [OF inv few cl, of b CDrainNew] c cr CDrainUnref
      by (auto simp: step_def on_conn_def conn_step_def Let_def close_work_def)
  next
    case CDrainOld
    then show ?thesis
      using c cr cl old
      by (cases "cbuf (cold ?k)")
         (auto simp: step_def on_conn_def conn_step_def chan_recv_def Let_def closing_def close_work_def)
  next
    case (CFinal i)
    show ?thesis
    proof (cases "i < length (outstanding ?k) \<and> outstanding ?k ! i")
      case True
      then have "i < numBlocks s" "0 < chold ?k i"
        using wf CFinal by (simp_all add: conn_wf_def chold_def)
      then show ?thesis
        using conn_unref_closing [OF inv few cl, of i "CFinal (Suc i)"] c cr CFinal True
        by (auto simp: step_def on_conn_def conn_step_def Let_def close_work_def)
    next
      case False
      then show ?thesis
        using c cr cl CFinal
        by (auto simp: step_def on_conn_def conn_step_def Let_def closing_def close_work_def)
    qed
  next
    case (CClear b pc')
    then show ?thesis
      using c cr cl
      by (auto simp: step_def on_conn_def conn_step_def Let_def closing_def close_work_def clear_block_def)
  qed (use cl pc in \<open>simp_all add: closing_def\<close>)
qed

lemma closing_reads_step:
  assumes inv: "sock_inv s" and cl: "closing c s" and "cbuf (cold (conns s ! c)) = []"
    and op: "\<not> cclosed (cold (conns s ! c))"
  shows "\<exists>s'. step (EReads c) s = Some s' \<and> closing c s' \<and>
           close_work (conns s' ! c) < close_work (conns s ! c)"
proof -
  let ?k = "conns s ! c"
  have c: "c < length (conns s)" and cr: "crashed s = None" and uc: "uclosed (sock ?k)"
    using cl by (simp_all add: closing_def)
  have wf: "conn_wf (numBlocks s) ?k" by (rule conn_wfD [OF inv c])
  have rd: "handleReads_iter (numBlocks s) (sock ?k) = (ReadReturn, sock ?k)"
    using uc by (simp add: handleReads_iter_def Read_def)
  have n: "0 < ccap (cold ?k)"
    using wf sock_invD(1) [OF inv] by (simp add: conn_wf_def shape_ok_def)
  show ?thesis
  proof (cases "h_pc ?k")
    case HDone
    with wf op show ?thesis by (simp add: conn_wf_def)
  qed (use c cr cl uc rd n assms(3) op in
        \<open>auto simp: step_def on_conn_def reads_step_def chan_send_def chan_close_def Let_def closing_def close_work_def\<close>)
qed

lemma closing_finishes:
  assumes "sock_inv s" and "few_conns s" and "closing c s"
  shows "\<exists>es s'. set es \<subseteq> {EConn c, EReads c} \<and> run_events es s = Some s' \<and>
           c_pc (conns s' ! c) = CDone \<and> c < length (conns s')"
  using assms
proof (induction "close_work (conns s ! c)" arbitrary: s rule: less_induct)
  case less
  show ?case
  proof (cases "c_pc (conns s ! c) = CDone")
    case True
    with less.prems show ?thesis
      by (intro exI [of _ "[]"]) (auto simp: closing_def)
  next
    case False
    obtain e t where e: "e \<in> {EConn c, EReads c}" and t: "step e s = Some t" "closing c t"
        "close_work (conns t ! c) < close_work (conns s ! c)"
      using closing_conn_step [OF less.prems False] closing_reads_step [OF less.prems(1,3)] by blast
    have few: "few_conns t"
      using step_few [OF t(1) _ less.prems(2)] e by auto
    have "sock_inv t" using run_events_inv [OF run_events_one [OF t(1)] less.prems(1) few] .
    then obtain es s' where "set es \<subseteq> {EConn c, EReads c}" "run_events es t = Some s'"
        "c_pc (conns s' ! c) = CDone" "c < length (conns s')"
      using less.hyps [OF t(3) _ few t(2)] by blast
    with e t(1) show ?thesis
      by (intro exI [of _ "e # es"]) auto
  qed
qed

lemma cnew_update_conn:
  assumes "c < length ks"
  shows "c_pc ((ks[d := (ks ! d)\<lparr>cnew := ch\<rparr>]) ! c) = c_pc (ks ! c)"
    and "sock ((ks[d := (ks ! d)\<lparr>cnew := ch\<rparr>]) ! c) = sock (ks ! c)"
  using assms by (cases "d = c", simp_all)+

lemma run_step_conn:
  assumes "run_step s = Some s'" and "c < length (conns s)"
  shows "c < length (conns s') \<and> c_pc (conns s' ! c) = c_pc (conns s ! c) \<and> sock (conns s' ! c) = sock (conns s ! c)"
  using assms
  by (auto simp: run_step_def run_unref_def set_crash_def clear_block_def cnew_update_conn
      split: run_pc.splits list.splits option.splits send_res.splits unref_out.splits)

lemma run_replicate_conn:
  assumes "run_events (replicate k ERun) s = Some s'" and "c < length (conns s)" and "few_conns s"
  shows "c < length (conns s') \<and> c_pc (conns s' ! c) = c_pc (conns s ! c) \<and>
         sock (conns s' ! c) = sock (conns s ! c) \<and> few_conns s'"
  using assms
proof (induction k arbitrary: s)
  case (Suc k)
  then obtain t where t: "step ERun s = Some t" "run_events (replicate k ERun) t = Some s'"
    by (auto split: option.splits)
  have "few_conns t" using step_few [OF t(1) _ Suc.prems(3)] by simp
  moreover have "run_step s = Some t" using t(1) by (simp add: step_def split: if_splits)
  ultimately show ?case
    using Suc.IH [OF t(2)] run_step_conn [of s t c] Suc.prems(2) by simp
qed simp

text \<open>A client that waits to be unregistered is taken by \<^verbatim>\<open>run\<close>, which closes its channel.\<close>

lemma markOld_closing:
  assumes inv: "sock_inv s" and few: "few_conns s" and cr: "crashed s = None" and c: "c < length (conns s)"
    and pc: "c_pc (conns s ! c) = CMarkOld" and uc: "uclosed (sock (conns s ! c))"
  shows "\<exists>es s'. set es \<subseteq> {ERun, EOldConn c} \<and> run_events es s = Some s' \<and> closing c s' \<and>
           few_conns s' \<and> sock_inv s'"
proof -
  obtain k t where t: "run_events (replicate k ERun) s = Some t" "r_pc t = RSelect" "crashed t = None"
    using run_to_select [OF inv few cr] by blast
  note tc = run_replicate_conn [OF t(1) c few]
  have inv_t: "sock_inv t" using run_events_inv [OF t(1) inv] tc by blast
  have op: "\<not> cclosed (cnew (conns t ! c))"
    using phase_okD [OF inv_t, of c] tc pc by (simp add: phase_ok_def)
  define u where "u = (set_conn t c ((conns t ! c)\<lparr>c_pc := CDrainNew\<rparr>))\<lparr>r_pc := RClose c\<rparr>"
  have st1: "step (EOldConn c) t = Some u"
    using t tc pc by (simp add: step_def run_oldConn_def u_def)
  obtain v where st2: "step ERun u = Some v" and v: "closing c v"
    using op tc uc t(3) by (auto simp: step_def run_step_def u_def chan_close_def closing_def)
  have run: "run_events (replicate k ERun @ [EOldConn c, ERun]) s = Some v"
    using t(1) st1 st2 by (simp add: run_events_append)
  have "few_conns v" using step_few [OF st2] step_few [OF st1] tc by simp
  moreover from this have "sock_inv v" using run_events_inv [OF run inv] by blast
  ultimately show ?thesis
    using run v by (intro exI [of _ "replicate k ERun @ [EOldConn c, ERun]"]) auto
qed

text \<open>A client that leaves its main loop (because it disconnected, because a write to it failed or because it sent an
  invalid block number) can always be shut down to the end, by the steps of its own goroutines and of
  \<^verbatim>\<open>run\<close> alone: no deadlock between \<^verbatim>\<open>handleReads\<close>, \<^verbatim>\<open>conn.run\<close> and \<^verbatim>\<open>socket.run\<close> keeps its blocks from being
  given up.\<close>

theorem shutdown_completes:
  assumes "reach n s" and "0 < n" and "few_conns s" and "crashed s = None"
    and "c < length (conns s)" and "c_pc (conns s ! c) = CClose"
  shows "\<exists>es s'. set es \<subseteq> {ERun, EOldConn c, EConn c, EReads c} \<and> run_events es s = Some s' \<and>
           c_pc (conns s' ! c) = CDone \<and> (\<forall>i < n. chold (conns s' ! c) i = 0)"
proof -
  have inv: "sock_inv s" and n: "numBlocks s = n" using reach_inv [OF assms(1-3)] by auto
  define t where "t = set_conn s c ((conns s ! c)\<lparr>sock := Close (sock (conns s ! c)), c_pc := CMarkOld\<rparr>)"
  have st: "step (EConn c) s = Some t"
    using assms(4-6) by (simp add: step_def on_conn_def conn_step_def Let_def t_def)
  have few: "few_conns t" using step_few [OF st _ assms(3)] by simp
  have inv_t: "sock_inv t" using run_events_inv [OF run_events_one [OF st] inv few] .
  obtain es u where u: "set es \<subseteq> {ERun, EOldConn c}" "run_events es t = Some u" "closing c u"
      "few_conns u" "sock_inv u"
    using markOld_closing [OF inv_t few, of c] assms(4,5) by (auto simp: t_def Close_def)
  obtain fs s' where s': "set fs \<subseteq> {EConn c, EReads c}" "run_events fs u = Some s'"
      "c_pc (conns s' ! c) = CDone" "c < length (conns s')"
    using closing_finishes [OF u(5,4,3)] by blast
  have run: "run_events (EConn c # es @ fs) s = Some s'"
    using st u(2) s'(2) by (simp add: run_events_append)
  have "few_conns s'"
    using run_events_few [OF run _ assms(3)] u(1) s'(1) by auto
  then have "sock_inv s'" using run_events_inv [OF run inv] by blast
  then have "chold (conns s' ! c) i = 0" for i
    using phase_okD [of s' c] s'(3,4) by (simp add: phase_ok_def chold_def)
  then show ?thesis
    using run u(1) s' by (intro exI [of _ "EConn c # es @ fs"]) auto
qed

theorem shutdown_completes_witness:
  "\<exists>es s'. set es \<subseteq> {ERun, EOldConn 0, EConn 0, EReads 0} \<and> run_events es demo_leaving = Some s' \<and>
     c_pc (conns s' ! 0) = CDone \<and> (\<forall>i < 2. chold (conns s' ! 0) i = 0)"
  by (rule shutdown_completes [OF demo_leaving_reach(1) _ demo_leaving_reach(2)])
     (simp_all add: demo_leaving_def demo_delivered_def)

end
