(* ===== verification/Socket_Order.thy ===== *)
theory Socket_Order
  imports Socket_Live
begin

text \<open>
  What a client reads: the four-byte block numbers that \<^verbatim>\<open>conn.run\<close> writes to it name consecutive
  blocks of the ring, with no block skipped, repeated or out of order, however the goroutines
  interleave and however \<^verbatim>\<open>conn.run\<close> batches its writes.
\<close>

section \<open>Blocks on their way to a client\<close>

text \<open>Consecutive ring positions that end right before position \<open>e\<close>.\<close>

fun ring_run :: "nat \<Rightarrow> nat list \<Rightarrow> nat \<Rightarrow> bool" where
  "ring_run n [] e = True"
| "ring_run n [x] e = (x < n \<and> Suc x mod n = e)"
| "ring_run n (x # y # xs) e = (x < n \<and> Suc x mod n = y \<and> ring_run n (y # xs) e)"

lemma ring_run_snoc: "ring_run n xs e \<Longrightarrow> e < n \<Longrightarrow> ring_run n (xs @ [e]) (Suc e mod n)"
  by (induction n xs e rule: ring_run.induct) auto

lemma ring_run_bound: "ring_run n xs e \<Longrightarrow> set xs \<subseteq> {..<n}"
  by (induction n xs e rule: ring_run.induct) auto

lemma ring_run_suffix: "ring_run n (xs @ ys) e \<Longrightarrow> ring_run n ys e"
  by (induction xs arbitrary: ys) (auto, metis append_Cons list.exhaust ring_run.simps(1,3) append_Nil)

text \<open>The block that \<^verbatim>\<open>run\<close> has in hand for client \<open>c\<close>.\<close>

definition in_hand :: "run_pc \<Rightarrow> nat \<Rightarrow> nat list" where
  "in_hand pc c = (case run_block pc of None \<Rightarrow> [] | Some b \<Rightarrow> if c \<in> set (targets pc) then [b] else [])"

definition pipeline :: "socket \<Rightarrow> nat \<Rightarrow> nat list" where
  "pipeline s c = cbuf (cnew (conns s ! c)) @ in_hand (r_pc s) c @ cbuf (newBlocks s)"

text \<open>The main loop of \<^verbatim>\<open>conn.run\<close> has not been left, and the bytes that it has produced: written, or
  in \<^verbatim>\<open>out\<close>.\<close>

primrec pc_open :: "conn_pc \<Rightarrow> bool" where
  "pc_open CSelect = True"
| "pc_open (CBatch out) = True"
| "pc_open (CWrite out) = True"
| "pc_open (CUnref b) = True"
| "pc_open CClose = False"
| "pc_open CMarkOld = False"
| "pc_open CDrainNew = False"
| "pc_open (CDrainUnref b) = False"
| "pc_open CDrainOld = False"
| "pc_open (CFinal i) = False"
| "pc_open CDone = False"
| "pc_open (CClear b pc) = pc_open pc"

primrec pc_out :: "conn_pc \<Rightarrow> byte list" where
  "pc_out CSelect = []"
| "pc_out (CBatch out) = out"
| "pc_out (CWrite out) = out"
| "pc_out (CUnref b) = []"
| "pc_out CClose = []"
| "pc_out CMarkOld = []"
| "pc_out CDrainNew = []"
| "pc_out (CDrainUnref b) = []"
| "pc_out CDrainOld = []"
| "pc_out (CFinal i) = []"
| "pc_out CDone = []"
| "pc_out (CClear b pc) = pc_out pc"

definition produced :: "conn \<Rightarrow> byte list" where
  "produced k = wbytes (sock k) @ pc_out (c_pc k)"

section \<open>One step\<close>

text \<open>Client \<open>c\<close> takes the blocks \<open>bs\<close> from the front of its pipeline, or one block enters the pipeline.\<close>

definition flows :: "nat \<Rightarrow> socket \<Rightarrow> socket \<Rightarrow> nat list \<Rightarrow> bool" where
  "flows c s s' bs \<longleftrightarrow>
     produced (conns s' ! c) = produced (conns s ! c) @ indexes bs \<and>
     (pipeline s c = bs @ pipeline s' c \<and> blockIndex s' = blockIndex s \<or>
      bs = [] \<and> pipeline s' c = pipeline s c @ [blockIndex s] \<and>
      blockIndex s' = Suc (blockIndex s) mod numBlocks s)"

lemma flows_same:
  assumes "produced (conns s' ! c) = produced (conns s ! c)" and "cnew (conns s' ! c) = cnew (conns s ! c)"
    and "r_pc s' = r_pc s" and "newBlocks s' = newBlocks s" and "blockIndex s' = blockIndex s"
  shows "flows c s s' []"
  using assms by (simp add: flows_def pipeline_def indexes_def)

lemma flows_get: "getNewBlocks_step s = Some s' \<Longrightarrow> flows c s s' []"
  by (auto simp: getNewBlocks_step_def Let_def flows_def pipeline_def indexes_def set_crash_def ref_block_def
      split: get_pc.splits if_splits send_res.splits dest: chan_send_OkD)

lemma flows_take:
  assumes "chan_recv (cnew (conns s ! c)) = RecvVal b ch" and "c < length (conns s)"
    and "c_pc (conns s ! c) = CSelect \<and> out = [] \<or> c_pc (conns s ! c) = CBatch out"
  shows "\<exists>bs. flows c s (conn_take s c ch out b) bs"
  using assms(2,3) chan_recv_ValD [OF assms(1)]
  by (auto simp: conn_take_def Let_def flows_def pipeline_def indexes_def produced_def set_crash_def
      intro: exI [of _ "[b]"] exI [of _ "[]"])

lemma flows_conn:
  assumes st: "conn_step d s = Some s'" and c: "c < length (conns s)" and d: "d < length (conns s)"
    and op: "pc_open (c_pc (conns s' ! c))"
  shows "\<exists>bs. flows c s s' bs \<and> pc_open (c_pc (conns s ! c))"
proof (cases "d = c")
  case False
  then have "conns s' ! c = conns s ! c" "r_pc s' = r_pc s" "newBlocks s' = newBlocks s"
      "blockIndex s' = blockIndex s"
    using st by (auto simp: conn_step_def Let_def conn_take_def conn_unref_def set_crash_def clear_block_def
        split: conn_pc.splits recv_res.splits prod.splits option.splits if_splits unref_out.splits)
  with flows_same [of s' c s] op show ?thesis by auto
next
  case True
  let ?k = "conns s ! c"
  show ?thesis
  proof (cases "c_pc ?k")
    case (CBatch out)
    with True st c op show ?thesis
      using flows_take [OF _ c, of _ _ out]
      by (auto simp: conn_step_def Let_def flows_def pipeline_def indexes_def produced_def set_crash_def
          split: recv_res.splits intro: exI [of _ "[]"])
  next
    case (CWrite out)
    with True st c op show ?thesis
      by (auto simp: conn_step_def Let_def flows_def pipeline_def indexes_def produced_def Write_def
          split: prod.splits option.splits if_splits)
  next
    case (CUnref b)
    with True st c op show ?thesis
      by (auto simp: conn_step_def Let_def conn_unref_def flows_def pipeline_def indexes_def produced_def set_crash_def
          split: unref_out.splits)
  next
    case (CClear b pc)
    with True st c op show ?thesis
      by (auto simp: conn_step_def Let_def clear_block_def flows_def pipeline_def indexes_def produced_def)
  qed (use True st c op in \<open>auto simp: conn_step_def Let_def conn_unref_def set_crash_def
         split: recv_res.splits if_splits unref_out.splits\<close>)
qed

lemma handleReads_iter_wbytes: "wbytes (snd (handleReads_iter n k)) = wbytes k"
proof -
  obtain buf err k1 where rd: "Read k 4 = (buf, err, k1)" by (cases "Read k 4")
  have "wbytes k1 = wbytes k" using rd by (auto simp: Read_def split: if_splits list.splits)
  moreover have "wbytes k2 = wbytes k1" if "ReadFull k1 m = (r, k2)" for m r k2
    using ReadFull_fields [OF that] by (metis uconn.select_convs(3) uconn.surjective uconn.update_convs(1))
  ultimately show ?thesis
    using rd by (auto simp: handleReads_iter_def handleTLV_def Let_def
        split: sum.splits option.splits prod.splits)
qed

lemma flows_reads:
  assumes st: "reads_step d s = Some s'" and c: "c < length (conns s)" and d: "d < length (conns s)"
  shows "flows c s s' [] \<and> c_pc (conns s' ! c) = c_pc (conns s ! c)"
proof -
  have "produced (conns s' ! c) = produced (conns s ! c) \<and> cnew (conns s' ! c) = cnew (conns s ! c) \<and>
        r_pc s' = r_pc s \<and> newBlocks s' = newBlocks s \<and> blockIndex s' = blockIndex s \<and>
        c_pc (conns s' ! c) = c_pc (conns s ! c)"
    using st c d handleReads_iter_wbytes [of "numBlocks s" "sock (conns s ! d)"]
    by (cases "d = c")
       (auto simp: reads_step_def Let_def set_crash_def produced_def split: reads_pc.splits if_splits prod.splits
          read_out.splits send_res.splits option.splits)
  then show ?thesis using flows_same by simp
qed

lemma flows_run_step:
  assumes inv: "sock_inv s" and st: "run_step s = Some s'" and c: "c < length (conns s)"
    and ph: "pc_open (c_pc (conns s ! c))"
  shows "flows c s s' []"
proof (cases "r_pc s")
  case (RClose d)
  with st c show ?thesis
    by (cases "d = c")
       (auto simp: run_step_def flows_def pipeline_def indexes_def produced_def in_hand_def set_crash_def
          chan_close_def split: option.splits if_splits)
next
  case (RRange b todo)
  with st c show ?thesis
    by (cases todo)
       (auto simp: run_step_def run_unref_def flows_def pipeline_def indexes_def in_hand_def set_crash_def
          split: unref_out.splits)
next
  case (RSend b d todo)
  then obtain ch where ch: "chan_send (cnew (conns s ! d)) b = SendOk ch"
    using run_send_room [OF inv] by blast
  have "d \<notin> set todo" using sock_invD(1) [OF inv] RSend by (simp add: shape_ok_def)
  with RSend st c ch chan_send_OkD [OF ch] show ?thesis
    by (cases "d = c") (auto simp: run_step_def flows_def pipeline_def indexes_def in_hand_def produced_def)
next
  case (RUnsend b todo)
  then show ?thesis using sock_invD(1) [OF inv] by (simp add: shape_ok_def)
next
  case (RClear b pc)
  then have "pc = RSelect" using sock_invD(1) [OF inv] by (simp add: shape_ok_def)
  with RClear st show ?thesis
    by (auto simp: run_step_def clear_block_def flows_def pipeline_def indexes_def in_hand_def)
qed (use st in \<open>simp add: run_step_def\<close>)

lemma pc_open_active: "pc_open pc \<Longrightarrow> pc_phase pc = Active"
  by (induction pc) simp_all

lemma flows_newBlock:
  assumes inv: "sock_inv s" and st: "run_newBlock order s = Some s'" and c: "c < length (conns s)"
    and op: "pc_open (c_pc (conns s ! c))"
  shows "flows c s s' []"
proof -
  have "c \<in> set (currentConns s)"
    using phase_okD [OF inv c] pc_open_active [OF op] by (simp add: phase_ok_def)
  then show ?thesis
    using st by (auto simp: run_newBlock_def flows_def pipeline_def indexes_def in_hand_def set_crash_def
        split: if_splits recv_res.splits dest: chan_recv_ValD)
qed

lemma flows_newBlock_conn:
  assumes st: "conn_newBlock d s = Some s'" and c: "c < length (conns s)" and d: "d < length (conns s)"
    and op: "pc_open (c_pc (conns s' ! c))"
  shows "\<exists>bs. flows c s s' bs \<and> pc_open (c_pc (conns s ! c))"
proof (cases "d = c")
  case True
  with st c show ?thesis
    using flows_take [OF _ c, of _ _ "[]"]
    by (auto simp: conn_newBlock_def Let_def set_crash_def flows_def pipeline_def indexes_def
        split: if_splits recv_res.splits intro: exI [of _ "[]"])
next
  case False
  then have "conns s' ! c = conns s ! c" "r_pc s' = r_pc s" "newBlocks s' = newBlocks s"
      "blockIndex s' = blockIndex s"
    using st by (auto simp: conn_newBlock_def Let_def conn_take_def set_crash_def
        split: recv_res.splits if_splits)
  with flows_same [of s' c s] op show ?thesis by auto
qed

lemma flows_oldBlock_conn:
  assumes st: "conn_oldBlock d s = Some s'" and c: "c < length (conns s)" and d: "d < length (conns s)"
    and op: "pc_open (c_pc (conns s' ! c))"
  shows "\<exists>bs. flows c s s' bs \<and> pc_open (c_pc (conns s ! c))"
proof -
  have "flows c s s' [] \<and> pc_open (c_pc (conns s ! c))"
    using st c d op
    by (cases "d = c")
       (auto simp: conn_oldBlock_def Let_def set_crash_def flows_def pipeline_def indexes_def produced_def
          split: if_splits recv_res.splits)
  then show ?thesis by blast
qed

lemma exec_flows:
  assumes ex: "exec e s = Some s'" and inv: "sock_inv s" and c: "c < length (conns s)"
    and op: "pc_open (c_pc (conns s' ! c))"
  shows "\<exists>bs. flows c s s' bs \<and> pc_open (c_pc (conns s ! c))"
proof (cases e)
  case (EKernel b v)
  with ex op show ?thesis
    by (auto simp: kernel_step_def split: if_splits intro!: exI [of _ "[]"] flows_same)
next
  case EGet
  with ex have "flows c s s' []" using flows_get by simp
  moreover have "conns s' = conns s"
    using EGet ex by (auto simp: getNewBlocks_step_def Let_def set_crash_def split: get_pc.splits if_splits send_res.splits)
  ultimately show ?thesis using op by auto
next
  case (EGetFail m)
  with ex op show ?thesis
    by (auto simp: getNewBlocks_fail_def set_crash_def split: if_splits intro!: exI [of _ "[]"] flows_same)
next
  case (ENewConn k)
  with ex op c show ?thesis
    by (auto simp: run_newConn_def addNewConn_def nth_append split: if_splits intro!: exI [of _ "[]"] flows_same)
next
  case (EOldConn d)
  with ex op c have "flows c s s' [] \<and> pc_open (c_pc (conns s ! c))"
    by (cases "d = c") (auto simp: run_oldConn_def flows_def pipeline_def indexes_def in_hand_def split: if_splits)
  then show ?thesis by blast
next
  case (ENewBlock order)
  moreover have "conns s' = conns s"
    using ENewBlock ex by (auto simp: run_newBlock_def set_crash_def split: if_splits recv_res.splits)
  ultimately show ?thesis using flows_newBlock [OF inv _ c] ex op by fastforce
next
  case ERun
  with ex have rs: "run_step s = Some s'" by simp
  then show ?thesis using flows_run_step [OF inv rs c] run_step_conn [OF rs c] op by auto
next
  case (EConnNew d)
  with ex c op show ?thesis using flows_newBlock_conn by (auto simp: on_conn_def split: if_splits)
next
  case (EConnOld d)
  with ex c op show ?thesis using flows_oldBlock_conn by (auto simp: on_conn_def split: if_splits)
next
  case (EConn d)
  with ex c op show ?thesis using flows_conn by (auto simp: on_conn_def split: if_splits)
next
  case (EReads d)
  with ex c op show ?thesis
    using flows_reads [of d s s' c] by (auto simp: on_conn_def split: if_splits)
next
  case (EClient d bs)
  with ex c op have "flows c s s' [] \<and> pc_open (c_pc (conns s ! c))"
    by (cases "d = c")
       (auto simp: on_conn_def client_send_def Let_def flows_def pipeline_def indexes_def produced_def split: if_splits)
  then show ?thesis by blast
next
  case (EHangup d)
  with ex c op have "flows c s s' [] \<and> pc_open (c_pc (conns s ! c))"
    by (cases "d = c")
       (auto simp: on_conn_def client_hangup_def Let_def flows_def pipeline_def indexes_def produced_def split: if_splits)
  then show ?thesis by blast
qed

section \<open>Whole runs\<close>

lemma run_events_open:
  assumes "run_events es s = Some s'" and "sock_inv s" and "few_conns s'" and "c < length (conns s)"
    and "pc_open (c_pc (conns s' ! c))"
  shows "pc_open (c_pc (conns s ! c))"
  using assms
proof (induction es arbitrary: s)
  case (Cons e es)
  then obtain t where t: "step e s = Some t" "run_events es t = Some s'"
    by (auto split: option.splits)
  then have ex: "exec e s = Some t" by (simp add: step_def split: if_splits)
  have few: "few_conns t"
    using run_events_conns [OF t(2)] Cons.prems(3) by (simp add: few_conns_def)
  have "sock_inv t" using run_events_inv [OF run_events_one [OF t(1)] Cons.prems(2) few] .
  then have "pc_open (c_pc (conns t ! c))"
    using Cons.IH [OF t(2)] exec_frame [OF ex] Cons.prems(3-5) by simp
  then show ?case using exec_flows [OF ex Cons.prems(2,4)] by blast
qed simp

lemma run_events_flow:
  assumes "run_events es s = Some s'" and "sock_inv s" and "few_conns s'" and "c < length (conns s)"
    and "pc_open (c_pc (conns s' ! c))" and "ring_run (numBlocks s) (hist @ pipeline s c) (blockIndex s)"
  shows "\<exists>bs. produced (conns s' ! c) = produced (conns s ! c) @ indexes bs \<and>
           ring_run (numBlocks s) (hist @ bs @ pipeline s' c) (blockIndex s') \<and> pc_open (c_pc (conns s ! c))"
  using assms
proof (induction es arbitrary: s hist)
  case Nil
  then show ?case by (intro exI [of _ "[]"]) (simp add: indexes_def)
next
  case (Cons e es)
  then obtain t where t: "step e s = Some t" "run_events es t = Some s'"
    by (auto split: option.splits)
  then have ex: "exec e s = Some t" by (simp add: step_def split: if_splits)
  have len: "length (conns s) \<le> length (conns t)" "numBlocks t = numBlocks s"
    using exec_frame [OF ex] by auto
  have few: "few_conns t"
    using run_events_conns [OF t(2)] Cons.prems(3) by (simp add: few_conns_def)
  have inv: "sock_inv t" using run_events_inv [OF run_events_one [OF t(1)] Cons.prems(2) few] .
  have op: "pc_open (c_pc (conns t ! c))"
    using run_events_open [OF t(2) inv Cons.prems(3) _ Cons.prems(5)] len(1) Cons.prems(4) by simp
  obtain bs where bs: "flows c s t bs" "pc_open (c_pc (conns s ! c))"
    using exec_flows [OF ex Cons.prems(2,4) op] by blast
  have "ring_run (numBlocks t) ((hist @ bs) @ pipeline t c) (blockIndex t)"
    using bs(1) Cons.prems(6) ring_run_snoc len(2) sock_invD(1) [OF Cons.prems(2)]
    by (fastforce simp: flows_def shape_ok_def)
  from Cons.IH [OF t(2) inv Cons.prems(3) _ Cons.prems(5) this] len(1) Cons.prems(4)
  obtain bs' where "produced (conns s' ! c) = produced (conns t ! c) @ indexes bs'"
      "ring_run (numBlocks t) ((hist @ bs) @ bs' @ pipeline s' c) (blockIndex s')"
    by auto
  with bs len(2) show ?case
    by (intro exI [of _ "bs @ bs'"]) (simp add: flows_def indexes_def)
qed

definition ring_queue_ok :: "socket \<Rightarrow> bool" where
  "ring_queue_ok s \<longleftrightarrow>
     blockIndex s < numBlocks s \<and> ring_run (numBlocks s) (cbuf (newBlocks s)) (blockIndex s)"

lemma exec_newBlocks:
  assumes "exec e s = Some s'" and "ring_queue_ok s"
  shows "ring_queue_ok s'"
proof (cases "e = EGet \<or> (\<exists>order. e = ENewBlock order)")
  case True
  then show ?thesis
    using assms ring_run_snoc ring_run_suffix [of "numBlocks s" "[_]"]
    by (auto simp: ring_queue_ok_def getNewBlocks_step_def run_newBlock_def Let_def set_crash_def
        split: get_pc.splits send_res.splits recv_res.splits if_splits dest!: chan_send_OkD chan_recv_ValD)
next
  case False
  then have "newBlocks s' = newBlocks s \<and> blockIndex s' = blockIndex s"
    using assms(1)
    by (cases e) (auto simp: step_defs Let_def set_crash_def conn_take_def conn_unref_def run_unref_def clear_block_def
        split: if_splits run_pc.splits list.splits unref_out.splits
          conn_pc.splits reads_pc.splits send_res.splits recv_res.splits option.splits prod.splits read_out.splits)
  with assms exec_frame [OF assms(1)] show ?thesis by (simp add: ring_queue_ok_def)
qed

lemma reach_newBlocks: "reach n s \<Longrightarrow> 0 < n \<Longrightarrow> numBlocks s = n \<and> ring_queue_ok s"
proof (induction rule: reach.induct)
  case (next_step s e s')
  then have "exec e s = Some s'" by (simp add: step_def split: if_splits)
  then show ?case using exec_newBlocks exec_frame next_step.IH next_step.prems by metis
qed (simp add: ring_queue_ok_def init_socket_def make_chan_def)

lemma ring_order_from_start:
  assumes "reach n s" and "0 < n" and "run_events (ENewConn k # es) s = Some s'" and "few_conns s'"
    and "c = length (conns s)" and "pc_open (c_pc (conns s' ! c))"
  shows "\<exists>bs. wbytes (sock (conns s' ! c)) @ pc_out (c_pc (conns s' ! c)) = wbytes k @ indexes bs \<and>
           ring_run n (bs @ pipeline s' c) (blockIndex s')"
proof -
  have len: "length (conns s) \<le> length (conns s')" using run_events_conns [OF assms(3)] .
  then have inv: "sock_inv s" using reach_inv [OF assms(1,2)] assms(4) by (simp add: few_conns_def)
  define t where "t = addNewConn k s"
  have t: "step (ENewConn k) s = Some t" "r_pc s = RSelect" "run_events es t = Some s'"
    using assms(3) by (auto simp: step_def run_newConn_def t_def split: if_splits)
  have few: "few_conns t"
    using run_events_conns [OF t(3)] assms(4) by (simp add: few_conns_def)
  have inv_t: "sock_inv t" using run_events_inv [OF run_events_one [OF t(1)] inv few] .
  note q = reach_newBlocks [OF assms(1,2)]
  have c: "c < length (conns t)" "produced (conns t ! c) = wbytes k"
    "pipeline t c = cbuf (newBlocks s)" "blockIndex t = blockIndex s" "numBlocks t = n"
    using assms(5) t(2) q
    by (simp_all add: t_def addNewConn_def produced_def pipeline_def in_hand_def make_chan_def)
  have "ring_run (numBlocks t) ([] @ pipeline t c) (blockIndex t)"
    using q c by (auto simp: ring_queue_ok_def)
  from run_events_flow [OF t(3) inv_t assms(4) c(1) assms(6) this] c show ?thesis
    unfolding produced_def [symmetric] by auto
qed

text \<open>C3: a client is served in ring order.  From the moment its connection is registered, as long as its main loop
  runs, the bytes produced for it are the four-byte big-endian numbers of a sequence of blocks in which
  each block is the ring successor of the one before; and this sequence, continued by the blocks still on
  their way to the client, ends at the block that \<^verbatim>\<open>getNewBlocks\<close> waits for.  So no filled block is skipped,
  repeated or reordered for any client.\<close>

theorem clients_read_ring_order:
  assumes "reach n s" and "0 < n" and "run_events (ENewConn k # es) s = Some s'" and "few_conns s'"
    and "c = length (conns s)" and "pc_open (c_pc (conns s' ! c))"
  shows "\<exists>bs. wbytes (sock (conns s' ! c)) @ pc_out (c_pc (conns s' ! c)) = wbytes k @ indexes bs \<and>
           ring_run n (bs @ pipeline s' c) (blockIndex s')"
  using assms by (rule ring_order_from_start)

theorem clients_read_ring_order_witness:
  "\<exists>bs. wbytes (sock (conns demo_delivered ! 0)) @ pc_out (c_pc (conns demo_delivered ! 0)) =
       wbytes demo_conn @ indexes bs \<and>
     ring_run 2 (bs @ pipeline demo_delivered 0) (blockIndex demo_delivered)"
proof (rule clients_read_ring_order [OF reach.start _ _ demo_few(2)])
  show "run_events (ENewConn demo_conn # tl demo_deliver) (init_socket 2) = Some demo_delivered"
    using demo_deliver_run by (simp add: demo_deliver_def demo_queue_def)
qed (simp_all add: init_socket_def demo_delivered_def demo_client_def)

end
