(* ===== verification/Socket_Race.thy ===== *)
theory Socket_Race
  imports Socket_Order
begin

text \<open>
  Who owns a block, the kernel or the clients.  The status word of a block says it: zero means the
  kernel may write into the block.  \<^verbatim>\<open>unref\<close> drops the last reference first and clears the status
  afterwards, and \<^verbatim>\<open>ready\<close> takes a zero counter and a non-zero status for a freshly filled block.
  Without overlap of the two, no block that anybody holds belongs to the kernel; with overlap it can.
\<close>

section \<open>Pending clears\<close>

fun run_clears :: "run_pc \<Rightarrow> nat \<Rightarrow> bool" where
  "run_clears (RClear d pc) b = (d = b \<or> run_clears pc b)"
| "run_clears pc b = False"

fun pc_clears :: "conn_pc \<Rightarrow> nat \<Rightarrow> bool" where
  "pc_clears (CClear d pc) b = (d = b \<or> pc_clears pc b)"
| "pc_clears pc b = False"

text \<open>Some goroutine has dropped the last reference of block \<open>b\<close> and has not yet cleared its status.\<close>

definition clearing :: "socket \<Rightarrow> nat \<Rightarrow> bool" where
  "clearing s b \<longleftrightarrow> run_clears (r_pc s) b \<or> (\<exists>k \<in> set (conns s). pc_clears (c_pc k) b)"

text \<open>\<^verbatim>\<open>ready\<close> does not read the status of a block whose clear is pending.\<close>

definition calm :: "event \<Rightarrow> socket \<Rightarrow> bool" where
  "calm e s \<longleftrightarrow> (e = EGet \<and> g_pc s = GStatus \<longrightarrow> \<not> clearing s (blockIndex s))"

inductive calm_reach :: "nat \<Rightarrow> socket \<Rightarrow> bool" for n where
  calm_start: "calm_reach n (init_socket n)"
| calm_step: "calm_reach n s \<Longrightarrow> calm e s \<Longrightarrow> step e s = Some s' \<Longrightarrow> calm_reach n s'"

lemma calm_reach_reach: "calm_reach n s \<Longrightarrow> reach n s"
  by (induction rule: calm_reach.induct) (auto intro: reach.intros)

section \<open>Ownership without overlap\<close>

definition kernel_safe :: "socket \<Rightarrow> bool" where
  "kernel_safe s \<longleftrightarrow>
     (\<forall>i < numBlocks s. refs s ! i \<noteq> 0 \<or> (g_pc s = GRef \<and> blockIndex s = i) \<longrightarrow>
        status s ! i \<noteq> 0 \<and> \<not> clearing s i)"

lemma kernel_safe_quiet:
  assumes "kernel_safe s" and "refs s' = refs s" and "status s' = status s" and "numBlocks s' = numBlocks s"
    and "g_pc s' = GRef \<longrightarrow> g_pc s = GRef \<and> blockIndex s' = blockIndex s"
    and "\<And>i. clearing s' i \<Longrightarrow> clearing s i"
  shows "kernel_safe s'"
  using assms by (fastforce simp: kernel_safe_def)

lemma clearing_set_conn: "clearing (set_conn s c k) i \<Longrightarrow> clearing s i \<or> pc_clears (c_pc k) i"
  by (auto simp: clearing_def dest: set_update_subset)

text \<open>Dropping a reference, with \<open>s'\<close> the state after \<^verbatim>\<open>unref\<close> up to the pending clear.\<close>

lemma kernel_safe_unref:
  assumes inv: "sock_inv s" and few: "few_conns s" and ks: "kernel_safe s" and b: "b < numBlocks s"
    and hold: "0 < holders s b"
    and eq: "refs s' = (refs s)[b := fst (unref (refs s ! b))]" "status s' = status s"
      "numBlocks s' = numBlocks s" "g_pc s' = g_pc s" "blockIndex s' = blockIndex s"
    and cl: "\<And>i. clearing s' i \<Longrightarrow> clearing s i \<or> (i = b \<and> snd (unref (refs s ! b)) = ClearBlock)"
  shows "kernel_safe s'"
  unfolding kernel_safe_def
proof (intro allI impI)
  fix i assume i: "i < numBlocks s'"
    and h: "refs s' ! i \<noteq> 0 \<or> (g_pc s' = GRef \<and> blockIndex s' = i)"
  have len: "length (refs s) = numBlocks s" using sock_invD(1) [OF inv] by (simp add: shape_ok_def)
  have nref: "\<not> (g_pc s = GRef \<and> blockIndex s = b)"
    using tokens_okD [OF inv b] hold by (auto simp: token_ok_def)
  have rb: "refs s ! b \<noteq> 0" using refs_zero_iff [OF inv few b] hold by simp
  note u = unref_held [OF inv few b hold]
  have keep: "refs s ! i \<noteq> 0 \<or> (g_pc s = GRef \<and> blockIndex s = i)"
    using h eq rb len b by (cases "i = b") auto
  then have "status s ! i \<noteq> 0 \<and> \<not> clearing s i"
    using ks i eq(3) by (simp add: kernel_safe_def)
  moreover have "\<not> (i = b \<and> snd (unref (refs s ! b)) = ClearBlock)"
    using h eq nref u len b by (auto split: if_splits)
  ultimately show "status s' ! i \<noteq> 0 \<and> \<not> clearing s' i"
    using cl [of i] eq(2) by auto
qed

lemma kernel_safe_clear:
  assumes ks: "kernel_safe s" and "clearing s b"
    and eq: "refs s' = refs s" "status s' = (status s)[b := 0]" "numBlocks s' = numBlocks s"
      "g_pc s' = g_pc s" "blockIndex s' = blockIndex s"
    and cl: "\<And>i. clearing s' i \<Longrightarrow> clearing s i"
  shows "kernel_safe s'"
  unfolding kernel_safe_def
proof (intro allI impI)
  fix i assume "i < numBlocks s'" and "refs s' ! i \<noteq> 0 \<or> (g_pc s' = GRef \<and> blockIndex s' = i)"
  then have "status s ! i \<noteq> 0 \<and> \<not> clearing s i"
    using ks eq by (simp add: kernel_safe_def)
  moreover from this have "i \<noteq> b" using assms(2) by auto
  ultimately show "status s' ! i \<noteq> 0 \<and> \<not> clearing s' i"
    using eq(2) cl by auto
qed

lemma kernel_safe_ref:
  assumes ks: "kernel_safe s" and "b < numBlocks s" and "length (refs s) = numBlocks s"
    and "refs s ! b \<noteq> 0 \<or> (g_pc s = GRef \<and> blockIndex s = b)"
    and eq: "refs s' = (refs s)[b := r]" "status s' = status s" "numBlocks s' = numBlocks s"
      "g_pc s' = GRef \<longrightarrow> g_pc s = GRef" "blockIndex s' = blockIndex s"
    and cl: "\<And>i. clearing s' i \<Longrightarrow> clearing s i"
  shows "kernel_safe s'"
  unfolding kernel_safe_def
proof (intro allI impI)
  fix i assume i: "i < numBlocks s'" and h: "refs s' ! i \<noteq> 0 \<or> (g_pc s' = GRef \<and> blockIndex s' = i)"
  have "refs s ! i \<noteq> 0 \<or> (g_pc s = GRef \<and> blockIndex s = i)"
    using h eq assms(2-4) by (cases "i = b") auto
  then show "status s' ! i \<noteq> 0 \<and> \<not> clearing s' i"
    using ks i eq cl by (auto simp: kernel_safe_def)
qed

lemma clearing_cong: "r_pc s' = r_pc s \<Longrightarrow> conns s' = conns s \<Longrightarrow> clearing s' i = clearing s i"
  by (simp add: clearing_def)

lemma kernel_safe_get:
  assumes inv: "sock_inv s" and ks: "kernel_safe s" and calm: "calm EGet s" and st: "getNewBlocks_step s = Some s'"
  shows "kernel_safe s'"
proof -
  have same: "conns s' = conns s" "r_pc s' = r_pc s" "numBlocks s' = numBlocks s" "status s' = status s"
    using st by (auto simp: getNewBlocks_step_def Let_def set_crash_def split: get_pc.splits if_splits send_res.splits)
  then have cl: "clearing s' i = clearing s i" for i by (simp add: clearing_def)
  have sh: "blockIndex s < numBlocks s" "length (refs s) = numBlocks s"
    using sock_invD(1) [OF inv] by (simp_all add: shape_ok_def)
  show ?thesis
  proof (cases "g_pc s")
    case GStatus
    with st calm ks cl same show ?thesis
      by (auto simp: getNewBlocks_step_def Let_def calm_def kernel_safe_def)
  next
    case GRef
    with st show ?thesis
      by (intro kernel_safe_ref [OF ks sh(1,2), where r = "ref (refs s ! blockIndex s)"])
         (auto simp: getNewBlocks_step_def Let_def ref_block_def clearing_def)
  next
    case GSend
    with st cl same show ?thesis
      by (intro kernel_safe_quiet [OF ks])
         (auto simp: getNewBlocks_step_def Let_def set_crash_def clearing_def split: send_res.splits)
  qed (use st cl same in \<open>auto intro!: kernel_safe_quiet [OF ks] simp: getNewBlocks_step_def Let_def set_crash_def
         split: if_splits\<close>)
qed

lemma kernel_safe_conn_unref:
  assumes inv: "sock_inv s" and few: "few_conns s" and ks: "kernel_safe s" and c: "c < length (conns s)"
    and hold: "0 < chold (conns s ! c) b" and b: "b < numBlocks s" and pc: "\<And>i. \<not> pc_clears pc i"
  shows "kernel_safe (conn_unref s c b pc)"
proof (rule kernel_safe_unref [OF inv few ks b])
  show "0 < holders s b" using chold_le_holders [OF c, of b] hold by simp
next
  fix i assume "clearing (conn_unref s c b pc) i"
  then show "clearing s i \<or> (i = b \<and> snd (unref (refs s ! b)) = ClearBlock)"
    using pc by (auto simp: conn_unref_def clearing_def set_crash_def split: unref_out.splits dest!: set_update_subset)
qed (simp_all add: conn_unref_def dec_block_def set_crash_def split: unref_out.split)

lemma conn_pc_cases_clear: "\<not> pc_clears CSelect i" "\<not> pc_clears CDrainNew i" "\<not> pc_clears (CFinal j) i"
  by simp_all

lemma kernel_safe_set_conn:
  assumes "kernel_safe s" and "\<And>i. \<not> pc_clears (c_pc k) i"
  shows "kernel_safe (set_conn s c k)"
  using assms clearing_set_conn [of s c k] by (intro kernel_safe_quiet [OF assms(1)]) auto

lemma kernel_safe_same_pc:
  assumes "kernel_safe s" and "c < length (conns s)" and "c_pc k = c_pc (conns s ! c)"
  shows "kernel_safe (set_conn s c k)"
proof (rule kernel_safe_quiet [OF assms(1)])
  fix i assume "clearing (set_conn s c k) i"
  with clearing_set_conn [of s c k i] assms(2,3) show "clearing s i"
    by (auto simp: clearing_def)
qed simp_all

lemma kernel_safe_crash: "kernel_safe s \<Longrightarrow> kernel_safe (set_crash s e)"
  by (erule kernel_safe_quiet) (simp_all add: set_crash_def clearing_def)

lemma kernel_safe_conn:
  assumes inv: "sock_inv s" and few: "few_conns s" and ks: "kernel_safe s" and c: "c < length (conns s)"
    and st: "conn_step c s = Some s'"
  shows "kernel_safe s'"
proof -
  let ?k = "conns s ! c"
  have wf: "conn_wf (numBlocks s) ?k" by (rule conn_wfD [OF inv c])
  show ?thesis
  proof (cases "c_pc ?k")
    case (CUnref b)
    with st kernel_safe_conn_unref [OF inv few ks c, of b CSelect] wf show ?thesis
      by (simp add: conn_step_def conn_wf_def chold_def)
  next
    case (CDrainUnref b)
    with st kernel_safe_conn_unref [OF inv few ks c, of b CDrainNew] wf show ?thesis
      by (simp add: conn_step_def conn_wf_def chold_def)
  next
    case (CFinal i)
    with st kernel_safe_conn_unref [OF inv few ks c, of i "CFinal (Suc i)"] wf show ?thesis
      by (auto simp: conn_step_def conn_wf_def chold_def Let_def split: if_splits intro!: kernel_safe_set_conn [OF ks])
  next
    case (CClear b pc)
    then have cb: "clearing s i" if "i = b \<or> pc_clears pc i" for i
      using that c by (auto simp: clearing_def intro!: bexI [of _ ?k])
    have s': "s' = set_conn (clear_block s b) c (?k\<lparr>c_pc := pc\<rparr>)"
      using st CClear by (simp add: conn_step_def)
    show ?thesis
    proof (rule kernel_safe_clear [OF ks cb [of b]])
      fix i assume "clearing s' i"
      then show "clearing s i"
        using clearing_set_conn [of "clear_block s b" c "?k\<lparr>c_pc := pc\<rparr>" i] cb [of i]
        by (auto simp: s' clear_block_def clearing_cong [of "s\<lparr>status := _\<rparr>" s])
    qed (simp_all add: s' clear_block_def)
  qed (use st in \<open>auto simp: conn_step_def Let_def conn_take_def split: recv_res.splits prod.splits option.splits if_splits
          intro!: kernel_safe_set_conn kernel_safe_crash ks\<close>)
qed

lemma kernel_safe_run:
  assumes inv: "sock_inv s" and few: "few_conns s" and ks: "kernel_safe s" and st: "run_step s = Some s'"
  shows "kernel_safe s'"
proof (cases "r_pc s")
  case (RClose d)
  then have d: "d < length (conns s)"
    using sock_invD(2) [OF inv] by (simp add: phases_ok_def)
  show ?thesis
  proof (cases "chan_close (cnew (conns s ! d))")
    case None
    with RClose st ks show ?thesis by (auto simp: run_step_def intro: kernel_safe_crash)
  next
    case (Some ch)
    with RClose st have s': "s' = (set_conn s d ((conns s ! d)\<lparr>cnew := ch\<rparr>))
        \<lparr>currentConns := filter (\<lambda>e. e \<noteq> d) (currentConns s), r_pc := RSelect\<rparr>"
      by (simp add: run_step_def)
    show ?thesis
      by (rule kernel_safe_quiet [OF kernel_safe_same_pc [OF ks d, of "(conns s ! d)\<lparr>cnew := ch\<rparr>"]])
         (auto simp: s' clearing_def)
  qed
next
  case (RRange b todo)
  have b: "b < numBlocks s" "length (refs s) = numBlocks s"
    using sock_invD(1) [OF inv] RRange by (simp_all add: shape_ok_def)
  have hold: "0 < holders s b" using RRange by (simp add: holders_def)
  show ?thesis
  proof (cases todo)
    case Nil
    show ?thesis
    proof (rule kernel_safe_unref [OF inv few ks b(1) hold])
      fix i assume "clearing s' i"
      then show "clearing s i \<or> (i = b \<and> snd (unref (refs s ! b)) = ClearBlock)"
        using st RRange Nil
        by (auto simp: run_step_def run_unref_def clearing_def set_crash_def split: unref_out.splits)
    qed (use st RRange Nil in \<open>auto simp: run_step_def run_unref_def dec_block_def set_crash_def
           split: unref_out.splits\<close>)
  next
    case (Cons c cs)
    have "refs s ! b \<noteq> 0" using refs_zero_iff [OF inv few b(1)] hold by simp
    with st RRange Cons show ?thesis
      by (intro kernel_safe_ref [OF ks b, where r = "ref (refs s ! b)"])
         (auto simp: run_step_def ref_block_def clearing_def)
  qed
next
  case (RSend b c todo)
  then have c: "c < length (conns s)"
    using sock_invD(1) [OF inv] by (auto simp: shape_ok_def)
  obtain ch where "chan_send (cnew (conns s ! c)) b = SendOk ch"
    using run_send_room [OF inv RSend] by blast
  with RSend st have s': "s' = (set_conn s c ((conns s ! c)\<lparr>cnew := ch\<rparr>))\<lparr>r_pc := RRange b todo\<rparr>"
    by (simp add: run_step_def)
  show ?thesis
    by (rule kernel_safe_quiet [OF kernel_safe_same_pc [OF ks c, of "(conns s ! c)\<lparr>cnew := ch\<rparr>"]])
       (auto simp: s' clearing_def)
next
  case (RUnsend b todo)
  then show ?thesis using sock_invD(1) [OF inv] by (simp add: shape_ok_def)
next
  case (RClear b pc)
  with st show ?thesis
    by (intro kernel_safe_clear [OF ks, of b]) (auto simp: run_step_def clear_block_def clearing_def)
qed (use st in \<open>simp add: run_step_def\<close>)

lemma exec_kernel_safe:
  assumes ex: "exec e s = Some s'" and inv: "sock_inv s" and few: "few_conns s" and ks: "kernel_safe s"
    and calm: "calm e s"
  shows "kernel_safe s'"
proof (cases e)
  case (EKernel b v)
  with ex show ?thesis
    using ks by (auto simp: kernel_step_def kernel_safe_def nth_list_update clearing_def split: if_splits)
next
  case EGet
  with ex calm kernel_safe_get [OF inv ks] show ?thesis by simp
next
  case (EGetFail m)
  with ex ks show ?thesis by (auto simp: getNewBlocks_fail_def split: if_splits intro: kernel_safe_crash)
next
  case (ENewConn k)
  with ex show ?thesis
    by (auto intro!: kernel_safe_quiet [OF ks] simp: run_newConn_def addNewConn_def clearing_def split: if_splits)
next
  case (EOldConn d)
  with ex show ?thesis
    by (auto intro!: kernel_safe_quiet [OF ks] simp: run_oldConn_def clearing_def
        split: if_splits dest!: set_update_subset)
next
  case (ENewBlock order)
  with ex show ?thesis
    by (auto intro!: kernel_safe_quiet [OF ks] simp: run_newBlock_def clearing_def set_crash_def
        split: if_splits recv_res.splits)
next
  case ERun
  with ex kernel_safe_run [OF inv few ks] show ?thesis by simp
next
  case (EConnNew d)
  with ex ks show ?thesis
    by (auto simp: on_conn_def conn_newBlock_def conn_take_def Let_def split: if_splits recv_res.splits
        intro!: kernel_safe_set_conn kernel_safe_crash)
next
  case (EConnOld d)
  with ex ks show ?thesis
    by (auto simp: on_conn_def conn_oldBlock_def Let_def split: if_splits recv_res.splits
        intro!: kernel_safe_set_conn kernel_safe_crash)
next
  case (EConn d)
  with ex kernel_safe_conn [OF inv few ks] show ?thesis by (auto simp: on_conn_def split: if_splits)
next
  case (EReads d)
  with ex ks show ?thesis
    by (auto simp: on_conn_def reads_step_def Let_def
        split: if_splits reads_pc.splits prod.splits read_out.splits send_res.splits option.splits
        intro!: kernel_safe_same_pc kernel_safe_crash)
next
  case (EClient d bs)
  with ex ks show ?thesis
    by (auto simp: on_conn_def client_send_def Let_def split: if_splits intro!: kernel_safe_same_pc)
next
  case (EHangup d)
  with ex ks show ?thesis
    by (auto simp: on_conn_def client_hangup_def Let_def split: if_splits intro!: kernel_safe_same_pc)
qed

lemma calm_reach_safe:
  assumes "calm_reach n s" and "0 < n" and "few_conns s"
  shows "kernel_safe s"
  using assms
proof (induction rule: calm_reach.induct)
  case calm_start
  then show ?case by (simp add: kernel_safe_def init_socket_def)
next
  case (calm_step s e s')
  then have ex: "exec e s = Some s'" by (simp add: step_def split: if_splits)
  with calm_step.prems(2) have few: "few_conns s"
    using exec_frame [of e s s'] by (simp add: few_conns_def)
  then have "sock_inv s"
    using reach_inv [OF calm_reach_reach [OF calm_step.hyps(1)] calm_step.prems(1)] by blast
  then show ?case
    using exec_kernel_safe [OF ex _ few] calm_step few by blast
qed

fun calm_events :: "event list \<Rightarrow> socket \<Rightarrow> bool" where
  "calm_events [] s = True"
| "calm_events (e # es) s = (calm e s \<and> (case step e s of None \<Rightarrow> True | Some s' \<Rightarrow> calm_events es s'))"

lemma calm_events_reach:
  "calm_reach n s \<Longrightarrow> calm_events es s \<Longrightarrow> run_events es s = Some s' \<Longrightarrow> calm_reach n s'"
  by (induction es arbitrary: s) (auto split: option.splits intro: calm_reach.calm_step)

text \<open>C4: in every run in which \<^verbatim>\<open>ready\<close> never reads the status of a block between the last \<^verbatim>\<open>unref\<close> of that block and
  the write of its status, a block that a client or the daemon holds is never the kernel's: its status word is not
  zero, so the kernel does not write into it.\<close>

theorem held_block_not_kernels:
  assumes "calm_reach n s" and "0 < n" and "few_conns s" and "i < n" and "0 < holders s i"
  shows "status s ! i \<noteq> 0"
proof -
  have "reach n s" using calm_reach_reach [OF assms(1)] .
  then have inv: "sock_inv s" and n: "numBlocks s = n" using reach_inv assms(2,3) by auto
  have "refs s ! i \<noteq> 0"
    using refs_zero_iff [OF inv assms(3)] assms(4,5) n by simp
  then show ?thesis
    using calm_reach_safe [OF assms(1-3)] assms(4) n by (simp add: kernel_safe_def)
qed

lemma demo_calm: "calm_reach 2 demo_delivered"
proof (rule calm_events_reach [OF calm_reach.calm_start _ demo_deliver_run])
  show "calm_events demo_deliver (init_socket 2)" by code_simp
qed

theorem held_block_not_kernels_witness: "status demo_delivered ! 0 \<noteq> 0"
proof (rule held_block_not_kernels [OF demo_calm _ demo_few(2)])
  show "0 < holders demo_delivered 0" by code_simp
qed simp_all

section \<open>Ownership with overlap\<close>

text \<open>Both blocks are delivered; the client returns block 0; its goroutine drops the last reference; before
  it clears the status, \<^verbatim>\<open>getNewBlocks\<close> finds the counter zero and the old status and announces the block
  again; then the status is cleared, and the block goes to the client once more.\<close>

definition demo_race :: "event list" where
  "demo_race = demo_deliver @
     [EKernel 1 1, EGet, EGet, EGet, EGet, ENewBlock [0], ERun, ERun, ERun, EConnNew 0, EConn 0, EConn 0,
      EClient 0 [0, 0, 0, 0], EReads 0, EReads 0, EConnOld 0, EConn 0,
      EGet, EGet, EGet, EGet,
      EConn 0,
      ENewBlock [0], ERun, ERun, ERun, EConnNew 0, EConn 0, EConn 0]"

lemma demo_race_run:
  "case run_events demo_race (init_socket 2) of
     None \<Rightarrow> False
   | Some s \<Rightarrow> outstanding (conns s ! 0) ! 0 \<and> c_pc (conns s ! 0) = CSelect \<and> status s ! 0 = 0 \<and>
       crashed s = None \<and> wbytes (sock (conns s ! 0)) = indexes [0, 1, 0]"
  by code_simp

text \<open>C15: that condition is needed: the daemon can reach a state in which the client has been told that
  block 0 is its own, twice, while the kernel filled the block only once, and the status word of the
  block is zero, so that the kernel may write into the block while the client reads it.\<close>

theorem held_block_can_be_kernels:
  "\<exists>s. reach 2 s \<and> crashed s = None \<and> outstanding (conns s ! 0) ! 0 \<and> c_pc (conns s ! 0) = CSelect \<and>
     wbytes (sock (conns s ! 0)) = indexes [0, 1, 0] \<and> status s ! 0 = 0"
  using demo_race_run run_events_reach [OF reach.start, of demo_race 2] by (auto split: option.splits)

end
