(* ===== verification/Client.thy ===== *)
theory Client
  imports Protocol Gopath
begin

text \<open>
  The client library (\<^verbatim>\<open>go/testimony/testimony.go\<close>): connecting, choosing a fanout index, receiving and
  returning blocks.  The client's machine is a parameter: dialling, the system calls, and the control message that
  comes with the server's last byte.
\<close>

section \<open>State\<close>

text \<open>\<open>None\<close> for \<open>c\<close> and \<open>ring\<close> is Go's nil.  The ring is the content of the mapped memory.\<close>

record Conn =
  c_sock :: "uconn option"
  c_fd :: int
  c_ring :: "byte list option"
  c_numBlocks :: int
  c_blockSize :: int
  c_fanoutSize :: int

definition new_Conn :: Conn where
  "new_Conn = \<lparr>c_sock = None, c_fd = 0, c_ring = None, c_numBlocks = 0, c_blockSize = 0, c_fanoutSize = 0\<rparr>"

definition Conn_NumBlocks :: "Conn \<Rightarrow> int" where "Conn_NumBlocks t = c_numBlocks t"
definition Conn_BlockSize :: "Conn \<Rightarrow> int" where "Conn_BlockSize t = c_blockSize t"
definition Conn_FanoutSize :: "Conn \<Rightarrow> int" where "Conn_FanoutSize t = c_fanoutSize t"

text \<open>A control message: passed descriptors, or anything else.  \<open>oob_msgs\<close> is \<open>None\<close> when the data cannot be parsed.\<close>

datatype ctrl_msg = Rights "int list" | OtherCtrl

record oob =
  oob_len :: nat
  oob_msgs :: "ctrl_msg list option"

record client_env =
  e_tempdir :: string
  e_rand :: "byte list option"
  e_dial :: "string \<Rightarrow> string \<Rightarrow> uconn option"
  e_oob :: oob
  e_mmap :: "int \<Rightarrow> int \<Rightarrow> byte list option"
  e_munmap :: bool                       \<comment> \<open>whether the call succeeds\<close>
  e_close :: "int \<Rightarrow> bool"
  e_closeConn :: bool

section \<open>localSocketName\<close>

definition hex_digit :: "byte \<Rightarrow> char" where
  "hex_digit b = ''0123456789abcdef'' ! unat b"

definition hex_encode :: "byte list \<Rightarrow> string" where
  "hex_encode bs = concat (map (\<lambda>b. [hex_digit (drop_bit 4 b), hex_digit (b AND 0xF)]) bs)"

text \<open>\<open>None\<close> is the panic when no random bytes can be had.\<close>

definition localSocketName :: "client_env \<Rightarrow> string option" where
  "localSocketName env =
     (case e_rand env of
        None \<Rightarrow> None
      | Some randbytes \<Rightarrow>
          if length randbytes \<noteq> 8 then None
          else Some (path_join (e_tempdir env) (''testimony_go_client_'' @ hex_encode randbytes)))"

section \<open>Close\<close>

datatype close_err = MunmapErr | CloseFdErr | CloseConnErr

definition close_ring :: "client_env \<Rightarrow> Conn \<Rightarrow> close_err option \<times> Conn" where
  "close_ring env t =
     (if c_ring t \<noteq> None then
        if e_munmap env then (None, t\<lparr>c_ring := None\<rparr>) else (Some MunmapErr, t)
      else (None, t))"

definition close_fd :: "client_env \<Rightarrow> Conn \<Rightarrow> close_err option \<times> Conn" where
  "close_fd env t =
     (if c_fd t \<noteq> 0 then
        if e_close env (c_fd t) then (None, t\<lparr>c_fd := 0\<rparr>) else (Some CloseFdErr, t)
      else (None, t))"

definition close_conn :: "client_env \<Rightarrow> Conn \<Rightarrow> close_err option \<times> Conn" where
  "close_conn env t =
     (case c_sock t of
        Some c \<Rightarrow> if e_closeConn env then (None, t\<lparr>c_sock := None\<rparr>) else (Some CloseConnErr, t)
      | None \<Rightarrow> (None, t))"

text \<open>Each part is tried; the last error wins.\<close>

definition Conn_Close :: "client_env \<Rightarrow> Conn \<Rightarrow> close_err option \<times> Conn" where
  "Conn_Close env t =
     (case close_ring env t of
        (r1, t) \<Rightarrow>
          (case close_fd env t of
             (r2, t) \<Rightarrow>
               (case close_conn env t of
                  (r3, t) \<Rightarrow>
                    ((case r3 of Some e \<Rightarrow> Some e
                      | None \<Rightarrow> (case r2 of Some e \<Rightarrow> Some e | None \<Rightarrow> r1)), t))))"

section \<open>Connect\<close>

datatype connect_err =
    DialFailed
  | VersionReadErr io_err
  | ProtocolMismatch byte
  | TLVReadErr io_err
  | BadInitialType ptype
  | ValReadErr io_err
  | BadValLength ptype int
  | MissingSizes
  | ConnectPanic

text \<open>The sizes that the server announces, as the loop collects them.\<close>

record sizes =
  z_fanoutSize :: int
  z_blockSize :: int
  z_numBlocks :: int

text \<open>The \<^verbatim>\<open>switch\<close> on the type of a message: done, an error, or the sizes so far.\<close>

definition tlv_switch :: "ptype \<Rightarrow> int \<Rightarrow> byte list \<Rightarrow> sizes \<Rightarrow> connect_err + (bool \<times> sizes)" where
  "tlv_switch typ len val z =
     (if typ = TypeWaitingForFanoutIndex then Inr (True, z)
      else if typ = TypeFanoutSize then
        if len \<noteq> 4 then Inl (BadValLength typ len)
        else (case Uint32 val of None \<Rightarrow> Inl ConnectPanic | Some v \<Rightarrow> Inr (False, z\<lparr>z_fanoutSize := uint v\<rparr>))
      else if typ = TypeBlockSize then
        if len \<noteq> 4 then Inl (BadValLength typ len)
        else (case Uint32 val of None \<Rightarrow> Inl ConnectPanic | Some v \<Rightarrow> Inr (False, z\<lparr>z_blockSize := uint v\<rparr>))
      else if typ = TypeNumBlocks then
        if len \<noteq> 4 then Inl (BadValLength typ len)
        else (case Uint32 val of None \<Rightarrow> Inl ConnectPanic | Some v \<Rightarrow> Inr (False, z\<lparr>z_numBlocks := uint v\<rparr>))
      else Inr (False, z))"

lemma ReadFull_pending:
  assumes "ReadFull c n = (Inr bs, c')"
  shows "pending c = bs @ pending c' \<and> length bs = n"
proof (cases "uclosed c")
  case True
  then show ?thesis
    using assms by (auto simp: ReadFull_def read_loop.simps [of c] Read_def split: if_splits)
next
  case False
  then show ?thesis
    using uc.rd_Inr [OF False assms] by (metis append_take_drop_id)
qed

text \<open>One round of the loop; a result with \<open>True\<close> leaves it.\<close>

definition tlv_round :: "uconn \<Rightarrow> sizes \<Rightarrow> (connect_err + (bool \<times> sizes)) \<times> uconn" where
  "tlv_round c z =
     (case ReadFull c 4 of
        (Inl e, c1) \<Rightarrow> (Inl (TLVReadErr e), c1)
      | (Inr buf, c1) \<Rightarrow>
          (case Uint32 buf of
             None \<Rightarrow> (Inl ConnectPanic, c1)
           | Some num \<Rightarrow>
               (case TLFrom num of
                  (typ, len) \<Rightarrow>
                    if TypeOf typ \<noteq> TypeServerToClient then (Inl (BadInitialType typ), c1)
                    else
                      (case ReadFull c1 (nat len) of
                         (Inl e, c2) \<Rightarrow> (Inl (ValReadErr e), c2)
                       | (Inr val, c2) \<Rightarrow> (tlv_switch typ len val z, c2)))))"

lemma tlv_round_less: "tlv_round c z = (Inr dz, c') \<Longrightarrow> length (pending c') < length (pending c)"
  by (auto simp: tlv_round_def split: prod.splits sum.splits option.splits if_splits dest!: ReadFull_pending)

function tlvLoop :: "uconn \<Rightarrow> sizes \<Rightarrow> (connect_err + sizes) \<times> uconn" where
  "tlvLoop c z =
     (case tlv_round c z of
        (Inl e, c') \<Rightarrow> (Inl e, c')
      | (Inr (True, z'), c') \<Rightarrow> (Inr z', c')
      | (Inr (False, z'), c') \<Rightarrow> tlvLoop c' z')"
  by pat_completeness auto
termination
  by (relation "measure (\<lambda>(c, z). length (pending c))") (auto dest: tlv_round_less [OF sym])

declare tlvLoop.simps [simp del]

definition client_protocolVersion :: byte where
  "client_protocolVersion = 2"

text \<open>The handshake on a connection that has been made.\<close>

definition connect_on :: "uconn \<Rightarrow> (connect_err + sizes) \<times> uconn" where
  "connect_on c =
     (case ReadFull c 1 of
        (Inl e, c) \<Rightarrow> (Inl (VersionReadErr e), c)
      | (Inr version, c) \<Rightarrow>
          if hd version \<noteq> client_protocolVersion then (Inl (ProtocolMismatch (hd version)), c)
          else
            (case tlvLoop c \<lparr>z_fanoutSize = 0, z_blockSize = 0, z_numBlocks = 0\<rparr> of
               (Inl e, c) \<Rightarrow> (Inl e, c)
             | (Inr z, c) \<Rightarrow>
                 if z_fanoutSize z \<le> 0 \<or> z_blockSize z \<le> 0 \<or> z_numBlocks z \<le> 0
                 then (Inl MissingSizes, c) else (Inr z, c)))"

text \<open>The outcome, and the \<^verbatim>\<open>Conn\<close> as it is left: on an error the deferred function has closed it.\<close>

definition Connect :: "client_env \<Rightarrow> string \<Rightarrow> (connect_err + Conn) \<times> Conn" where
  "Connect env socketname =
     (case localSocketName env of
        None \<Rightarrow> (Inl ConnectPanic, new_Conn)
      | Some name \<Rightarrow>
          (case e_dial env name socketname of
             None \<Rightarrow> (Inl DialFailed, snd (Conn_Close env new_Conn))
           | Some c \<Rightarrow>
               (case connect_on c of
                  (Inl e, c) \<Rightarrow> (Inl e, snd (Conn_Close env (new_Conn\<lparr>c_sock := Some c\<rparr>)))
                | (Inr z, c) \<Rightarrow>
                    (let t = new_Conn\<lparr>c_sock := Some c, c_numBlocks := z_numBlocks z,
                                      c_blockSize := z_blockSize z, c_fanoutSize := z_fanoutSize z\<rparr>
                     in (Inr t, t)))))"

section \<open>Init\<close>

datatype init_err =
    IndexSendErr send_err
  | FdReadErr io_err
  | WrongByteCount nat
  | TooManyOob nat
  | BadControl
  | WrongControlCount nat
  | NotRights
  | WrongFdCount nat
  | MmapFailed

text \<open>\<^verbatim>\<open>ReadMsgUnix\<close> with a one-byte buffer: the data, and the control message that arrives with it.\<close>

definition ReadMsgUnix :: "client_env \<Rightarrow> uconn \<Rightarrow> byte list \<times> oob \<times> io_err option \<times> uconn" where
  "ReadMsgUnix env c = (case Read c 1 of (bs, err, c') \<Rightarrow> (bs, e_oob env, err, c'))"

definition parse_fd :: "oob \<Rightarrow> init_err + int" where
  "parse_fd ctl =
     (case oob_msgs ctl of
        None \<Rightarrow> Inl BadControl
      | Some msgs \<Rightarrow>
          (case msgs of
             [Rights fds] \<Rightarrow> (case fds of [fd] \<Rightarrow> Inr fd | _ \<Rightarrow> Inl (WrongFdCount (length fds)))
           | [OtherCtrl] \<Rightarrow> Inl NotRights
           | _ \<Rightarrow> Inl (WrongControlCount (length msgs))))"

text \<open>A nil connection fails every \<^verbatim>\<open>Write\<close> and \<^verbatim>\<open>Read\<close>.\<close>

definition init_body :: "client_env \<Rightarrow> int \<Rightarrow> Conn \<Rightarrow> init_err option \<times> Conn" where
  "init_body env fanoutIndex t =
     (case c_sock t of
        None \<Rightarrow> (Some (IndexSendErr (WriteFailed ErrIO)), t)
      | Some c \<Rightarrow>
          (case SendUint32 Write c TypeFanoutIndex (word_of_int fanoutIndex) of
             (Some e, c) \<Rightarrow> (Some (IndexSendErr e), t\<lparr>c_sock := Some c\<rparr>)
           | (None, c) \<Rightarrow>
               (case ReadMsgUnix env c of
                  (msg, ctl, err, c) \<Rightarrow>
                    (let t = t\<lparr>c_sock := Some c\<rparr> in
                     case err of
                       Some e \<Rightarrow> (Some (FdReadErr e), t)
                     | None \<Rightarrow>
                         if length msg \<noteq> 1 then (Some (WrongByteCount (length msg)), t)
                         else if oob_len ctl \<ge> 1024 then (Some (TooManyOob (oob_len ctl)), t)
                         else
                           (case parse_fd ctl of
                              Inl e \<Rightarrow> (Some e, t)
                            | Inr fd \<Rightarrow>
                                (let t = t\<lparr>c_fd := fd\<rparr> in
                                 case e_mmap env fd (wrap64 (c_blockSize t * c_numBlocks t)) of
                                   None \<Rightarrow> (Some MmapFailed, t)
                                 | Some mem \<Rightarrow> (None, t\<lparr>c_ring := Some mem\<rparr>)))))))"

definition Conn_Init :: "client_env \<Rightarrow> int \<Rightarrow> Conn \<Rightarrow> init_err option \<times> Conn" where
  "Conn_Init env fanoutIndex t =
     (case init_body env fanoutIndex t of
        (None, t) \<Rightarrow> (None, t)
      | (Some e, t) \<Rightarrow> (Some e, snd (Conn_Close env t)))"

section \<open>Blocks\<close>

text \<open>A Go slice of the ring: it may be re-sliced up to its capacity, which reaches to the end of the ring.\<close>

record slice =
  sl_mem :: "byte list"
  sl_off :: nat
  sl_len :: nat

definition sl_cap :: "slice \<Rightarrow> nat" where
  "sl_cap s = length (sl_mem s) - sl_off s"

definition sl_bytes :: "slice \<Rightarrow> byte list" where
  "sl_bytes s = take (sl_len s) (drop (sl_off s) (sl_mem s))"

definition nil_slice :: slice where
  "nil_slice = \<lparr>sl_mem = [], sl_off = 0, sl_len = 0\<rparr>"

text \<open>\<^verbatim>\<open>s[lo:hi]\<close>; \<open>None\<close> is the panic.\<close>

definition reslice :: "slice \<Rightarrow> int \<Rightarrow> int \<Rightarrow> slice option" where
  "reslice s lo hi =
     (if 0 \<le> lo \<and> lo \<le> hi \<and> hi \<le> int (sl_cap s)
      then Some \<lparr>sl_mem = sl_mem s, sl_off = sl_off s + nat lo, sl_len = nat (hi - lo)\<rparr> else None)"

text \<open>\<open>b_t\<close>: the block still has its connection.  \<open>b_pkt\<close> is the position of the current packet's header in the block,
  \<open>None\<close> for nil.\<close>

record Block =
  b_t :: bool
  b_i :: int
  b_B :: slice
  b_offset :: int
  b_left :: int
  b_pkt :: "int option"

datatype block_err = IndexReadErr io_err | TLVValueErr ptype int io_err | NonServerMessage ptype | InvalidIndex int

function readLoop :: "uconn \<Rightarrow> (block_err + u32) \<times> uconn" where
  "readLoop c =
     (case ReadFull c 4 of
        (Inl e, c1) \<Rightarrow> (Inl (IndexReadErr e), c1)
      | (Inr m, c1) \<Rightarrow>
          (case Uint32 m of
             None \<Rightarrow> (Inl (IndexReadErr ErrIO), c1)   \<comment> \<open>not reached: four bytes were read\<close>
           | Some num \<Rightarrow>
               (case TLFrom num of
                  (typ, len) \<Rightarrow>
                    if TypeOf typ = TypeBlockIndex then (Inr num, c1)
                    else if TypeOf typ = TypeServerToClient then
                      (case ReadFull c1 (nat len) of
                         (Inl e, c2) \<Rightarrow> (Inl (TLVValueErr typ len e), c2)
                       | (Inr val, c2) \<Rightarrow> readLoop c2)
                    else (Inl (NonServerMessage typ), c1))))"
  by pat_completeness auto
termination
  by (relation "measure (\<lambda>c. length (pending c))") (auto dest!: ReadFull_pending [OF sym])

declare readLoop.simps [simp del]

definition new_Block :: "int \<Rightarrow> slice \<Rightarrow> Block" where
  "new_Block i s = \<lparr>b_t = True, b_i = i, b_B = s, b_offset = 0, b_left = 0, b_pkt = None\<rparr>"

definition ring_slice :: "Conn \<Rightarrow> slice" where
  "ring_slice t =
     (case c_ring t of None \<Rightarrow> nil_slice | Some mem \<Rightarrow> \<lparr>sl_mem = mem, sl_off = 0, sl_len = length mem\<rparr>)"

text \<open>\<open>None\<close> is a panic of the slice expression.\<close>

definition Conn_Block :: "Conn \<Rightarrow> (block_err + Block) option \<times> Conn" where
  "Conn_Block t =
     (case c_sock t of
        None \<Rightarrow> (Some (Inl (IndexReadErr ErrIO)), t)
      | Some c \<Rightarrow>
          (case readLoop c of
             (Inl e, c) \<Rightarrow> (Some (Inl e), t\<lparr>c_sock := Some c\<rparr>)
           | (Inr num, c) \<Rightarrow>
               (let t = t\<lparr>c_sock := Some c\<rparr>; idx = uint num in
                if idx < 0 \<or> idx \<ge> c_numBlocks t then (Some (Inl (InvalidIndex idx)), t)
                else
                  (let start = wrap64 (idx * c_blockSize t) in
                   case reslice (ring_slice t) start (wrap64 (start + c_blockSize t)) of
                     None \<Rightarrow> (None, t)
                   | Some B \<Rightarrow> (Some (Inr (new_Block idx B)), t)))))"

text \<open>\<^verbatim>\<open>Return\<close>: \<open>None\<close> is the nil dereference of a block that was returned before.\<close>

definition Block_Return :: "Block \<Rightarrow> Conn \<Rightarrow> (io_err option \<times> Block \<times> Conn) option" where
  "Block_Return b t =
     (if \<not> b_t b then None
      else
        (case c_sock t of
           None \<Rightarrow> Some (Some ErrIO, b, t)
         | Some c \<Rightarrow>
             (case Write c (PutUint32 (word_of_int (b_i b))) of
                (Some e, c) \<Rightarrow> Some (Some e, b, t\<lparr>c_sock := Some c\<rparr>)
              | (None, c) \<Rightarrow>
                  Some (None, b\<lparr>b_t := False, b_i := 0, b_B := nil_slice\<rparr>, t\<lparr>c_sock := Some c\<rparr>))))"

section \<open>Reading the announcements\<close>

lemma ReadFull_prefix:
  assumes "\<not> uclosed c" and "pending c = bs @ rest"
  shows "\<exists>c'. ReadFull c (length bs) = (Inr bs, c') \<and> pending c' = rest \<and> c' = c\<lparr>rchunks := rchunks c'\<rparr>"
  using uc.rd_prefix [OF assms refl] ReadFull_fields by blast

lemma Read_pieces: "Read c n = (bs, r, c') \<Longrightarrow> [] \<notin> set (rchunks c) \<Longrightarrow> [] \<notin> set (rchunks c')"
  by (auto simp: Read_def split: if_splits list.splits)

lemma read_loop_pieces: "read_loop c got n = (r, c') \<Longrightarrow> [] \<notin> set (rchunks c) \<Longrightarrow> [] \<notin> set (rchunks c')"
proof (induction c got n rule: read_loop.induct)
  case (1 c got n)
  obtain bs e c1 where rd: "Read c (n - length got) = (bs, e, c1)" by (cases "Read c (n - length got)")
  show ?case
  proof (cases "n \<le> length got")
    case True
    with 1(2,3) show ?thesis by (simp add: read_loop.simps [of c])
  next
    case False
    with 1 rd Read_pieces [OF rd] show ?thesis
      by (cases e) (auto simp: read_loop.simps [of c])
  qed
qed

lemma ReadFull_pieces: "ReadFull c n = (r, c') \<Longrightarrow> [] \<notin> set (rchunks c) \<Longrightarrow> [] \<notin> set (rchunks c')"
  by (auto simp: ReadFull_def split: prod.splits sum.splits dest: read_loop_pieces)

text \<open>The connection after some of its input has been read: \<open>rest\<close> is left, and if all pieces of data were non-empty
  they still are.\<close>

definition read_to :: "uconn \<Rightarrow> byte list \<Rightarrow> uconn \<Rightarrow> bool" where
  "read_to c rest c' \<longleftrightarrow>
     pending c' = rest \<and> c' = c\<lparr>rchunks := rchunks c'\<rparr> \<and> ([] \<notin> set (rchunks c) \<longrightarrow> [] \<notin> set (rchunks c'))"

lemma read_to_open: "read_to c rest c' \<Longrightarrow> uclosed c' = uclosed c \<and> pending c' = rest \<and> wbytes c' = wbytes c \<and> wroom c' = wroom c"
  by (simp add: read_to_def) (metis uconn.select_convs(3,5,6) uconn.surjective uconn.update_convs(1))

lemma read_to_trans: "read_to a r1 b \<Longrightarrow> read_to b r2 c \<Longrightarrow> read_to a r2 c"
  unfolding read_to_def by (metis uconn.surjective uconn.update_convs(1))

lemma ReadFull_to:
  assumes "\<not> uclosed c" and "pending c = bs @ rest" and "length bs = n"
  shows "\<exists>c'. ReadFull c n = (Inr bs, c') \<and> read_to c rest c'"
  using ReadFull_prefix [OF assms(1,2)] assms(3) ReadFull_pieces by (auto simp: read_to_def)

lemma tlvLoop_msg:
  assumes "\<not> uclosed c" and "pending c = PutUint32 (ToTL t (int (length val))) @ val @ rest"
    and "TypeOf t = TypeServerToClient" and "length val \<le> 0xFFFF" and "0x8000 \<le> unat t"
  shows "\<exists>c'. read_to c rest c' \<and>
           tlvLoop c z =
             (case tlv_switch t (int (length val)) val z of
                Inl e \<Rightarrow> (Inl e, c')
              | Inr (True, z') \<Rightarrow> (Inr z', c')
              | Inr (False, z') \<Rightarrow> tlvLoop c' z')"
proof -
  obtain c1 where c1: "ReadFull c 4 = (Inr (PutUint32 (ToTL t (int (length val)))), c1)" "read_to c (val @ rest) c1"
    using ReadFull_to [OF assms(1,2), of 4] by auto
  obtain c2 where c2: "ReadFull c1 (length val) = (Inr val, c2)" "read_to c1 rest c2"
    using ReadFull_to [of c1 val rest] read_to_open [OF c1(2)] assms(1) by auto
  have "TLFrom (ToTL t (int (length val))) = (t, int (length val))"
    using assms(4,5) by (intro TLFrom_ToTL) simp_all
  then show ?thesis
    using c1 c2 assms(3) read_to_trans [OF c1(2) c2(2)] by (intro exI [of _ c2]) (simp add: tlvLoop.simps [of c] tlv_round_def split: sum.split bool.split)
qed

section \<open>What Connect gives\<close>

definition sizes_small :: "sizes \<Rightarrow> bool" where
  "sizes_small z \<longleftrightarrow>
     z_fanoutSize z \<in> {0..<2 ^ 32} \<and> z_blockSize z \<in> {0..<2 ^ 32} \<and> z_numBlocks z \<in> {0..<2 ^ 32}"

lemma uint32_less: "uint (v :: u32) < 4294967296"
  using unsigned_less [of v, where 'a = int] by simp

lemma tlv_switch_small:
  "tlv_switch t len val z = Inr (d, z') \<Longrightarrow> sizes_small z \<Longrightarrow> sizes_small z'"
  by (auto simp: tlv_switch_def sizes_small_def uint32_less split: if_splits option.splits)

lemma tlv_switch_no_panic:
  assumes "length val = nat len"
  shows "tlv_switch t len val z \<noteq> Inl ConnectPanic"
proof (cases "len = 4")
  case True
  then obtain v where "Uint32 val = Some v" using Uint32_length4 assms by auto
  then show ?thesis by (simp add: tlv_switch_def)
qed (simp add: tlv_switch_def)

lemma tlv_round_result:
  assumes "tlv_round c z = (r, c')" and "sizes_small z"
  shows "r \<noteq> Inl ConnectPanic \<and> (\<forall>d z'. r = Inr (d, z') \<longrightarrow> sizes_small z')"
proof -
  have "\<exists>num. Uint32 buf = Some num" if "ReadFull c 4 = (Inr buf, c1)" for buf c1
    using ReadFull_pending [OF that] Uint32_length4 by blast
  then show ?thesis
    using assms tlv_switch_small [OF _ assms(2)] tlv_switch_no_panic
    by (fastforce simp: tlv_round_def split: prod.splits sum.splits option.splits if_splits dest!: ReadFull_pending)
qed

lemma tlvLoop_result:
  assumes "tlvLoop c z = (r, c')" and "sizes_small z"
  shows "r \<noteq> Inl ConnectPanic \<and> (\<forall>z'. r = Inr z' \<longrightarrow> sizes_small z')"
  using assms
proof (induction c z arbitrary: r c' rule: tlvLoop.induct)
  case (1 c z)
  obtain r1 c1 where rd: "tlv_round c z = (r1, c1)" by force
  note round = tlv_round_result [OF rd 1(3)]
  show ?case
  proof (cases r1)
    case (Inl e)
    with rd 1(2) round show ?thesis by (auto simp: tlvLoop.simps [of c])
  next
    case (Inr dz)
    obtain d z' where dz: "dz = (d, z')" by force
    show ?thesis
    proof (cases d)
      case True
      with rd 1(2) Inr dz round show ?thesis by (auto simp: tlvLoop.simps [of c])
    next
      case False
      with rd 1(2) Inr dz have "tlvLoop c1 z' = (r, c')" by (simp add: tlvLoop.simps [of c])
      with 1(1) [OF rd [symmetric] Inr dz [symmetric]] False round Inr dz show ?thesis by simp
    qed
  qed
qed

lemma connect_on_result:
  assumes "connect_on c = (r, c')"
  shows "r \<noteq> Inl ConnectPanic \<and> (\<forall>z. r = Inr z \<longrightarrow> sizes_small z \<and> 0 < z_fanoutSize z \<and> 0 < z_blockSize z \<and> 0 < z_numBlocks z)"
proof -
  have "sizes_small \<lparr>z_fanoutSize = 0, z_blockSize = 0, z_numBlocks = 0\<rparr>" by (simp add: sizes_small_def)
  then show ?thesis
    using assms tlvLoop_result [of _ "\<lparr>z_fanoutSize = 0, z_blockSize = 0, z_numBlocks = 0\<rparr>"]
    by (fastforce simp: connect_on_def split: prod.splits sum.splits if_splits)
qed


definition demo_env :: "uconn option \<Rightarrow> oob \<Rightarrow> client_env" where
  "demo_env c ctl =
     \<lparr>e_tempdir = ''/tmp'', e_rand = Some [1, 2, 3, 4, 5, 6, 7, 8], e_dial = (\<lambda>l n. c), e_oob = ctl,
      e_mmap = (\<lambda>fd len. Some (replicate (nat len) 0)), e_munmap = True, e_close = (\<lambda>fd. True), e_closeConn = True\<rparr>"

lemma demo_env_name:
  "localSocketName (demo_env c ctl) = Some ''/tmp/testimony_go_client_0102030405060708''"
proof -
  have "hex_encode [1, 2, 3, 4, 5, 6, 7, 8] = ''0102030405060708''" by code_simp
  moreover have "path_join ''/tmp'' ''testimony_go_client_0102030405060708'' =
      ''/tmp/testimony_go_client_0102030405060708''" by code_simp
  ultimately show ?thesis by (simp add: localSocketName_def demo_env_def)
qed


section \<open>Close\<close>

text \<open>\<^verbatim>\<open>Close\<close> tries to release all three resources, whatever fails: exactly the resources whose release fails are
  still recorded in the connection afterwards, an error is reported exactly when something could not be
  released, and closing a connection that was closed without error does nothing.\<close>

theorem Conn_Close_releases:
  "case Conn_Close env t of (err, t') \<Rightarrow>
     c_ring t' = (if e_munmap env then None else c_ring t) \<and>
     c_fd t' = (if c_fd t = 0 \<or> e_close env (c_fd t) then 0 else c_fd t) \<and>
     c_sock t' = (if e_closeConn env then None else c_sock t) \<and>
     (err = None \<longleftrightarrow> c_ring t' = None \<and> c_fd t' = 0 \<and> c_sock t' = None) \<and>
     (err \<noteq> None \<or> Conn_Close env t' = (None, t'))"
  by (cases "c_ring t"; cases "c_sock t")
     (simp_all add: Conn_Close_def close_ring_def close_fd_def close_conn_def)

section \<open>Init\<close>


definition demo_told :: uconn where
  "demo_told = \<lparr>rchunks = [[0], [0, 0, 0, 1]], rfin = EOF, wbytes = [], wfds = [], wroom = None, uclosed = False\<rparr>"

definition demo_ctl :: oob where
  "demo_ctl = \<lparr>oob_len = 24, oob_msgs = Some [Rights [9]]\<rparr>"

definition demo_Conn :: Conn where
  "demo_Conn = new_Conn\<lparr>c_sock := Some demo_told, c_numBlocks := 2, c_blockSize := 4, c_fanoutSize := 1\<rparr>"

definition demo_ready :: Conn where
  "demo_ready =
     demo_Conn\<lparr>c_sock := Some (demo_told\<lparr>rchunks := [[0, 0, 0, 1]],
                                        wbytes := PutUint32 (ToTL TypeFanoutIndex 4) @ [0, 0, 0, 0]\<rparr>),
               c_fd := 9, c_ring := Some (replicate 8 0)\<rparr>"

lemma demo_Init: "Conn_Init (demo_env None demo_ctl) 0 demo_Conn = (None, demo_ready)"
proof -
  have "TypeOf TypeFanoutIndex = TypeClientToServer" by (simp add: TypeOf_def type_consts)
  then show ?thesis
    by (simp add: Conn_Init_def init_body_def demo_Conn_def demo_ready_def new_Conn_def demo_told_def demo_env_def demo_ctl_def
        SendUint32_def SendTLV_def ReadMsgUnix_def Read_def parse_fd_def wrap64_def PutUint32_def)
qed


theorem Conn_Close_releases_witness:
  "Conn_Close (demo_env None demo_ctl) demo_ready = (None, new_Conn\<lparr>c_numBlocks := 2, c_blockSize := 4, c_fanoutSize := 1\<rparr>) \<and>
   Conn_Close (demo_env None demo_ctl) (new_Conn\<lparr>c_numBlocks := 2, c_blockSize := 4, c_fanoutSize := 1\<rparr>) =
     (None, new_Conn\<lparr>c_numBlocks := 2, c_blockSize := 4, c_fanoutSize := 1\<rparr>)"
proof -
  have "Conn_Close (demo_env None demo_ctl) demo_ready = (None, new_Conn\<lparr>c_numBlocks := 2, c_blockSize := 4, c_fanoutSize := 1\<rparr>)"
    by (simp add: Conn_Close_def close_ring_def close_fd_def close_conn_def demo_ready_def demo_Conn_def demo_env_def new_Conn_def)
  then show ?thesis
    using Conn_Close_releases [of "demo_env None demo_ctl" demo_ready] by simp
qed

section \<open>Blocks\<close>

lemma readLoop_index:
  assumes "\<not> uclosed c" and "pending c = PutUint32 v @ rest" and "\<not> bit v 31"
  shows "\<exists>c'. readLoop c = (Inr v, c') \<and> read_to c rest c'"
proof -
  obtain c1 where "ReadFull c 4 = (Inr (PutUint32 v), c1)" "read_to c rest c1"
    using ReadFull_to [OF assms(1,2), of 4] by auto
  moreover have "TypeOf TypeBlockIndex = TypeBlockIndex" by (simp add: TypeOf_def type_consts)
  ultimately show ?thesis
    using assms(3) by (simp add: readLoop.simps [of c] TLFrom_index)
qed

lemma readLoop_TLV:
  assumes "\<not> uclosed c" and "pending c = PutUint32 (ToTL t (int (length val))) @ val @ rest"
    and "TypeOf t = TypeServerToClient" and "length val \<le> 0xFFFF"
  shows "\<exists>c'. readLoop c = readLoop c' \<and> read_to c rest c'"
proof -
  have hi: "0x8000 \<le> unat t" using sendable_high assms(3) by simp
  obtain c1 where c1: "ReadFull c 4 = (Inr (PutUint32 (ToTL t (int (length val)))), c1)" "read_to c (val @ rest) c1"
    using ReadFull_to [OF assms(1,2), of 4] by auto
  obtain c2 where c2: "ReadFull c1 (length val) = (Inr val, c2)" "read_to c1 rest c2"
    using ReadFull_to [of c1 val rest] read_to_open [OF c1(2)] assms(1) by auto
  have "TLFrom (ToTL t (int (length val))) = (t, int (length val))"
    using assms(4) hi by (intro TLFrom_ToTL) simp_all
  moreover have "TypeServerToClient \<noteq> TypeBlockIndex" by (simp add: type_consts)
  ultimately show ?thesis
    using c1 c2 assms(3) read_to_trans [OF c1(2) c2(2)]
    by (intro exI [of _ c2]) (simp add: readLoop.simps [of c])
qed

text \<open>A connection after \<^verbatim>\<open>Init\<close>: its ring has the announced size, which fits Go's \<^verbatim>\<open>int\<close>.\<close>

definition conn_ready :: "Conn \<Rightarrow> bool" where
  "conn_ready t \<longleftrightarrow>
     0 < c_numBlocks t \<and> 0 < c_blockSize t \<and> c_blockSize t * c_numBlocks t < 2 ^ 63 \<and>
     (\<exists>mem. c_ring t = Some mem \<and> int (length mem) = c_blockSize t * c_numBlocks t)"

lemma block_reslice:
  assumes "conn_ready t" and "c_ring t = Some mem" and "0 \<le> idx" and "idx < c_numBlocks t"
  shows "wrap64 (idx * c_blockSize t) = idx * c_blockSize t \<and>
         wrap64 (idx * c_blockSize t + c_blockSize t) = idx * c_blockSize t + c_blockSize t \<and>
         reslice (ring_slice t) (idx * c_blockSize t) (idx * c_blockSize t + c_blockSize t) =
           Some \<lparr>sl_mem = mem, sl_off = nat (idx * c_blockSize t), sl_len = nat (c_blockSize t)\<rparr>"
proof -
  have bs: "0 < c_blockSize t" and lim: "c_blockSize t * c_numBlocks t < 2 ^ 63"
    and mem: "int (length mem) = c_blockSize t * c_numBlocks t"
    using assms(1,2) by (auto simp: conn_ready_def)
  have "(idx + 1) * c_blockSize t \<le> c_numBlocks t * c_blockSize t"
    using assms(4) bs by (intro mult_right_mono) simp_all
  then have up: "idx * c_blockSize t + c_blockSize t \<le> c_blockSize t * c_numBlocks t"
    by (simp add: algebra_simps)
  have lo: "0 \<le> idx * c_blockSize t" using assms(3) bs by simp
  have "wrap64 (idx * c_blockSize t) = idx * c_blockSize t"
    "wrap64 (idx * c_blockSize t + c_blockSize t) = idx * c_blockSize t + c_blockSize t"
    using lo up lim bs by (intro wrap64_id; linarith)+
  with lo up bs mem assms(2) show ?thesis
    by (simp add: reslice_def ring_slice_def sl_cap_def)
qed

text \<open>C20: on an initialised connection \<^verbatim>\<open>Block\<close> never panics, whatever the server sends; a block that it returns has an index
  below the number of blocks and is exactly that block's part of the ring, so two different blocks never overlap.\<close>

theorem Conn_Block_in_ring:
  assumes "conn_ready t" and "c_ring t = Some mem"
  shows "fst (Conn_Block t) \<noteq> None \<and>
         (\<forall>b. fst (Conn_Block t) = Some (Inr b) \<longrightarrow>
            0 \<le> b_i b \<and> b_i b < c_numBlocks t \<and> b_offset b = 0 \<and> b_pkt b = None \<and>
            sl_bytes (b_B b) = take (nat (c_blockSize t)) (drop (nat (b_i b * c_blockSize t)) mem) \<and>
            length (sl_bytes (b_B b)) = nat (c_blockSize t))"
proof (cases "c_sock t")
  case None
  then show ?thesis by (simp add: Conn_Block_def)
next
  case (Some c)
  obtain r c' where rl: "readLoop c = (r, c')" by force
  show ?thesis
  proof (cases r)
    case (Inl e)
    with Some rl show ?thesis by (simp add: Conn_Block_def)
  next
    case (Inr num)
    show ?thesis
    proof (cases "uint num \<ge> c_numBlocks t")
      case True
      with Some rl Inr show ?thesis by (simp add: Conn_Block_def)
    next
      case False
      let ?t = "t\<lparr>c_sock := Some c'\<rparr>"
      have ready: "conn_ready ?t" "c_ring ?t = Some mem" using assms by (auto simp: conn_ready_def)
      have mem: "int (length mem) = c_blockSize t * c_numBlocks t" "0 < c_blockSize t"
        using assms by (auto simp: conn_ready_def)
      note R = block_reslice [OF ready, of "uint num"]
      have "(uint num + 1) * c_blockSize t \<le> c_numBlocks t * c_blockSize t"
        using False mem(2) by (intro mult_right_mono) simp_all
      then have "nat (uint num * c_blockSize t) + nat (c_blockSize t) \<le> length mem"
        using mem by (simp add: nat_le_iff algebra_simps flip: nat_add_distrib)
      with R False Some rl Inr show ?thesis
        by (simp add: Conn_Block_def Let_def new_Block_def sl_bytes_def)
    qed
  qed
qed

lemma demo_ready_conn: "conn_ready demo_ready" "c_ring demo_ready = Some (replicate 8 0)"
  by (simp_all add: conn_ready_def demo_ready_def demo_Conn_def)

theorem Conn_Block_in_ring_witness: "fst (Conn_Block demo_ready) \<noteq> None"
  using Conn_Block_in_ring [OF demo_ready_conn] by simp

end
