(* ===== verification/Packets.thy ===== *)
theory Packets
  imports Client
begin

text \<open>
  Iteration over the packets of a block (\<^verbatim>\<open>Next\<close>, \<^verbatim>\<open>Packet\<close> and \<^verbatim>\<open>PacketData\<close> of \<^verbatim>\<open>testimony.go\<close>).  The layout of the kernel's
  headers is not part of the repository: it is a parameter, the value of each header field as a function of the
  memory and of the position of the header.  What iteration relies on is that the headers of a block describe a chain of
  packets inside the block.
\<close>

section \<open>The code\<close>

record layout =
  num_pkts :: "byte list \<Rightarrow> nat \<Rightarrow> u32"
  offset_to_first_pkt :: "byte list \<Rightarrow> nat \<Rightarrow> u32"
  tp_next_offset :: "byte list \<Rightarrow> nat \<Rightarrow> u32"
  tp_mac :: "byte list \<Rightarrow> nat \<Rightarrow> u16"
  tp_snaplen :: "byte list \<Rightarrow> nat \<Rightarrow> u32"

text \<open>A field of the header at position \<open>i\<close> of a slice.\<close>

definition at :: "(byte list \<Rightarrow> nat \<Rightarrow> 'a) \<Rightarrow> slice \<Rightarrow> int \<Rightarrow> 'a" where
  "at f s i = f (sl_mem s) (sl_off s + nat i)"

text \<open>\<^verbatim>\<open>header\<close> takes the address of the first byte: \<open>None\<close> is the panic on an empty block.\<close>

definition header :: "Block \<Rightarrow> slice option" where
  "header b = (if 0 < sl_len (b_B b) then Some (b_B b) else None)"

definition Next :: "layout \<Rightarrow> Block \<Rightarrow> (bool \<times> Block) option" where
  "Next L b =
     (case
        (if b_offset b = 0 then
           (case header b of
              None \<Rightarrow> None
            | Some h \<Rightarrow> Some (b\<lparr>b_left := uint (at (num_pkts L) h 0), b_offset := uint (at (offset_to_first_pkt L) h 0)\<rparr>))
         else
           (case b_pkt b of
              None \<Rightarrow> None
            | Some p \<Rightarrow> Some (b\<lparr>b_offset := b_offset b + uint (at (tp_next_offset L) (b_B b) p)\<rparr>)))
      of
        None \<Rightarrow> None
      | Some b \<Rightarrow>
          if b_left b \<le> 0 then Some (False, b)
          else if b_offset b < int (sl_len (b_B b))
          then Some (True, b\<lparr>b_left := b_left b - 1, b_pkt := Some (b_offset b)\<rparr>)
          else None)"

definition Packet :: "Block \<Rightarrow> int option" where
  "Packet b = b_pkt b"

text \<open>\<open>None\<close> is the panic of the slice expression; the empty slice stands for nil.\<close>

definition PacketData :: "layout \<Rightarrow> Block \<Rightarrow> slice option" where
  "PacketData L b =
     (case b_pkt b of
        None \<Rightarrow> Some nil_slice
      | Some p \<Rightarrow>
          (let start = b_offset b + uint (at (tp_mac L) (b_B b) p)
           in reslice (b_B b) start (start + uint (at (tp_snaplen L) (b_B b) p))))"

text \<open>\<^verbatim>\<open>for block.Next() { ... block.PacketData() ... }\<close> with at most \<open>fuel\<close> calls of \<^verbatim>\<open>Next\<close>: the data of the
  packets, and the block as the loop leaves it.  \<open>None\<close>: a panic, or the loop has not ended.\<close>

fun all_packets :: "layout \<Rightarrow> nat \<Rightarrow> Block \<Rightarrow> (byte list list \<times> Block) option" where
  "all_packets L 0 b = None"
| "all_packets L (Suc fuel) b =
     (case Next L b of
        None \<Rightarrow> None
      | Some (False, b') \<Rightarrow> Some ([], b')
      | Some (True, b') \<Rightarrow>
          (case PacketData L b' of
             None \<Rightarrow> None
           | Some d \<Rightarrow>
               (case all_packets L fuel b' of
                  None \<Rightarrow> None
                | Some (ds, b'') \<Rightarrow> Some (sl_bytes d # ds, b''))))"

section \<open>The chain of packets\<close>

text \<open>The data that the headers describe: \<open>k\<close> packets, the first at position \<open>off\<close>.\<close>

fun chain :: "layout \<Rightarrow> slice \<Rightarrow> int \<Rightarrow> nat \<Rightarrow> byte list list" where
  "chain L s off 0 = []"
| "chain L s off (Suc k) =
     take (unat (at (tp_snaplen L) s off)) (drop (sl_off s + nat off + unat (at (tp_mac L) s off)) (sl_mem s))
     # chain L s (off + uint (at (tp_next_offset L) s off)) k"

text \<open>Every header of the chain lies behind the start of the block, and the packet's data ends inside the block.\<close>

fun chain_ok :: "layout \<Rightarrow> slice \<Rightarrow> int \<Rightarrow> nat \<Rightarrow> bool" where
  "chain_ok L s off 0 = True"
| "chain_ok L s off (Suc k) =
     (0 < off \<and> off < int (sl_len s) \<and>
      off + uint (at (tp_mac L) s off) + uint (at (tp_snaplen L) s off) \<le> int (sl_len s) \<and>
      chain_ok L s (off + uint (at (tp_next_offset L) s off)) k)"

definition slice_ok :: "slice \<Rightarrow> bool" where
  "slice_ok s \<longleftrightarrow> 0 < sl_len s \<and> sl_off s + sl_len s \<le> length (sl_mem s)"

definition block_packets :: "layout \<Rightarrow> slice \<Rightarrow> byte list list" where
  "block_packets L s = chain L s (uint (at (offset_to_first_pkt L) s 0)) (unat (at (num_pkts L) s 0))"

definition block_ok :: "layout \<Rightarrow> slice \<Rightarrow> bool" where
  "block_ok L s \<longleftrightarrow> slice_ok s \<and> chain_ok L s (uint (at (offset_to_first_pkt L) s 0)) (unat (at (num_pkts L) s 0))"

lemma PacketData_ok:
  assumes "b_pkt b = Some (b_offset b)" and "slice_ok (b_B b)" and "chain_ok L (b_B b) (b_offset b) (Suc k)"
  shows "\<exists>d. PacketData L b = Some d \<and>
    sl_bytes d = take (unat (at (tp_snaplen L) (b_B b) (b_offset b)))
      (drop (sl_off (b_B b) + nat (b_offset b) + unat (at (tp_mac L) (b_B b) (b_offset b))) (sl_mem (b_B b)))"
  using assms
  by (auto simp: PacketData_def Let_def reslice_def sl_cap_def slice_ok_def sl_bytes_def nat_add_distrib add.assoc)

section \<open>Iteration visits the chain\<close>

definition same_block :: "Block \<Rightarrow> Block \<Rightarrow> bool" where
  "same_block b b' \<longleftrightarrow> b_t b' = b_t b \<and> b_i b' = b_i b \<and> b_B b' = b_B b"

lemma Next_more:
  assumes "b_pkt b = Some (b_offset b)" and "0 < b_offset b" and "b_left b = int (Suc k)"
    and "b_offset b + uint (at (tp_next_offset L) (b_B b) (b_offset b)) < int (sl_len (b_B b))"
  shows "\<exists>b'. Next L b = Some (True, b') \<and> same_block b b' \<and> b_left b' = int k \<and> b_pkt b' = Some (b_offset b') \<and>
           b_offset b' = b_offset b + uint (at (tp_next_offset L) (b_B b) (b_offset b))"
  using assms by (simp add: Next_def same_block_def)

lemma Next_end:
  assumes "b_pkt b = Some p" and "0 < b_offset b" and "b_left b = 0"
  shows "\<exists>b'. Next L b = Some (False, b') \<and> same_block b b' \<and> b_left b' = 0"
  using assms by (simp add: Next_def same_block_def)

lemma all_packets_rest:
  assumes "b_pkt b = Some (b_offset b)" and "0 < b_offset b" and "slice_ok (b_B b)" and "b_left b = int k"
    and "chain_ok L (b_B b) (b_offset b + uint (at (tp_next_offset L) (b_B b) (b_offset b))) k" and "k < fuel"
  shows "\<exists>b'. all_packets L fuel b =
           Some (chain L (b_B b) (b_offset b + uint (at (tp_next_offset L) (b_B b) (b_offset b))) k, b') \<and>
           same_block b b' \<and> b_left b' = 0"
  using assms
proof (induction k arbitrary: b fuel)
  case 0
  then obtain f where "fuel = Suc f" by (cases fuel) auto
  with Next_end [OF 0(1,2), of L] 0(4) show ?case by auto
next
  case (Suc k)
  obtain f where f: "fuel = Suc f" "k < f" using Suc.prems(6) by (cases fuel) auto
  obtain b1 where b1: "Next L b = Some (True, b1)" "same_block b b1" "b_left b1 = int k" "b_pkt b1 = Some (b_offset b1)"
      "b_offset b1 = b_offset b + uint (at (tp_next_offset L) (b_B b) (b_offset b))"
    using Next_more [OF Suc.prems(1,2,4), of L] Suc.prems(5) by auto
  have B: "b_B b1 = b_B b" using b1(2) by (simp add: same_block_def)
  have ok: "slice_ok (b_B b1)" "chain_ok L (b_B b1) (b_offset b1) (Suc k)"
    using Suc.prems(3,5) b1(5) B by simp_all
  obtain d where d: "PacketData L b1 = Some d"
      "sl_bytes d = take (unat (at (tp_snaplen L) (b_B b1) (b_offset b1)))
        (drop (sl_off (b_B b1) + nat (b_offset b1) + unat (at (tp_mac L) (b_B b1) (b_offset b1))) (sl_mem (b_B b1)))"
    using PacketData_ok [OF b1(4) ok] by blast
  obtain b' where "all_packets L f b1 =
      Some (chain L (b_B b1) (b_offset b1 + uint (at (tp_next_offset L) (b_B b1) (b_offset b1))) k, b')"
      "same_block b1 b'" "b_left b' = 0"
    using Suc.IH [OF b1(4) _ ok(1) b1(3) _ f(2)] ok(2) by auto
  then show ?case
    using f(1) b1(1,2,5) d B by (auto simp: same_block_def)
qed

lemma all_packets_block:
  assumes "b_offset b = 0" and "block_ok L (b_B b)" and "unat (at (num_pkts L) (b_B b) 0) < fuel"
  shows "\<exists>b'. all_packets L fuel b = Some (block_packets L (b_B b), b') \<and> same_block b b' \<and> b_left b' = 0"
proof -
  let ?first = "uint (at (offset_to_first_pkt L) (b_B b) 0)" and ?n = "unat (at (num_pkts L) (b_B b) 0)"
  have sl: "slice_ok (b_B b)" and ch: "chain_ok L (b_B b) ?first ?n"
    using assms(2) by (simp_all add: block_ok_def)
  have h: "header b = Some (b_B b)" using sl by (simp add: header_def slice_ok_def)
  obtain f where f: "fuel = Suc f" "?n \<le> f" using assms(3) by (cases fuel) auto
  have un: "uint (at (num_pkts L) (b_B b) 0) = int ?n" by simp
  show ?thesis
  proof (cases ?n)
    case 0
    then have "uint (at (num_pkts L) (b_B b) 0) = 0" using un by simp
    with 0 h f assms(1) show ?thesis
      by (simp add: Next_def block_packets_def same_block_def)
  next
    case (Suc k)
    then have u: "uint (at (num_pkts L) (b_B b) 0) = int (Suc k)" using un by simp
    define b1 where "b1 = b\<lparr>b_left := int k, b_offset := ?first, b_pkt := Some ?first\<rparr>"
    have nx: "Next L b = Some (True, b1)"
      using h assms(1) ch Suc u by (simp add: Next_def b1_def)
    have ok: "slice_ok (b_B b1)" "chain_ok L (b_B b1) (b_offset b1) (Suc k)" "b_pkt b1 = Some (b_offset b1)"
      using sl ch Suc by (simp_all add: b1_def)
    obtain d where d: "PacketData L b1 = Some d"
        "sl_bytes d = take (unat (at (tp_snaplen L) (b_B b1) (b_offset b1)))
          (drop (sl_off (b_B b1) + nat (b_offset b1) + unat (at (tp_mac L) (b_B b1) (b_offset b1))) (sl_mem (b_B b1)))"
      using PacketData_ok [OF ok(3,1,2)] by blast
    obtain b' where "all_packets L f b1 =
        Some (chain L (b_B b1) (b_offset b1 + uint (at (tp_next_offset L) (b_B b1) (b_offset b1))) k, b')"
        "same_block b1 b'" "b_left b' = 0"
      using all_packets_rest [OF ok(3) _ ok(1), of k L f] ok(2) f Suc by (auto simp: b1_def)
    then show ?thesis
      using f(1) nx d Suc by (auto simp: same_block_def block_packets_def b1_def)
  qed
qed

text \<open>C21: on a block whose headers describe a chain of packets inside the block, the loop over \<^verbatim>\<open>Next\<close> ends after as many rounds
  as the block has packets, without a panic, and \<^verbatim>\<open>PacketData\<close> gives in each round exactly the captured bytes of
  that packet, in order.\<close>

theorem packets_complete:
  assumes "b_offset b = 0" and "block_ok L (b_B b)" and "unat (at (num_pkts L) (b_B b) 0) < fuel"
  shows "\<exists>b'. all_packets L fuel b = Some (block_packets L (b_B b), b') \<and>
           b_t b' = b_t b \<and> b_i b' = b_i b \<and> b_B b' = b_B b"
  using all_packets_block [OF assms] by (auto simp: same_block_def)

text \<open>A block of twelve bytes with two packets, in a toy layout: one-byte fields.\<close>

definition demo_layout :: layout where
  "demo_layout =
     \<lparr>num_pkts = (\<lambda>m i. ucast (m ! i)), offset_to_first_pkt = (\<lambda>m i. ucast (m ! (i + 1))),
      tp_next_offset = (\<lambda>m i. ucast (m ! i)), tp_mac = (\<lambda>m i. ucast (m ! (i + 1))),
      tp_snaplen = (\<lambda>m i. ucast (m ! (i + 2)))\<rparr>"

definition demo_block :: Block where
  "demo_block =
     new_Block 0 \<lparr>sl_mem = [2, 2, 5, 3, 2, 10, 11, 0, 3, 1, 12, 0], sl_off = 0, sl_len = 12\<rparr>"

theorem packets_complete_witness:
  "\<exists>b'. all_packets demo_layout 3 demo_block = Some ([[10, 11], [12]], b') \<and> b_i b' = 0"
proof -
  have "block_ok demo_layout (b_B demo_block)" by code_simp
  moreover have "unat (at (num_pkts demo_layout) (b_B demo_block) 0) < 3" by code_simp
  moreover have "block_packets demo_layout (b_B demo_block) = [[10, 11], [12]]" by code_simp
  ultimately show ?thesis
    using packets_complete [of demo_block demo_layout 3] by (auto simp: demo_block_def new_Block_def)
qed

section \<open>Blocks without packets\<close>

text \<open>After \<^verbatim>\<open>Next\<close> has said that an empty block has no packet, a second call dereferences the nil packet.\<close>

lemma Next_twice_on_empty_block:
  assumes "b_offset b = 0" and "b_pkt b = None" and "0 < sl_len (b_B b)" and "at (num_pkts L) (b_B b) 0 = 0"
    and "at (offset_to_first_pkt L) (b_B b) 0 \<noteq> 0"
  shows "\<exists>b'. Next L b = Some (False, b') \<and> Next L b' = None"
proof -
  have "uint (at (offset_to_first_pkt L) (b_B b) 0) \<noteq> 0" using assms(5) by (metis uint_0_iff)
  then show ?thesis using assms(1-4) by (simp add: Next_def header_def)
qed

end
