(* ===== verification/Testclient.thy ===== *)
theory Testclient
  imports Packets
begin

text \<open>
  The command-line client (\<^verbatim>\<open>go/testclient/testclient.go\<close>): it connects, reads blocks, dumps packets until its
  counter reaches zero, and returns every block.  Progress messages and times are left out.
\<close>

section \<open>The code\<close>

text \<open>The loop over the packets of one block with the counter of the flag \<^verbatim>\<open>count\<close>, for at most \<open>fuel\<close> calls of
  \<^verbatim>\<open>Next\<close>: the dumped packets, the number of packets, the counter and the block afterwards.\<close>

fun tc_block :: "layout \<Rightarrow> bool \<Rightarrow> nat \<Rightarrow> int \<Rightarrow> Block \<Rightarrow> (byte list list \<times> nat \<times> int \<times> Block) option" where
  "tc_block L dump 0 count b = None"
| "tc_block L dump (Suc fuel) count b =
     (case Next L b of
        None \<Rightarrow> None
      | Some (False, b') \<Rightarrow> Some ([], 0, count, b')
      | Some (True, b') \<Rightarrow>
          if count = 0 then Some ([], 0, count, b')
          else
            (case (if dump then (case PacketData L b' of None \<Rightarrow> None | Some d \<Rightarrow> Some [sl_bytes d]) else Some []) of
               None \<Rightarrow> None
             | Some out \<Rightarrow>
                 (case tc_block L dump fuel (wrap64 (count - 1)) b' of
                    None \<Rightarrow> None
                  | Some (outs, n, count', b'') \<Rightarrow> Some (out @ outs, Suc n, count', b''))))"

datatype tc_end =
    TcDone              \<comment> \<open>the counter has reached zero\<close>
  | TcBlockFailed block_err
  | TcReturnFailed io_err
  | TcConnectFailed connect_err
  | TcInitFailed init_err
  | TcPanic             \<comment> \<open>a panic, or a block whose iteration does not end within the fuel\<close>

lemma readLoop_less: "readLoop c = (Inr v, c') \<Longrightarrow> length (pending c') < length (pending c)"
proof (induction c rule: readLoop.induct)
  case (1 c)
  then show ?case
    by (fastforce simp: readLoop.simps [of c] split: prod.splits sum.splits option.splits if_splits dest!: ReadFull_pending)
qed

definition conn_pending :: "Conn \<Rightarrow> nat" where
  "conn_pending t = (case c_sock t of None \<Rightarrow> 0 | Some c \<Rightarrow> length (pending c))"

lemma Conn_Block_less:
  assumes "Conn_Block t = (Some (Inr b), t')"
  shows "conn_pending t' < conn_pending t"
  using assms
  by (auto simp: Conn_Block_def conn_pending_def Let_def readLoop_less
      split: option.splits prod.splits sum.splits if_splits)

lemma Block_Return_pending:
  assumes "Block_Return b t = Some (r, b', t')"
  shows "conn_pending t' = conn_pending t"
  using assms
  by (auto simp: Block_Return_def conn_pending_def Write_def pending_def
      split: option.splits prod.splits if_splits)

function tc_loop ::
    "layout \<Rightarrow> bool \<Rightarrow> nat \<Rightarrow> int \<Rightarrow> Conn \<Rightarrow> tc_end \<times> byte list list \<times> nat \<times> Conn" where
  "tc_loop L dump fuel count t =
     (case Conn_Block t of
        (None, t1) \<Rightarrow> (TcPanic, [], 0, t1)
      | (Some (Inl e), t1) \<Rightarrow> (TcBlockFailed e, [], 0, t1)
      | (Some (Inr b), t1) \<Rightarrow>
          (case tc_block L dump fuel count b of
             None \<Rightarrow> (TcPanic, [], 0, t1)
           | Some (outs, n, count', b') \<Rightarrow>
               (case Block_Return b' t1 of
                  None \<Rightarrow> (TcPanic, outs, n, t1)
                | Some (Some e, b'', t2) \<Rightarrow> (TcReturnFailed e, outs, n, t2)
                | Some (None, b'', t2) \<Rightarrow>
                    if count' = 0 then (TcDone, outs, n, t2)
                    else (case tc_loop L dump fuel count' t2 of
                            (r, outs', n', t') \<Rightarrow> (r, outs @ outs', n + n', t')))))"
  by pat_completeness auto
termination
  by (relation "measure (\<lambda>(L, dump, fuel, count, t). conn_pending t)")
     (auto dest!: Conn_Block_less [OF sym] Block_Return_pending)

declare tc_loop.simps [simp del]

definition testclient_main ::
    "client_env \<Rightarrow> layout \<Rightarrow> nat \<Rightarrow> string \<Rightarrow> int \<Rightarrow> bool \<Rightarrow> int \<Rightarrow> tc_end \<times> byte list list \<times> nat \<times> Conn" where
  "testclient_main env L fuel socketName fanoutInt dump count =
     (case Connect env socketName of
        (Inl e, t) \<Rightarrow> (TcConnectFailed e, [], 0, t)
      | (Inr conn, t) \<Rightarrow>
          (case Conn_Init env fanoutInt conn of
             (Some e, t) \<Rightarrow> (TcInitFailed e, [], 0, t)
           | (None, t) \<Rightarrow> tc_loop L dump fuel count t))"

section \<open>One block\<close>

lemma wrap64_dec: "0 < k \<Longrightarrow> k < 2 ^ 63 \<Longrightarrow> wrap64 (k - 1) = k - 1"
  by (intro wrap64_id) simp_all

lemma tc_block_rest:
  assumes "b_pkt b = Some (b_offset b)" and "0 < b_offset b" and "slice_ok (b_B b)" and "b_left b = int k"
    and "chain_ok L (b_B b) (b_offset b + uint (at (tp_next_offset L) (b_B b) (b_offset b))) k" and "k < fuel"
    and "int m < 2 ^ 63"
  shows "\<exists>b'. tc_block L True fuel (int m) b =
           Some (take m (chain L (b_B b) (b_offset b + uint (at (tp_next_offset L) (b_B b) (b_offset b))) k),
                 min m k, int (m - k), b') \<and> same_block b b'"
  using assms
proof (induction k arbitrary: b fuel m)
  case 0
  then obtain f where "fuel = Suc f" by (cases fuel) auto
  with Next_end [OF 0(1,2), of L] 0(4) show ?case by auto
next
  case (Suc k)
  obtain f where f: "fuel = Suc f" "k < f" using Suc.prems(6) by (cases fuel) auto
  obtain b1 where b1: "Next L b = Some (True, b1)" "same_block b b1" "b_left b1 = int k" "b_pkt b1 = Some (b_offset b1)"
      "b_offset b1 = b_offset b + uint (at (tp_next_offset L) (b_B b) (b_offset b))"
    using Next_more [OF Suc.prems(1,2,4), of L] Suc.prems(5) by auto
  have B: "b_B b1 = b_B b" using b1(2) by (simp add: same_block_def)
  have ok: "slice_ok (b_B b1)" "chain_ok L (b_B b1) (b_offset b1) (Suc k)"
    using Suc.prems(3,5) b1(5) B by simp_all
  show ?case
  proof (cases m)
    case 0
    with b1(1,2) f(1) show ?thesis by simp
  next
    case (Suc m')
    obtain d where d: "PacketData L b1 = Some d"
        "sl_bytes d = take (unat (at (tp_snaplen L) (b_B b1) (b_offset b1)))
          (drop (sl_off (b_B b1) + nat (b_offset b1) + unat (at (tp_mac L) (b_B b1) (b_offset b1))) (sl_mem (b_B b1)))"
      using PacketData_ok [OF b1(4) ok] by blast
    have m': "wrap64 (int m - 1) = int m'"
      using wrap64_dec [of "int m"] Suc.prems(7) Suc by simp
    obtain b' where "tc_block L True f (int m') b1 =
        Some (take m' (chain L (b_B b1) (b_offset b1 + uint (at (tp_next_offset L) (b_B b1) (b_offset b1))) k),
              min m' k, int (m' - k), b')" "same_block b1 b'"
      using Suc.IH [OF b1(4) _ ok(1) b1(3) _ f(2), of m'] ok(2) Suc.prems(7) Suc by auto
    then show ?thesis
      using f(1) b1(1,2,5) d B Suc m' by (auto simp: same_block_def)
  qed
qed

lemma length_chain [simp]: "length (chain L s off k) = k"
  by (induction L s off k rule: chain.induct) simp_all

lemma length_block_packets: "length (block_packets L s) = unat (at (num_pkts L) s 0)"
  by (simp add: block_packets_def)

lemma tc_block_fresh:
  assumes "b_offset b = 0" and "block_ok L (b_B b)" and "length (block_packets L (b_B b)) < fuel"
    and "int m < 2 ^ 63"
  shows "\<exists>b'. tc_block L True fuel (int m) b =
           Some (take m (block_packets L (b_B b)), min m (length (block_packets L (b_B b))),
                 int (m - length (block_packets L (b_B b))), b') \<and> same_block b b'"
proof -
  let ?first = "uint (at (offset_to_first_pkt L) (b_B b) 0)" and ?n = "unat (at (num_pkts L) (b_B b) 0)"
  have sl: "slice_ok (b_B b)" and ch: "chain_ok L (b_B b) ?first ?n"
    using assms(2) by (simp_all add: block_ok_def)
  have h: "header b = Some (b_B b)" using sl by (simp add: header_def slice_ok_def)
  have un: "uint (at (num_pkts L) (b_B b) 0) = int ?n" by simp
  obtain f where f: "fuel = Suc f" "?n \<le> f" using assms(3) by (cases fuel) (auto simp: length_block_packets)
  show ?thesis
  proof (cases ?n)
    case 0
    then have "uint (at (num_pkts L) (b_B b) 0) = 0" using un by simp
    with 0 h f assms(1) show ?thesis
      by (simp add: Next_def block_packets_def same_block_def)
  next
    case (Suc k)
    then have u: "uint (at (num_pkts L) (b_B b) 0) = int (Suc k)" using un by simp
    define b1 where "b1 = b\<lparr>b_left := int k, b_offset := ?first, b_pkt := Some ?first\<rparr>"
    have nx: "Next L b = Some (True, b1)"
      using h assms(1) ch Suc u by (simp add: Next_def b1_def)
    have ok: "slice_ok (b_B b1)" "chain_ok L (b_B b1) (b_offset b1) (Suc k)" "b_pkt b1 = Some (b_offset b1)"
      using sl ch Suc by (simp_all add: b1_def)
    have same: "same_block b b1" by (simp add: same_block_def b1_def)
    show ?thesis
    proof (cases m)
      case 0
      with nx f same show ?thesis by simp
    next
      case (Suc m')
      obtain d where d: "PacketData L b1 = Some d"
          "sl_bytes d = take (unat (at (tp_snaplen L) (b_B b1) (b_offset b1)))
            (drop (sl_off (b_B b1) + nat (b_offset b1) + unat (at (tp_mac L) (b_B b1) (b_offset b1))) (sl_mem (b_B b1)))"
        using PacketData_ok [OF ok(3,1,2)] by blast
      have m': "wrap64 (int m - 1) = int m'" using wrap64_dec [of "int m"] assms(4) Suc by simp
      obtain b' where "tc_block L True f (int m') b1 =
          Some (take m' (chain L (b_B b1) (b_offset b1 + uint (at (tp_next_offset L) (b_B b1) (b_offset b1))) k),
                min m' k, int (m' - k), b')" "same_block b1 b'"
        using tc_block_rest [OF ok(3) _ ok(1), of k L f m'] ok(2) f \<open>?n = Suc k\<close> assms(4) Suc by (auto simp: b1_def)
      then show ?thesis
        using f(1) nx d Suc \<open>?n = Suc k\<close> m' by (auto simp: same_block_def block_packets_def b1_def)
    qed
  qed
qed

section \<open>The whole run\<close>

text \<open>Block \<open>i\<close> of the mapped ring.\<close>

definition ring_block :: "Conn \<Rightarrow> nat \<Rightarrow> slice" where
  "ring_block t i =
     \<lparr>sl_mem = sl_mem (ring_slice t), sl_off = i * nat (c_blockSize t), sl_len = nat (c_blockSize t)\<rparr>"

text \<open>A connection on which the server has announced the blocks \<open>bs\<close>, and that accepts what is written.\<close>

definition announces :: "Conn \<Rightarrow> nat list \<Rightarrow> bool" where
  "announces t bs \<longleftrightarrow>
     conn_ready t \<and> c_numBlocks t \<le> 2 ^ 31 \<and> (\<forall>b \<in> set bs. int b < c_numBlocks t) \<and>
     (\<exists>c. c_sock t = Some c \<and> \<not> uclosed c \<and> wroom c = None \<and> pending c = indexes bs)"

definition written :: "Conn \<Rightarrow> byte list" where
  "written t = (case c_sock t of None \<Rightarrow> [] | Some c \<Rightarrow> wbytes c)"

definition same_ring :: "Conn \<Rightarrow> Conn \<Rightarrow> bool" where
  "same_ring t t' \<longleftrightarrow> c_ring t' = c_ring t \<and> c_blockSize t' = c_blockSize t \<and> c_numBlocks t' = c_numBlocks t"

lemma index_bit: "b < 2 ^ 31 \<Longrightarrow> \<not> bit (of_nat b :: u32) 31 \<and> uint (of_nat b :: u32) = int b"
proof -
  assume b: "b < 2 ^ 31"
  then have u: "uint (of_nat b :: u32) = int b" by (simp add: unsigned_of_nat take_bit_nat_eq_self)
  then show ?thesis using b bit31_uint [of "of_nat b :: u32"] by simp
qed

lemma Conn_Block_announced:
  assumes "announces t (b # bs)"
  shows "\<exists>t'. Conn_Block t = (Some (Inr (new_Block (int b) (ring_block t b))), t') \<and> announces t' bs \<and>
           same_ring t t' \<and> written t' = written t"
proof -
  obtain c where c: "c_sock t = Some c" "\<not> uclosed c" "wroom c = None" "pending c = PutUint32 (of_nat b) @ indexes bs"
    using assms by (auto simp: announces_def)
  have ready: "conn_ready t" and b: "int b < c_numBlocks t" "b < 2 ^ 31"
    using assms by (auto simp: announces_def)
  note ib = index_bit [OF b(2)]
  obtain c' where c': "readLoop c = (Inr (of_nat b), c')" "read_to c (indexes bs) c'"
    using readLoop_index [OF c(2,4)] ib by blast
  note op = read_to_open [OF c'(2)]
  obtain mem where mem: "c_ring t = Some mem" using ready by (auto simp: conn_ready_def)
  let ?t = "t\<lparr>c_sock := Some c'\<rparr>"
  have ready': "conn_ready ?t" using ready by (simp add: conn_ready_def)
  have "0 < c_blockSize t" using ready by (simp add: conn_ready_def)
  then have off: "nat (int b * c_blockSize t) = b * nat (c_blockSize t)" by (simp add: nat_mult_distrib)
  note R = block_reslice [OF ready', of mem "int b"]
  have "Conn_Block t = (Some (Inr (new_Block (int b) (ring_block t b))), ?t)"
    using c(1) c'(1) R ib b(1) mem off by (simp add: Conn_Block_def Let_def ring_block_def ring_slice_def)
  moreover have "announces ?t bs"
    using assms ready' op c(2,3) by (auto simp: announces_def)
  ultimately show ?thesis
    using op c(1) by (auto simp: same_ring_def written_def)
qed

lemma Block_Return_ok:
  assumes "announces t bs" and "b_t b" and "b_i b = int i"
  shows "\<exists>b' t'. Block_Return b t = Some (None, b', t') \<and> announces t' bs \<and> same_ring t t' \<and>
           written t' = written t @ indexes [i]"
  using assms by (auto simp: announces_def Block_Return_def same_ring_def written_def conn_ready_def pending_def)

lemma ring_block_same: "same_ring t t' \<Longrightarrow> ring_block t' = ring_block t"
  by (simp add: same_ring_def ring_block_def ring_slice_def fun_eq_iff)

lemma same_ring_trans: "same_ring a b \<Longrightarrow> same_ring b c \<Longrightarrow> same_ring a c"
  by (simp add: same_ring_def)

definition announced_packets :: "layout \<Rightarrow> Conn \<Rightarrow> nat list \<Rightarrow> byte list list" where
  "announced_packets L t bs = concat (map (\<lambda>b. block_packets L (ring_block t b)) bs)"

lemma tc_round:
  assumes "announces t (b # bs)" and "block_ok L (ring_block t b)" and "length (block_packets L (ring_block t b)) < fuel"
    and "int k < 2 ^ 63"
  shows "\<exists>t2. announces t2 bs \<and> same_ring t t2 \<and> written t2 = written t @ indexes [b] \<and>
    tc_loop L True fuel (int k) t =
      (let p = block_packets L (ring_block t b) in
       if k \<le> length p then (TcDone, take k p, k, t2)
       else (case tc_loop L True fuel (int (k - length p)) t2 of
               (r, outs', n', t') \<Rightarrow> (r, p @ outs', length p + n', t')))"
proof -
  let ?p = "block_packets L (ring_block t b)"
  obtain t1 where t1: "Conn_Block t = (Some (Inr (new_Block (int b) (ring_block t b))), t1)" "announces t1 bs"
      "same_ring t t1" "written t1 = written t"
    using Conn_Block_announced [OF assms(1)] by blast
  obtain b' where b': "tc_block L True fuel (int k) (new_Block (int b) (ring_block t b)) =
      Some (take k ?p, min k (length ?p), int (k - length ?p), b')" "same_block (new_Block (int b) (ring_block t b)) b'"
    using tc_block_fresh [of "new_Block (int b) (ring_block t b)" L fuel k] assms(2-4) by (auto simp: new_Block_def)
  obtain b2 t2 where t2: "Block_Return b' t1 = Some (None, b2, t2)" "announces t2 bs" "same_ring t1 t2"
      "written t2 = written t1 @ indexes [b]"
    using Block_Return_ok [OF t1(2), of b' b] b'(2) by (auto simp: same_block_def new_Block_def)
  have "tc_loop L True fuel (int k) t =
      (if k \<le> length ?p then (TcDone, take k ?p, k, t2)
       else (case tc_loop L True fuel (int (k - length ?p)) t2 of
               (r, outs', n', t') \<Rightarrow> (r, ?p @ outs', length ?p + n', t')))"
    using t1(1) b'(1) t2(1) by (simp add: tc_loop.simps [of _ _ _ _ t] split: prod.split)
  then show ?thesis
    using t1 t2 same_ring_trans by (intro exI [of _ t2]) (simp add: Let_def)
qed

text \<open>With \<^verbatim>\<open>-dump\<close> and \<^verbatim>\<open>-count=k\<close>, and well-formed blocks that hold at least \<open>k\<close> packets together, the test client dumps
  exactly the first \<open>k\<close> packets of the announced blocks, in order, and ends; every block it has taken has been
  returned to the daemon, in order, and no block after the last one needed has been taken.\<close>

theorem testclient_dumps:
  assumes "announces t bs" and "bs \<noteq> []" and "int k < 2 ^ 63" and "k \<le> length (announced_packets L t bs)"
    and "\<forall>b \<in> set bs. block_ok L (ring_block t b) \<and> length (block_packets L (ring_block t b)) < fuel"
  shows "\<exists>t' m. tc_loop L True fuel (int k) t = (TcDone, take k (announced_packets L t bs), k, t') \<and>
           0 < m \<and> m \<le> length bs \<and> written t' = written t @ indexes (take m bs) \<and> announces t' (drop m bs)"
  using assms
proof (induction bs arbitrary: t k)
  case (Cons b bs)
  let ?p = "block_packets L (ring_block t b)"
  obtain t2 where t2: "announces t2 bs" "same_ring t t2" "written t2 = written t @ indexes [b]"
    "tc_loop L True fuel (int k) t =
      (if k \<le> length ?p then (TcDone, take k ?p, k, t2)
       else (case tc_loop L True fuel (int (k - length ?p)) t2 of
               (r, outs', n', t') \<Rightarrow> (r, ?p @ outs', length ?p + n', t')))"
    using tc_round [OF Cons.prems(1), of L fuel k] Cons.prems(3,5) by (auto simp: Let_def)
  have packets: "announced_packets L t (b # bs) = ?p @ announced_packets L t2 bs"
    using ring_block_same [OF t2(2)] by (simp add: announced_packets_def)
  show ?case
  proof (cases "k \<le> length ?p")
    case True
    with t2 packets show ?thesis by (intro exI [of _ t2] exI [of _ "Suc 0"]) simp
  next
    case False
    then have "bs \<noteq> []" "k - length ?p \<le> length (announced_packets L t2 bs)"
      using Cons.prems(4) packets by (auto simp: announced_packets_def)
    moreover have lim: "int (k - length ?p) < 2 ^ 63" using Cons.prems(3) by linarith
    moreover have "\<forall>b \<in> set bs. block_ok L (ring_block t2 b) \<and> length (block_packets L (ring_block t2 b)) < fuel"
      using Cons.prems(5) ring_block_same [OF t2(2)] by simp
    ultimately obtain t' m where "tc_loop L True fuel (int (k - length ?p)) t2 =
          (TcDone, take (k - length ?p) (announced_packets L t2 bs), k - length ?p, t')"
        "0 < m" "m \<le> length bs" "written t' = written t2 @ indexes (take m bs)" "announces t' (drop m bs)"
      using Cons.IH [OF t2(1) _ lim] by blast
    with False t2 packets show ?thesis
      by (intro exI [of _ t'] exI [of _ "Suc m"]) simp
  qed
qed simp

text \<open>A ring of two toy blocks: two packets in block 0, one packet in block 1; both have been announced.\<close>

definition demo_ring :: "byte list" where
  "demo_ring = [2, 2, 5, 3, 2, 10, 11, 0, 3, 1, 12, 0,  1, 3, 0, 0, 4, 3, 20, 21, 22, 0, 0, 0]"

definition demo_reader :: Conn where
  "demo_reader =
     \<lparr>c_sock = Some \<lparr>rchunks = [[0, 0], [0, 0, 0, 0, 0, 1]], rfin = EOF, wbytes = [], wfds = [], wroom = None,
                      uclosed = False\<rparr>,
      c_fd = 9, c_ring = Some demo_ring, c_numBlocks = 2, c_blockSize = 12, c_fanoutSize = 1\<rparr>"

lemma demo_reader_announces: "announces demo_reader [0, 1]"
proof -
  have "indexes [0, 1] = [0, 0, 0, 0, 0, 0, 0, 1]" by code_simp
  then show ?thesis
    by (simp add: announces_def conn_ready_def demo_reader_def demo_ring_def pending_def)
qed

lemma demo_reader_packets:
  "block_packets demo_layout (ring_block demo_reader 0) = [[10, 11], [12]]"
  "block_packets demo_layout (ring_block demo_reader 1) = [[21, 22, 0]]"
  "block_ok demo_layout (ring_block demo_reader 0)" "block_ok demo_layout (ring_block demo_reader 1)"
  by code_simp+

theorem testclient_dumps_witness:
  "\<exists>t' m. tc_loop demo_layout True 4 3 demo_reader = (TcDone, [[10, 11], [12], [21, 22, 0]], 3, t') \<and>
     written t' = written demo_reader @ indexes (take m [0, 1])"
  using testclient_dumps [OF demo_reader_announces, of 3 demo_layout 4] demo_reader_packets
  by (auto simp: announced_packets_def)

end
