(* ===== verification/System.thy ===== *)
theory System
  imports Socket_Race Handshake Testclient
begin

text \<open>
  Daemon and client library together: what one side writes is what the other side reads.
\<close>

section \<open>The client reads the server's announcement\<close>

definition server_sizes :: "nat \<Rightarrow> SocketConfig \<Rightarrow> sizes" where
  "server_sizes ns conf = \<lparr>z_fanoutSize = int ns, z_blockSize = BlockSize conf, z_numBlocks = NumBlocks conf\<rparr>"

definition conf_ok :: "nat \<Rightarrow> SocketConfig \<Rightarrow> bool" where
  "conf_ok ns conf \<longleftrightarrow>
     0 < ns \<and> ns < 2 ^ 32 \<and> 0 < BlockSize conf \<and> BlockSize conf < 2 ^ 32 \<and> 0 < NumBlocks conf \<and> NumBlocks conf < 2 ^ 32"

lemma uint_of_small: "0 \<le> x \<Longrightarrow> x < 2 ^ 32 \<Longrightarrow> uint (word_of_int x :: u32) = x"
  by (simp add: unsigned_of_int take_bit_int_eq_self)

lemma tlv_size_msg:
  assumes "\<not> uclosed c" and "pending c = PutUint32 (ToTL t 4) @ PutUint32 v @ rest"
    and "TypeOf t = TypeServerToClient" and "tlv_switch t 4 (PutUint32 v) z = Inr (False, z')"
  shows "\<exists>c'. read_to c rest c' \<and> tlvLoop c z = tlvLoop c' z'"
proof -
  have "0x8000 \<le> unat t" using sendable_high assms(3) by simp
  then show ?thesis
    using tlvLoop_msg [of c t "PutUint32 v" rest z] assms by auto
qed

lemma tlvLoop_hello:
  assumes "\<not> uclosed c" and "pending c = hello_bytes ns conf @ rest" and "conf_ok ns conf"
  shows "\<exists>c'. read_to c rest c' \<and> tlvLoop c z = (Inr (server_sizes ns conf), c')"
proof -
  note neq = type_consts
  let ?z1 = "z\<lparr>z_fanoutSize := int ns\<rparr>"
  let ?z2 = "?z1\<lparr>z_blockSize := BlockSize conf\<rparr>"
  let ?z3 = "?z2\<lparr>z_numBlocks := NumBlocks conf\<rparr>"
  have uns: "uint (of_nat ns :: u32) = int ns"
    using assms(3) by (simp add: conf_ok_def unsigned_of_nat take_bit_nat_eq_self)
  have ub: "uint (word_of_int (BlockSize conf) :: u32) = BlockSize conf"
    "uint (word_of_int (NumBlocks conf) :: u32) = NumBlocks conf"
    using assms(3) uint_of_small by (simp_all add: conf_ok_def)
  define r3 where "r3 = PutUint32 (ToTL TypeWaitingForFanoutIndex 0) @ rest"
  define r2 where "r2 = PutUint32 (ToTL TypeNumBlocks 4) @ PutUint32 (word_of_int (NumBlocks conf)) @ r3"
  define r1 where "r1 = PutUint32 (ToTL TypeBlockSize 4) @ PutUint32 (word_of_int (BlockSize conf)) @ r2"
  have "pending c = PutUint32 (ToTL TypeFanoutSize 4) @ PutUint32 (of_nat ns) @ r1"
    using assms(2) by (simp add: hello_bytes_def r1_def r2_def r3_def)
  moreover have "tlv_switch TypeFanoutSize 4 (PutUint32 (of_nat ns)) z = Inr (False, ?z1)"
    using uns by (simp add: tlv_switch_def neq)
  ultimately obtain c1 where c1: "read_to c r1 c1" "tlvLoop c z = tlvLoop c1 ?z1"
    using tlv_size_msg [OF assms(1) _ sendable_types(1)] by blast
  have "tlv_switch TypeBlockSize 4 (PutUint32 (word_of_int (BlockSize conf))) ?z1 = Inr (False, ?z2)"
    using ub by (simp add: tlv_switch_def neq)
  then obtain c2 where c2: "read_to c1 r2 c2" "tlvLoop c1 ?z1 = tlvLoop c2 ?z2"
    using tlv_size_msg [OF _ _ sendable_types(2), of c1] read_to_open [OF c1(1)] assms(1) r1_def by blast
  have "tlv_switch TypeNumBlocks 4 (PutUint32 (word_of_int (NumBlocks conf))) ?z2 = Inr (False, ?z3)"
    using ub by (simp add: tlv_switch_def neq)
  then obtain c3 where c3: "read_to c2 r3 c3" "tlvLoop c2 ?z2 = tlvLoop c3 ?z3"
    using tlv_size_msg [OF _ _ sendable_types(3), of c2] read_to_open [OF c1(1)] read_to_open [OF c2(1)] assms(1) r2_def
    by blast
  have op3: "\<not> uclosed c3" "pending c3 = PutUint32 (ToTL TypeWaitingForFanoutIndex 0) @ [] @ rest"
    using read_to_open [OF c1(1)] read_to_open [OF c2(1)] read_to_open [OF c3(1)] assms(1) by (simp_all add: r3_def)
  have "0x8000 \<le> unat TypeWaitingForFanoutIndex" by (simp add: type_consts)
  then obtain c4 where c4: "read_to c3 rest c4" "tlvLoop c3 ?z3 = (Inr ?z3, c4)"
    using tlvLoop_msg [OF op3(1), of TypeWaitingForFanoutIndex "[]" rest ?z3] op3(2) sendable_types(4)
    by (auto simp: tlv_switch_def)
  have "read_to c rest c4" using c1(1) c2(1) c3(1) c4(1) read_to_trans by blast
  moreover have "?z3 = server_sizes ns conf" by (simp add: server_sizes_def)
  ultimately show ?thesis using c1(2) c2(2) c3(2) c4(2) by auto
qed

lemma connect_on_hello:
  assumes "\<not> uclosed c" and "pending c = [2] @ hello_bytes ns conf @ rest" and "conf_ok ns conf"
  shows "\<exists>c'. read_to c rest c' \<and> connect_on c = (Inr (server_sizes ns conf), c')"
proof -
  obtain c1 where c1: "ReadFull c 1 = (Inr [2], c1)" "read_to c (hello_bytes ns conf @ rest) c1"
    using ReadFull_to [OF assms(1,2), of 1] by auto
  obtain c2 where c2: "read_to c1 rest c2" "tlvLoop c1 \<lparr>z_fanoutSize = 0, z_blockSize = 0, z_numBlocks = 0\<rparr> =
      (Inr (server_sizes ns conf), c2)"
    using tlvLoop_hello [OF _ _ assms(3), of c1 rest] read_to_open [OF c1(2)] assms(1) by blast
  show ?thesis
    using c1(1) c2 assms(3) read_to_trans [OF c1(2) c2(1)]
    by (intro exI [of _ c2]) (simp add: connect_on_def client_protocolVersion_def server_sizes_def conf_ok_def)
qed

lemma Conn_Init_granted:
  assumes "c_sock t = Some c" and "\<not> uclosed c" and "wroom c = None" and "[] \<notin> set (rchunks c)"
    and "pending c = [z] @ rest" and "oob_msgs (e_oob env) = Some [Rights [fd]]" and "oob_len (e_oob env) < 1024"
    and "e_mmap env fd (wrap64 (c_blockSize t * c_numBlocks t)) = Some mem"
  shows "\<exists>c'. Conn_Init env (int idx) t = (None, t\<lparr>c_sock := Some c', c_fd := fd, c_ring := Some mem\<rparr>) \<and>
           wbytes c' = wbytes c @ choice_bytes idx \<and> pending c' = rest \<and> \<not> uclosed c' \<and> wroom c' = None"
proof -
  define c1 where "c1 = c\<lparr>wbytes := wbytes c @ choice_bytes idx\<rparr>"
  have send: "SendUint32 Write c TypeFanoutIndex (word_of_int (int idx)) = (None, c1)"
    using SendUint32_open [OF assms(2,3), of TypeFanoutIndex] sendable_types(5)
    by (simp add: c1_def choice_bytes_def)
  obtain ch chs where ch: "rchunks c = (z # ch) # chs" "ch @ concat chs = rest"
    using assms(4,5) by (cases "rchunks c"; cases "hd (rchunks c)") (auto simp: pending_def)
  define c2 where "c2 = c1\<lparr>rchunks := (if ch = [] then chs else ch # chs)\<rparr>"
  have rd: "Read c1 1 = ([z], None, c2)"
    using assms(2) ch by (simp add: Read_def c1_def c2_def)
  have "pending c2 = rest" using ch by (auto simp: pending_def c2_def)
  then show ?thesis
    using assms send rd
    by (intro exI [of _ c2])
       (simp add: Conn_Init_def init_body_def ReadMsgUnix_def parse_fd_def c1_def c2_def)
qed

text \<open>\<^verbatim>\<open>Connect\<close> and \<^verbatim>\<open>Init\<close> on a connection on which the server's announcement and the byte with the descriptor arrive.\<close>

lemma connect_init_ok:
  assumes client: "\<not> uclosed k" "wroom k = None" "wbytes k = []" "[] \<notin> set (rchunks k)"
      "pending k = [2] @ hello_bytes ns conf @ [0] @ blocks"
    and conf: "conf_ok ns conf"
    and machine: "localSocketName env = Some lname" "e_dial env lname name = Some k"
      "oob_msgs (e_oob env) = Some [Rights [fd]]" "oob_len (e_oob env) < 1024"
      "e_mmap env fd (wrap64 (BlockSize conf * NumBlocks conf)) = Some mem"
  shows "\<exists>t k'. Connect env name = (Inr t, t) \<and>
           Conn_Init env (int idx) t = (None, t\<lparr>c_sock := Some k', c_fd := fd, c_ring := Some mem\<rparr>) \<and>
           c_fanoutSize t = int ns \<and> c_blockSize t = BlockSize conf \<and> c_numBlocks t = NumBlocks conf \<and>
           wbytes k' = choice_bytes idx \<and> pending k' = blocks \<and> \<not> uclosed k' \<and> wroom k' = None"
proof -
  obtain k1 where k1: "read_to k ([0] @ blocks) k1" "connect_on k = (Inr (server_sizes ns conf), k1)"
    using connect_on_hello [OF client(1,5) conf] by blast
  define t where "t = \<lparr>c_sock = Some k1, c_fd = 0, c_ring = None, c_numBlocks = NumBlocks conf,
    c_blockSize = BlockSize conf, c_fanoutSize = int ns\<rparr>"
  have con: "Connect env name = (Inr t, t)"
    using machine(1,2) k1(2) by (simp add: Connect_def new_Conn_def server_sizes_def t_def Let_def)
  have op: "\<not> uclosed k1" "wroom k1 = None" "wbytes k1 = []" "pending k1 = [0] @ blocks" "[] \<notin> set (rchunks k1)"
    using read_to_open [OF k1(1)] k1(1) client by (simp_all add: read_to_def)
  obtain k' where "Conn_Init env (int idx) t = (None, t\<lparr>c_sock := Some k', c_fd := fd, c_ring := Some mem\<rparr>)"
      "wbytes k' = choice_bytes idx" "pending k' = blocks" "\<not> uclosed k'" "wroom k' = None"
    using Conn_Init_granted [of t k1 0 blocks env fd mem idx] op machine(3-5) by (auto simp: t_def)
  with con show ?thesis by (intro exI [of _ t] exI [of _ k']) (simp add: t_def)
qed

section \<open>The client reads the stream of block numbers\<close>

fun blocks_read :: "nat \<Rightarrow> Conn \<Rightarrow> int list" where
  "blocks_read 0 t = []"
| "blocks_read (Suc k) t =
     (case Conn_Block t of
        (Some (Inr b), t') \<Rightarrow> b_i b # blocks_read k t'
      | _ \<Rightarrow> [])"

lemma blocks_read_announced: "announces t bs \<Longrightarrow> blocks_read (length bs) t = map int bs"
proof (induction bs arbitrary: t)
  case (Cons b bs)
  then obtain t' where "Conn_Block t = (Some (Inr (new_Block (int b) (ring_block t b))), t')" "announces t' bs"
    using Conn_Block_announced by blast
  with Cons.IH show ?case by (simp add: new_Block_def)
qed simp

section \<open>The daemon reads a returned block number\<close>

lemma Block_Return_bytes:
  assumes "Block_Return b q = Some (None, b', q')" and "b_i b = int i"
  shows "written q' = written q @ PutUint32 (of_nat i)"
  using assms
  by (auto simp: Block_Return_def written_def split: option.splits prod.splits if_splits dest!: uw.wr_ok)

text \<open>The data reaches \<^verbatim>\<open>handleReads\<close>, the number goes through \<^verbatim>\<open>oldBlocks\<close>, and \<^verbatim>\<open>conn.run\<close> drops its reference.\<close>

definition return_events :: "nat \<Rightarrow> byte list \<Rightarrow> event list" where
  "return_events c bytes = [EClient c bytes, EReads c, EReads c, EConnOld c, EConn c]"

definition idle_conn :: "conn \<Rightarrow> bool" where
  "idle_conn k \<longleftrightarrow>
     c_pc k = CSelect \<and> h_pc k = HRead \<and> rchunks (sock k) = [] \<and> \<not> uclosed (sock k) \<and> peer_open k \<and> cbuf (cold k) = []"

lemma return_release:
  assumes inv: "sock_inv s" and few: "few_conns s" and cr: "crashed s = None" and c: "c < length (conns s)"
    and idle: "idle_conn (conns s ! c)" and i: "i < numBlocks s" "numBlocks s \<le> 2 ^ 31" and out: "outstanding (conns s ! c) ! i"
  shows "\<exists>s'. run_events (return_events c (PutUint32 (of_nat i))) s = Some s' \<and> crashed s' = None \<and>
           refs s' = (refs s)[i := refs s ! i - 1] \<and> \<not> outstanding (conns s' ! c) ! i \<and>
           c_pc (conns s' ! c) = (if refs s ! i = 1 then CClear i CSelect else CSelect) \<and>
           status s' = status s \<and> c < length (conns s')"
proof -
  let ?k = "conns s ! c"
  let ?bytes = "PutUint32 (of_nat i :: u32)"
  have k: "c_pc ?k = CSelect" "h_pc ?k = HRead" "rchunks (sock ?k) = []" "\<not> uclosed (sock ?k)" "peer_open ?k"
      "cbuf (cold ?k) = []"
    using idle by (simp_all add: idle_conn_def)
  have wf: "conn_wf (numBlocks s) ?k" by (rule conn_wfD [OF inv c])
  then have len: "i < length (outstanding ?k)" and chan: "0 < ccap (cold ?k)" "\<not> cclosed (cold ?k)"
    using i(1) k(2) by (auto simp: conn_wf_def)
  define k1 where "k1 = ?k\<lparr>sock := (sock ?k)\<lparr>rchunks := [?bytes]\<rparr>\<rparr>"
  have it: "handleReads_iter (numBlocks s) (sock k1) = (ReadBlock (i + 1), (sock k1)\<lparr>rchunks := []\<rparr>)"
    using handleReads_iter_index [of "sock k1" i "[]" "[]" "numBlocks s"] k(4) i by (simp add: k1_def rest_chunks_def)
  have mc: "msg_complete (sock k1)"
    using index_word [of i] i k(4) by (simp add: msg_complete_def k1_def Read_def)
  define k4 where "k4 = ?k\<lparr>sock := (sock k1)\<lparr>rchunks := []\<rparr>, h_pc := HRead, cold := (cold ?k)\<lparr>cbuf := []\<rparr>, outstanding := (outstanding ?k)[i := False], c_pc := CUnref i\<rparr>"
  have run4: "run_events [EClient c ?bytes, EReads c, EReads c, EConnOld c] s = Some (set_conn s c k4)"
    using k c cr it mc chan len out
    by (simp add: step_def on_conn_def client_send_def reads_step_def conn_oldBlock_def chan_send_def chan_recv_def Let_def
        k1_def k4_def set_conn_def)
  have "0 < chold ?k i" using k(1) len out by (simp add: chold_def)
  then have hold: "0 < holders s i" using chold_le_holders [OF c, of i] by simp
  note u = unref_held [OF inv few i(1) hold]
  have one: "refs s ! i = 1 \<longleftrightarrow> holders s i = 1"
  proof
    assume "refs s ! i = 1"
    then have "(of_nat (holders s i) :: i32) = of_nat 1" using counts_okD [OF inv i(1)] by simp
    moreover have "1 < max_refs" by (simp add: max_refs_def)
    ultimately show "holders s i = 1"
      using of_nat_i32_inj [OF holders_few [OF inv few i(1)]] by blast
  qed (simp add: counts_okD [OF inv i(1)])
  have step5: "step (EConn c) (set_conn s c k4) = Some (conn_unref (set_conn s c k4) c i CSelect)"
    using c cr by (simp add: step_def on_conn_def conn_step_def k4_def)
  define s' where "s' = conn_unref (set_conn s c k4) c i CSelect"
  have ev: "return_events c ?bytes = [EClient c ?bytes, EReads c, EReads c, EConnOld c] @ [EConn c]"
    by (simp add: return_events_def)
  have run: "run_events (return_events c ?bytes) s = Some s'"
    unfolding ev run_events_append run4 using step5 by (simp add: s'_def)
  have "fst (unref (refs s ! i)) = refs s ! i - 1" by (simp add: unref_def Let_def)
  then have "crashed s' = None" "refs s' = (refs s)[i := refs s ! i - 1]" "\<not> outstanding (conns s' ! c) ! i"
      "c_pc (conns s' ! c) = (if refs s ! i = 1 then CClear i CSelect else CSelect)" "status s' = status s" "c < length (conns s')"
    using u one c cr len by (simp_all add: s'_def conn_unref_def dec_block_def k4_def)
  with run show ?thesis by blast
qed

text \<open>When it was the last reference, the next step of the goroutine gives the block back to the kernel.\<close>

lemma clear_step:
  assumes "crashed s = None" and "c < length (conns s)" and "c_pc (conns s ! c) = CClear i CSelect"
  shows "\<exists>s'. step (EConn c) s = Some s' \<and> crashed s' = None \<and> refs s' = refs s \<and> status s' = (status s)[i := 0] \<and>
           c_pc (conns s' ! c) = CSelect"
  using assms by (simp add: step_def on_conn_def conn_step_def clear_block_def set_conn_def)

lemma return_clears:
  assumes "sock_inv s" and "few_conns s" and "crashed s = None" and "c < length (conns s)"
    and "idle_conn (conns s ! c)" and "i < numBlocks s" "numBlocks s \<le> 2 ^ 31" and "outstanding (conns s ! c) ! i" and "refs s ! i = 1"
  shows "\<exists>s'. run_events (return_events c (PutUint32 (of_nat i)) @ [EConn c]) s = Some s' \<and> crashed s' = None \<and>
           refs s' = (refs s)[i := 0] \<and> status s' = (status s)[i := 0] \<and> c_pc (conns s' ! c) = CSelect"
proof -
  obtain s1 where s1: "run_events (return_events c (PutUint32 (of_nat i))) s = Some s1" "crashed s1 = None"
      "refs s1 = (refs s)[i := 0]" "c_pc (conns s1 ! c) = CClear i CSelect" "status s1 = status s" "c < length (conns s1)"
    using return_release [OF assms(1-8)] assms(9) by auto
  obtain s2 where "step (EConn c) s1 = Some s2" "crashed s2 = None" "refs s2 = refs s1" "status s2 = (status s1)[i := 0]"
      "c_pc (conns s2 ! c) = CSelect"
    using clear_step [OF s1(2,6,4)] by blast
  with s1 show ?thesis by (simp add: run_events_append)
qed

end
