(* ===== verification/Cio.thy ===== *)
theory Cio
  imports Protocol
begin

text \<open>
  The input and output of the C client library (\<^verbatim>\<open>c/testimony.c\<close>): the buffered reader \<^verbatim>\<open>recv_t\<close>, \<^verbatim>\<open>recv_be_32\<close>, \<^verbatim>\<open>send_be_32\<close>,
  \<^verbatim>\<open>discard_bytes\<close> and the decoding of message headers.  What the kernel answers to \<^verbatim>\<open>recv\<close>, \<^verbatim>\<open>send\<close> and \<^verbatim>\<open>poll\<close>
  is part of the state, together with \<^verbatim>\<open>errno\<close>, which a failing call sets and a successful one leaves alone.  The reader meets
  the contract \<open>byte_source\<close> of Go's \<^verbatim>\<open>io.ReadFull\<close>, however the data is cut and wherever signals interrupt it.
\<close>

section \<open>The operating system\<close>

definition EINTR :: int where "EINTR = 4"
definition EIO :: int where "EIO = 5"
definition ENOMEM :: int where "ENOMEM = 12"
definition EINVAL :: int where "EINVAL = 22"
definition EPROTONOSUPPORT :: int where "EPROTONOSUPPORT = 93"
definition ECANCELED :: int where "ECANCELED = 125"

lemmas errno_defs = EINTR_def EIO_def ENOMEM_def EINVAL_def EPROTONOSUPPORT_def ECANCELED_def

datatype recv_ans = RData "byte list" | RErr int
datatype send_ans = SOk nat | SErr int
datatype poll_ans = PReady | PTimeout | PErr int

text \<open>When \<open>answers\<close> is empty the peer has closed the connection; when \<open>sends\<close> is empty every \<^verbatim>\<open>send\<close> takes all
  bytes; when \<open>polls\<close> is empty \<^verbatim>\<open>poll\<close> reports data.\<close>

record os =
  answers :: "recv_ans list"
  sends :: "send_ans list"
  polls :: "poll_ans list"
  sent :: "byte list"
  errno :: int

text \<open>\<open>None\<close> is the result -1, \<open>Some []\<close> the result 0.\<close>

definition recv :: "os \<Rightarrow> nat \<Rightarrow> byte list option \<times> os" where
  "recv w n =
     (case answers w of
        [] \<Rightarrow> (Some [], w)
      | RErr e # as \<Rightarrow> (None, w\<lparr>answers := as, errno := e\<rparr>)
      | RData bs # as \<Rightarrow>
          (Some (take n bs), w\<lparr>answers := if length bs \<le> n then as else RData (drop n bs) # as\<rparr>))"

text \<open>\<open>None\<close> is the result -1, otherwise the number of bytes taken.\<close>

definition send :: "os \<Rightarrow> byte list \<Rightarrow> nat option \<times> os" where
  "send w bs =
     (case sends w of
        [] \<Rightarrow> (Some (length bs), w\<lparr>sent := sent w @ bs\<rparr>)
      | SErr e # as \<Rightarrow> (None, w\<lparr>sends := as, errno := e\<rparr>)
      | SOk k # as \<Rightarrow> (Some (min k (length bs)), w\<lparr>sends := as, sent := sent w @ take k bs\<rparr>))"

section \<open>The library's state\<close>

text \<open>What an error message says; the message ends with the text of \<^verbatim>\<open>errno\<close>.\<close>

datatype terr =
    SocketFailed | BindFailed | ConnectFailed string | VersionRecvFailed | BadVersion byte | NoFanoutSize
  | NoTypeValue u32 | NotDiscarded u32 | RecvVal_length nat | MissingSizes_c | AlreadyInitiated | SendIndexType
  | SendIndex | RecvFdFailed | RingMapFailed | NotInitiated | PollFailed | RecvIndexFailed | BadIndex u32 "64 word"
  | CountNotZero u32 u32 | NotOurBlock | CountInvalid | SendBlockFailed | ReturnOverflow

text \<open>\<^verbatim>\<open>struct testimony_internal\<close> with its \<^verbatim>\<open>testimony_connection\<close>.  The two pointers into \<open>t_buf\<close> are offsets; a ring of 0
  and \<open>None\<close> for the counters are NULL.\<close>

record testimony =
  t_fanout_size :: i32
  t_block_size :: uintptr
  t_block_nr :: uintptr
  t_fanout_index :: i32
  t_sock_fd :: int
  t_afpacket_fd :: int
  t_ring :: uintptr
  t_errbuf :: "(terr \<times> int) option"
  t_block_counts :: "u32 list option"
  t_buf :: "byte list"
  t_buf_start :: nat
  t_buf_limit :: nat

definition TESTIMONY_BUF_SIZE :: nat where "TESTIMONY_BUF_SIZE = 256"

definition TERR :: "terr \<Rightarrow> os \<Rightarrow> testimony \<Rightarrow> testimony" where
  "TERR msg w t = t\<lparr>t_errbuf := Some (msg, errno w)\<rparr>"

definition TERR_SET :: "int \<Rightarrow> terr \<Rightarrow> os \<Rightarrow> testimony \<Rightarrow> testimony \<times> os" where
  "TERR_SET e msg w t = (let w = w\<lparr>errno := e\<rparr> in (TERR msg w t, w))"

section \<open>Headers\<close>

definition protocol_type :: "u32 \<Rightarrow> u32" where
  "protocol_type x = (if x AND 0x80000000 = 0 then 0 else drop_bit 16 x)"

definition protocol_length :: "u32 \<Rightarrow> u32" where
  "protocol_length x = (if x AND 0x80000000 = 0 then 0 else x AND 0xFFFF)"

definition set_be_32 :: "u32 \<Rightarrow> byte list" where
  "set_be_32 x = [ucast (drop_bit 24 x), ucast (drop_bit 16 x), ucast (drop_bit 8 x), ucast x]"

section \<open>Receiving\<close>

text \<open>How much work the remaining answers are.\<close>

fun ans_work :: "recv_ans list \<Rightarrow> nat" where
  "ans_work [] = 0"
| "ans_work (RData bs # as) = Suc (length bs) + ans_work as"
| "ans_work (RErr e # as) = Suc (ans_work as)"

lemma recv_work:
  assumes "recv w n = (r, w')" and "0 < n" and "r \<noteq> Some []"
  shows "ans_work (answers w') < ans_work (answers w)"
  using assms by (auto simp: recv_def split: list.splits recv_ans.splits if_splits)

text \<open>The inner loop: until the buffer has data.  \<open>False\<close> is the return of -1.\<close>

function recv_fill :: "testimony \<Rightarrow> os \<Rightarrow> bool \<times> testimony \<times> os" where
  "recv_fill t w =
     (if t_buf_start t < t_buf_limit t then (True, t, w)
      else
        (let t = t\<lparr>t_buf_start := 0, t_buf_limit := 0\<rparr> in
         case recv w TESTIMONY_BUF_SIZE of
           (None, w) \<Rightarrow> if errno w = EINTR then recv_fill t w else (False, t, w)
         | (Some [], w) \<Rightarrow> (False, t, w\<lparr>errno := ECANCELED\<rparr>)
         | (Some (b # bs), w) \<Rightarrow>
             recv_fill (t\<lparr>t_buf := (b # bs) @ drop (length (b # bs)) (t_buf t), t_buf_limit := length (b # bs)\<rparr>) w))"
  by pat_completeness auto
termination
  by (relation "measure (\<lambda>(t, w). ans_work (answers w))") (auto simp: TESTIMONY_BUF_SIZE_def dest!: recv_work [OF sym])

declare recv_fill.simps [simp del]

lemma recv_fill_have: "t_buf_start t < t_buf_limit t \<Longrightarrow> recv_fill t w = (True, t, w)"
  by (simp add: recv_fill.simps)

lemma recv_fill_closed:
  assumes "\<not> t_buf_start t < t_buf_limit t" and "answers w = [] \<or> (\<exists>as. answers w = RData [] # as)"
  shows "\<exists>w'. recv_fill t w = (False, t\<lparr>t_buf_start := 0, t_buf_limit := 0\<rparr>, w') \<and>
           w' = w\<lparr>answers := answers w', errno := errno w'\<rparr>"
  using assms by (auto simp: recv_fill.simps [of t w] recv_def)

lemma recv_fill_err:
  assumes "\<not> t_buf_start t < t_buf_limit t" and "answers w = RErr e # as"
  shows "recv_fill t w =
    (if e = EINTR then recv_fill (t\<lparr>t_buf_start := 0, t_buf_limit := 0\<rparr>) (w\<lparr>answers := as, errno := e\<rparr>)
     else (False, t\<lparr>t_buf_start := 0, t_buf_limit := 0\<rparr>, w\<lparr>answers := as, errno := e\<rparr>))"
  using assms by (subst recv_fill.simps) (simp add: recv_def)

lemma recv_fill_data:
  assumes "\<not> t_buf_start t < t_buf_limit t" and "answers w = RData bs # as" and "bs \<noteq> []"
  defines "d \<equiv> take TESTIMONY_BUF_SIZE bs"
  shows "recv_fill t w =
    (True, t\<lparr>t_buf := d @ drop (length d) (t_buf t), t_buf_start := 0, t_buf_limit := length d\<rparr>,
     w\<lparr>answers := if length bs \<le> TESTIMONY_BUF_SIZE then as else RData (drop TESTIMONY_BUF_SIZE bs) # as\<rparr>)"
proof -
  have "d \<noteq> []" using assms(3) by (simp add: d_def TESTIMONY_BUF_SIZE_def)
  then obtain b ds where d: "d = b # ds" by (cases d) auto
  then have r: "recv w TESTIMONY_BUF_SIZE =
      (Some (b # ds), w\<lparr>answers := if length bs \<le> TESTIMONY_BUF_SIZE then as else RData (drop TESTIMONY_BUF_SIZE bs) # as\<rparr>)"
    using assms(2) by (simp add: recv_def d_def)
  show ?thesis
    using assms(1) by (subst recv_fill.simps) (simp add: r d recv_fill_have)
qed

text \<open>The data that will still arrive, and what of it is in the buffer already.\<close>

fun stream :: "recv_ans list \<Rightarrow> byte list" where
  "stream [] = []"
| "stream (RErr e # as) = (if e = EINTR then stream as else [])"
| "stream (RData bs # as) = (if bs = [] then [] else bs @ stream as)"

definition buffered :: "testimony \<Rightarrow> byte list" where
  "buffered t = take (t_buf_limit t - t_buf_start t) (drop (t_buf_start t) (t_buf t))"

definition buf_ok :: "testimony \<Rightarrow> bool" where
  "buf_ok t \<longleftrightarrow> length (t_buf t) = TESTIMONY_BUF_SIZE \<and> t_buf_limit t \<le> TESTIMONY_BUF_SIZE"

definition unread :: "testimony \<times> os \<Rightarrow> byte list" where
  "unread c = buffered (fst c) @ stream (answers (snd c))"

definition avail :: "testimony \<Rightarrow> os \<Rightarrow> nat" where
  "avail t w = (t_buf_limit t - t_buf_start t) + length (stream (answers w))"

text \<open>What reading may change: the buffer, the answers still to come, \<^verbatim>\<open>errno\<close> and, on errors, the message.\<close>

definition reads_only :: "testimony \<Rightarrow> os \<Rightarrow> testimony \<Rightarrow> os \<Rightarrow> bool" where
  "reads_only t w t' w' \<longleftrightarrow>
     t' = t\<lparr>t_errbuf := t_errbuf t', t_buf := t_buf t', t_buf_start := t_buf_start t', t_buf_limit := t_buf_limit t'\<rparr> \<and>
     w' = w\<lparr>answers := answers w', errno := errno w'\<rparr>"

lemma reads_only_refl [simp]: "reads_only t w t w"
  by (simp add: reads_only_def)

lemma reads_only_trans [trans]: "reads_only t w t' w' \<Longrightarrow> reads_only t' w' t'' w'' \<Longrightarrow> reads_only t w t'' w''"
  by (cases t; cases t'; cases t''; cases w; cases w'; cases w'') (simp add: reads_only_def)

lemma reads_only_fields:
  "reads_only t w t' w' \<Longrightarrow>
     t_fanout_size t' = t_fanout_size t \<and> t_block_size t' = t_block_size t \<and> t_block_nr t' = t_block_nr t \<and>
     t_fanout_index t' = t_fanout_index t \<and> t_sock_fd t' = t_sock_fd t \<and> t_afpacket_fd t' = t_afpacket_fd t \<and>
     t_ring t' = t_ring t \<and> t_block_counts t' = t_block_counts t \<and> sends w' = sends w \<and> polls w' = polls w \<and>
     sent w' = sent w"
  by (cases t; cases t'; cases w; cases w') (simp add: reads_only_def)

lemma recv_fill_spec:
  "\<exists>t' w'. recv_fill t w = (avail t w \<noteq> 0, t', w') \<and> reads_only t w t' w' \<and>
     (avail t w \<noteq> 0 \<longrightarrow> t_buf_start t' < t_buf_limit t' \<and> avail t' w' = avail t w) \<and>
     (buf_ok t \<longrightarrow> buf_ok t' \<and> (avail t w \<noteq> 0 \<longrightarrow> unread (t', w') = unread (t, w)))"
proof (induction "answers w" arbitrary: t w)
  case Nil
  show ?case
  proof (cases "t_buf_start t < t_buf_limit t")
    case True
    then show ?thesis by (simp add: recv_fill_have avail_def)
  next
    case False
    then obtain w' where "recv_fill t w = (False, t\<lparr>t_buf_start := 0, t_buf_limit := 0\<rparr>, w')"
        "w' = w\<lparr>answers := answers w', errno := errno w'\<rparr>"
      using recv_fill_closed [of t w] Nil by auto
    then show ?thesis
      using False Nil [symmetric] by (simp add: avail_def reads_only_def buf_ok_def)
  qed
next
  case (Cons a as)
  note ans = Cons.hyps(2) [symmetric]
  let ?t = "t\<lparr>t_buf_start := 0, t_buf_limit := 0\<rparr>"
  show ?case
  proof (cases "t_buf_start t < t_buf_limit t")
    case True
    then show ?thesis by (simp add: recv_fill_have avail_def)
  next
    case empty: False
    show ?thesis
    proof (cases a)
      case (RErr e)
      let ?w = "w\<lparr>answers := as, errno := e\<rparr>"
      have ro: "reads_only t w ?t ?w" by (simp add: reads_only_def)
      show ?thesis
      proof (cases "e = EINTR")
        case True
        have eq: "recv_fill t w = recv_fill ?t ?w" "avail ?t ?w = avail t w" "unread (?t, ?w) = unread (t, w)"
          "buf_ok t \<Longrightarrow> buf_ok ?t"
          using empty ans RErr True
          by (simp_all add: recv_fill_err avail_def unread_def buffered_def buf_ok_def)
        show ?thesis
          using Cons.hyps(1) [of ?w ?t] reads_only_trans [OF ro] eq by auto
      next
        case False
        then show ?thesis
          using empty ans RErr ro by (simp add: recv_fill_err avail_def buf_ok_def)
      qed
    next
      case (RData bs)
      show ?thesis
      proof (cases "bs = []")
        case True
        then obtain w' where "recv_fill t w = (False, ?t, w')" "w' = w\<lparr>answers := answers w', errno := errno w'\<rparr>"
          using recv_fill_closed [OF empty] ans RData by auto
        then show ?thesis
          using empty ans RData True by (simp add: avail_def reads_only_def buf_ok_def)
      next
        case False
        define d where "d = take TESTIMONY_BUF_SIZE bs"
        define as' where "as' = (if length bs \<le> TESTIMONY_BUF_SIZE then as else RData (drop TESTIMONY_BUF_SIZE bs) # as)"
        have fill: "recv_fill t w =
            (True, t\<lparr>t_buf := d @ drop (length d) (t_buf t), t_buf_start := 0, t_buf_limit := length d\<rparr>, w\<lparr>answers := as'\<rparr>)"
          using recv_fill_data [OF empty _ False] ans RData by (simp add: d_def as'_def)
        have str: "stream (answers w) = d @ stream as'" "d \<noteq> []" "length d \<le> TESTIMONY_BUF_SIZE"
          using ans RData False by (auto simp: d_def as'_def TESTIMONY_BUF_SIZE_def)
        then show ?thesis
          using fill empty
          by (simp add: avail_def reads_only_def buf_ok_def unread_def buffered_def)
      qed
    qed
  qed
qed

lemma recv_fill_more: "recv_fill t w = (True, t', w') \<Longrightarrow> t_buf_start t' < t_buf_limit t'"
  using recv_fill_spec [of t w] by auto

text \<open>The outer loop, with \<open>n\<close> the number of bytes still to be copied out: the bytes, or \<open>None\<close> for -1.\<close>

function recv_t :: "testimony \<Rightarrow> os \<Rightarrow> nat \<Rightarrow> byte list option \<times> testimony \<times> os" where
  "recv_t t w n =
     (if n = 0 then (Some [], t, w)
      else
        case recv_fill t w of
          (False, t, w) \<Rightarrow> (None, t, w)
        | (True, t, w) \<Rightarrow>
            (let to_copy_buf = t_buf_limit t - t_buf_start t;
                 to_copy = (if n < to_copy_buf then n else to_copy_buf);
                 part = take to_copy (drop (t_buf_start t) (t_buf t))
             in case recv_t (t\<lparr>t_buf_start := t_buf_start t + to_copy\<rparr>) w (n - to_copy) of
                  (None, t, w) \<Rightarrow> (None, t, w)
                | (Some bs, t, w) \<Rightarrow> (Some (part @ bs), t, w)))"
  by pat_completeness auto
termination
  by (relation "measure (\<lambda>(t, w, n). n)") (auto dest!: recv_fill_more [OF sym])

declare recv_t.simps [simp del]

definition recv_be_32 :: "testimony \<Rightarrow> os \<Rightarrow> u32 option \<times> testimony \<times> os" where
  "recv_be_32 t w =
     (case recv_t t w 4 of
        (None, t, w) \<Rightarrow> (None, t, w)
      | (Some msg, t, w) \<Rightarrow> (Some (foldl (\<lambda>out b. push_bit 8 out + ucast b) 0 msg), t, w))"

function discard_bytes :: "testimony \<Rightarrow> os \<Rightarrow> nat \<Rightarrow> bool \<times> testimony \<times> os" where
  "discard_bytes t w n =
     (if n = 0 then (True, t, w)
      else
        (let len = (if n > TESTIMONY_BUF_SIZE then TESTIMONY_BUF_SIZE else n) in
         case recv_t t w len of
           (None, t, w) \<Rightarrow> (False, TERR (RecvVal_length n) w t, w)
         | (Some val, t, w) \<Rightarrow> discard_bytes t w (n - len)))"
  by pat_completeness auto
termination
  by (relation "measure (\<lambda>(t, w, n). n)") (auto simp: TESTIMONY_BUF_SIZE_def)

declare discard_bytes.simps [simp del]

section \<open>Sending\<close>

text \<open>\<open>False\<close> is the return of -1.\<close>

function send_loop :: "os \<Rightarrow> byte list \<Rightarrow> bool \<times> os" where
  "send_loop w bs =
     (if bs = [] then (True, w)
      else
        case send w bs of
          (None, w) \<Rightarrow> (False, w)
        | (Some r, w) \<Rightarrow> send_loop w (drop r bs))"
  by pat_completeness auto
termination
  by (relation "measure (\<lambda>(w, bs). length (sends w) + length bs)")
     (auto simp: send_def split: list.splits send_ans.splits)

declare send_loop.simps [simp del]

definition send_be_32 :: "os \<Rightarrow> u32 \<Rightarrow> bool \<times> os" where
  "send_be_32 w v = send_loop w (set_be_32 v)"

section \<open>The reader delivers the stream\<close>


lemma advance:
  assumes "t_buf_start t < t_buf_limit t" and "0 < n" and "n \<le> avail t w"
  defines "m \<equiv> if n < t_buf_limit t - t_buf_start t then n else t_buf_limit t - t_buf_start t"
  defines "u \<equiv> t\<lparr>t_buf_start := t_buf_start t + m\<rparr>"
  shows "0 < m" "m \<le> n" "avail u w = avail t w - m" "reads_only t w u w"
    "buf_ok t \<Longrightarrow> buf_ok u \<and> take m (drop (t_buf_start t) (t_buf t)) @ unread (u, w) = unread (t, w) \<and>
       length (take m (drop (t_buf_start t) (t_buf t))) = m"
proof -
  show m: "0 < m" "m \<le> n" using assms(1,2) by (simp_all add: m_def)
  show "avail u w = avail t w - m" using assms(1) by (simp add: avail_def u_def m_def)
  show "reads_only t w u w" by (simp add: reads_only_def u_def)
  have le: "m \<le> t_buf_limit t - t_buf_start t" by (simp add: m_def)
  assume ok: "buf_ok t"
  let ?xs = "drop (t_buf_start t) (t_buf t)" and ?k = "t_buf_limit t - t_buf_start t"
  have "take m ?xs @ take (?k - m) (drop m ?xs) = take ?k ?xs"
    using le by (metis append_take_drop_id drop_take le_add_diff_inverse take_add)
  then have "take m ?xs @ unread (u, w) = unread (t, w)"
    by (simp add: u_def unread_def buffered_def add.commute diff_diff_left)
  moreover have "m \<le> length ?xs" using le ok by (auto simp: buf_ok_def)
  then have "length (take m ?xs) = m" by simp
  ultimately show "buf_ok u \<and> take m ?xs @ unread (u, w) = unread (t, w) \<and> length (take m ?xs) = m"
    using ok by (simp add: buf_ok_def u_def)
qed

lemma recv_t_spec:
  "\<exists>r t' w'. recv_t t w n = (r, t', w') \<and> reads_only t w t' w' \<and> (r \<noteq> None \<longleftrightarrow> n \<le> avail t w) \<and>
     (r \<noteq> None \<longrightarrow> avail t' w' = avail t w - n) \<and>
     (buf_ok t \<longrightarrow> buf_ok t' \<and> (r \<noteq> None \<longrightarrow> r = Some (take n (unread (t, w))) \<and> unread (t', w') = drop n (unread (t, w))))"
proof (induction n arbitrary: t w rule: less_induct)
  case (less n)
  show ?case
  proof (cases "n = 0")
    case True
    then show ?thesis by (simp add: recv_t.simps)
  next
    case False
    obtain t1 w1 where f: "recv_fill t w = (avail t w \<noteq> 0, t1, w1)" "reads_only t w t1 w1"
      "avail t w \<noteq> 0 \<longrightarrow> t_buf_start t1 < t_buf_limit t1 \<and> avail t1 w1 = avail t w"
      "buf_ok t \<longrightarrow> buf_ok t1 \<and> (avail t w \<noteq> 0 \<longrightarrow> unread (t1, w1) = unread (t, w))"
      using recv_fill_spec [of t w] by blast
    show ?thesis
    proof (cases "avail t w = 0")
      case True
      then show ?thesis
        using False f by (intro exI [of _ None] exI [of _ t1] exI [of _ w1]) (simp add: recv_t.simps [of t w n])
    next
      case more: False
      define m where "m = (if n < t_buf_limit t1 - t_buf_start t1 then n else t_buf_limit t1 - t_buf_start t1)"
      define u where "u = t1\<lparr>t_buf_start := t_buf_start t1 + m\<rparr>"
      define part where "part = take m (drop (t_buf_start t1) (t_buf t1))"
      have st: "t_buf_start t1 < t_buf_limit t1" "avail t1 w1 = avail t w" using f(3) more by auto
      have m: "0 < m" "m \<le> n" "reads_only t1 w1 u w1" "m \<le> avail t w"
        using st False by (auto simp: m_def u_def reads_only_def avail_def)
      have av: "avail u w1 = avail t w - m" using st by (auto simp: avail_def u_def m_def)
      have ok: "buf_ok u" "part @ unread (u, w1) = unread (t, w)" "length part = m" if "buf_ok t"
      proof -
        have "buf_ok t1" "unread (t1, w1) = unread (t, w)" using f(4) that more by auto
        then show "buf_ok u" "part @ unread (u, w1) = unread (t, w)" "length part = m"
          using advance(5) [OF st(1), of m w1] m(1,4) st(2) by (auto simp: u_def part_def m_def split: if_splits)
      qed
      obtain r t' w' where ih: "recv_t u w1 (n - m) = (r, t', w')" "reads_only u w1 t' w'" "r \<noteq> None \<longleftrightarrow> n - m \<le> avail u w1"
        "r \<noteq> None \<longrightarrow> avail t' w' = avail u w1 - (n - m)"
        "buf_ok u \<longrightarrow> buf_ok t' \<and> (r \<noteq> None \<longrightarrow> r = Some (take (n - m) (unread (u, w1))) \<and> unread (t', w') = drop (n - m) (unread (u, w1)))"
        using less.IH [of "n - m" u w1] m by auto
      have eq: "recv_t t w n = (map_option ((@) part) r, t', w')"
        using False more f(1) ih(1) by (simp add: recv_t.simps [of t w n] Let_def m_def u_def part_def split: option.split)
      have "reads_only t w t' w'" using f(2) m(3) ih(2) reads_only_trans by blast
      moreover have "r \<noteq> None \<longleftrightarrow> n \<le> avail t w" using ih(3) av m by auto
      moreover have "r \<noteq> None \<longrightarrow> avail t' w' = avail t w - n" using ih(3,4) av m by auto
      moreover have "buf_ok t' \<and> (r \<noteq> None \<longrightarrow> map_option ((@) part) r = Some (take n (unread (t, w))) \<and>
          unread (t', w') = drop n (unread (t, w)))" if "buf_ok t"
        using ok [OF that] ih(5) m(2) by (auto simp flip: ok(2) [OF that])
      ultimately show ?thesis using eq by auto
    qed
  qed
qed

lemma avail_unread: "buf_ok t \<Longrightarrow> avail t w = length (unread (t, w))"
  by (auto simp: buf_ok_def avail_def unread_def buffered_def)

definition recv_bytes :: "testimony \<times> os \<Rightarrow> nat \<Rightarrow> (int + byte list) \<times> testimony \<times> os" where
  "recv_bytes c n =
     (case recv_t (fst c) (snd c) n of
        (None, t, w) \<Rightarrow> (Inl (errno w), t, w)
      | (Some bs, t, w) \<Rightarrow> (Inr bs, t, w))"

lemma recv_t_enough:
  assumes "buf_ok t" and "n \<le> length (unread (t, w))"
  shows "\<exists>t' w'. recv_t t w n = (Some (take n (unread (t, w))), t', w') \<and> unread (t', w') = drop n (unread (t, w)) \<and>
           buf_ok t' \<and> reads_only t w t' w'"
  using recv_t_spec [of t w n] assms avail_unread [OF assms(1), of w] by fastforce

lemma recv_t_short:
  assumes "buf_ok t" and "length (unread (t, w)) < n"
  shows "\<exists>t' w'. recv_t t w n = (None, t', w') \<and> buf_ok t' \<and> reads_only t w t' w'"
  using recv_t_spec [of t w n] assms avail_unread [OF assms(1), of w] by fastforce

interpretation cr: byte_source recv_bytes unread "\<lambda>c. buf_ok (fst c)"
proof
  show "\<exists>c'. recv_bytes c n = (Inr (take n (unread c)), c') \<and> unread c' = drop n (unread c) \<and> buf_ok (fst c')"
    if "buf_ok (fst c)" and "n \<le> length (unread c)" for c n
    using recv_t_enough [of "fst c" n "snd c"] that by (auto simp: recv_bytes_def)
  show "\<exists>e c'. recv_bytes c n = (Inl e, c')" if "buf_ok (fst c)" and "length (unread c) < n" for c n
    using recv_t_short [of "fst c" "snd c" n] that by (auto simp: recv_bytes_def)
qed

lemma recv_t_avail: "recv_t t w n = (Some bs, t', w') \<Longrightarrow> n \<le> avail t w \<and> avail t' w' = avail t w - n"
  using recv_t_spec [of t w n] by fastforce

lemma recv_t_frame: "recv_t t w n = (r, t', w') \<Longrightarrow> reads_only t w t' w'"
  using recv_t_spec [of t w n] by fastforce

lemma recv_t_buf_ok: "recv_t t w n = (r, t', w') \<Longrightarrow> buf_ok t \<Longrightarrow> buf_ok t'"
  using recv_t_spec [of t w n] by fastforce

section \<open>The codec agrees with Go's\<close>

lemma set_be_32_eq: "set_be_32 x = PutUint32 x"
  by (simp add: set_be_32_def PutUint32_def)

lemma shift_add: "push_bit 8 (out :: u32) + ucast (b :: byte) = push_bit 8 out OR ucast b"
  by (rule disjunctive_add) (auto simp: bit_simps dest: bit_imp_le_length)

lemma be32_fold:
  "foldl (\<lambda>out b. push_bit 8 out + ucast b) 0 [b0, b1, b2, b3] =
     (ucast (b3 :: byte) OR push_bit 8 (ucast b2) OR push_bit 16 (ucast b1) OR push_bit 24 (ucast b0) :: u32)"
  unfolding foldl.simps shift_add by (rule bit_word_eqI) (auto simp: bit_simps)

lemma recv_be_32_msg:
  assumes "buf_ok t" and "unread (t, w) = PutUint32 v @ rest"
  shows "\<exists>t' w'. recv_be_32 t w = (Some v, t', w') \<and> unread (t', w') = rest \<and> buf_ok t' \<and> reads_only t w t' w'"
proof -
  obtain t' w' where r: "recv_t t w 4 = (Some (PutUint32 v), t', w')" "unread (t', w') = rest" "buf_ok t'" "reads_only t w t' w'"
    using recv_t_enough [OF assms(1), of 4 w] assms(2) by auto
  have "foldl (\<lambda>out b. push_bit 8 out + ucast b) 0 (PutUint32 v) = v"
    unfolding PutUint32_def be32_fold by (rule be32_join_split)
  with r show ?thesis by (simp add: recv_be_32_def)
qed

lemma high_half: "(ucast (ucast (drop_bit 16 x) :: u16) :: u32) = drop_bit 16 x"
  by (rule bit_word_eqI) (auto simp: bit_simps dest: bit_imp_le_length)

lemma protocol_type_length:
  "protocol_type x = ucast (fst (TLFrom x))" "uint (protocol_length x) = snd (TLFrom x)"
  by (auto simp: protocol_type_def protocol_length_def TLFrom_def TypeBlockIndex_def high_half)

lemma uint_ucast64: "uint (ucast (b :: u32) :: uintptr) = uint b"
  using uint_less_2p32 [of b] by (simp add: unsigned_ucast_eq take_bit_int_eq_self)

lemma unat_ucast64: "unat (ucast (b :: u32) :: uintptr) = unat b"
  by (simp only: unat_eq_nat_uint uint_ucast64)

lemma ucast64_0 [simp]: "(ucast (b :: u32) :: uintptr) = 0 \<longleftrightarrow> b = 0"
  by (simp add: word_uint_eq_iff uint_ucast64)

section \<open>Discarding and sending\<close>

lemma discard_bytes_avail: "discard_bytes t w n = (True, t', w') \<Longrightarrow> avail t' w' \<le> avail t w"
proof (induction n arbitrary: t w rule: less_induct)
  case (less n)
  let ?len = "if n > TESTIMONY_BUF_SIZE then TESTIMONY_BUF_SIZE else n"
  obtain r t1 w1 where r: "recv_t t w ?len = (r, t1, w1)" by (cases "recv_t t w ?len")
  show ?case
  proof (cases "n = 0")
    case False
    then obtain bs where bs: "r = Some bs" "discard_bytes t1 w1 (n - ?len) = (True, t', w')"
      using less.prems r by (cases r) (simp_all add: discard_bytes.simps [of t w n])
    then have "avail t' w' \<le> avail t1 w1"
      using less.IH [of "n - ?len" t1 w1] False by (simp add: TESTIMONY_BUF_SIZE_def split: if_splits)
    then show ?thesis using recv_t_avail r bs(1) by fastforce
  qed (use less.prems in \<open>simp add: discard_bytes.simps\<close>)
qed

lemma discard_bytes_frame: "discard_bytes t w n = (r, t', w') \<Longrightarrow> reads_only t w t' w'"
proof (induction n arbitrary: t w rule: less_induct)
  case (less n)
  let ?len = "if n > TESTIMONY_BUF_SIZE then TESTIMONY_BUF_SIZE else n"
  obtain q t1 w1 where q: "recv_t t w ?len = (q, t1, w1)" by (cases "recv_t t w ?len")
  note ro = recv_t_frame [OF q]
  show ?case
  proof (cases "n = 0")
    case False
    show ?thesis
    proof (cases q)
      case None
      then have "t' = TERR (RecvVal_length n) w1 t1" "w' = w1"
        using less.prems q False by (auto simp: discard_bytes.simps [of t w n])
      then have "reads_only t1 w1 t' w'" by (simp add: reads_only_def TERR_def)
      then show ?thesis using ro reads_only_trans by blast
    next
      case (Some bs)
      then have "discard_bytes t1 w1 (n - ?len) = (r, t', w')"
        using less.prems q False by (simp add: discard_bytes.simps [of t w n])
      then have "reads_only t1 w1 t' w'"
        using less.IH [of "n - ?len" t1 w1] False by (simp add: TESTIMONY_BUF_SIZE_def split: if_splits)
      then show ?thesis using ro reads_only_trans by blast
    qed
  qed (use less.prems in \<open>simp add: discard_bytes.simps\<close>)
qed

lemma discard_bytes_enough:
  assumes "buf_ok t" and "n \<le> length (unread (t, w))"
  shows "\<exists>t' w'. discard_bytes t w n = (True, t', w') \<and> unread (t', w') = drop n (unread (t, w)) \<and> buf_ok t' \<and>
           reads_only t w t' w'"
  using assms
proof (induction n arbitrary: t w rule: less_induct)
  case (less n)
  let ?len = "if n > TESTIMONY_BUF_SIZE then TESTIMONY_BUF_SIZE else n"
  have len: "?len \<le> n" by simp
  show ?case
  proof (cases "n = 0")
    case True
    then show ?thesis using less.prems by (simp add: discard_bytes.simps)
  next
    case False
    obtain t1 w1 where r: "recv_t t w ?len = (Some (take ?len (unread (t, w))), t1, w1)"
      "unread (t1, w1) = drop ?len (unread (t, w))" "buf_ok t1" "reads_only t w t1 w1"
      using recv_t_enough [OF less.prems(1), of ?len w] less.prems(2) len by auto
    have "n - ?len < n" using False by (simp add: TESTIMONY_BUF_SIZE_def)
    moreover have "n - ?len \<le> length (unread (t1, w1))" using r(2) less.prems(2) by simp
    ultimately obtain t2 w2 where "discard_bytes t1 w1 (n - ?len) = (True, t2, w2)"
      "unread (t2, w2) = drop (n - ?len) (unread (t1, w1))" "buf_ok t2" "reads_only t1 w1 t2 w2"
      using less.IH [OF _ r(3)] by blast
    then show ?thesis
      using r False len reads_only_trans [OF r(4)] by (auto simp: discard_bytes.simps [of t w n])
  qed
qed

lemma send_loop_sent:
  assumes "send_loop w bs = (ok, w')"
  shows "\<exists>k \<le> length bs. sent w' = sent w @ take k bs \<and> (ok \<longrightarrow> k = length bs) \<and> answers w' = answers w \<and> polls w' = polls w"
  using assms
proof (induction w bs rule: send_loop.induct)
  case (1 w bs)
  show ?case
  proof (cases "bs = []")
    case True
    then show ?thesis using "1.prems" by (simp add: send_loop.simps)
  next
    case False
    obtain r w1 where s: "send w bs = (r, w1)" by force
    show ?thesis
    proof (cases r)
      case None
      then have "w' = w1" "\<not> ok" using "1.prems" s False by (simp_all add: send_loop.simps [of w bs])
      moreover have "sent w1 = sent w" "answers w1 = answers w" "polls w1 = polls w"
        using s None by (auto simp: send_def split: list.splits send_ans.splits)
      ultimately show ?thesis by (intro exI [of _ 0]) simp
    next
      case (Some n)
      then have n: "n \<le> length bs" "sent w1 = sent w @ take n bs" "answers w1 = answers w" "polls w1 = polls w"
        using s by (auto simp: send_def min_def split: list.splits send_ans.splits)
      have "send_loop w1 (drop n bs) = (ok, w')" using "1.prems" s False Some by (simp add: send_loop.simps [of w bs])
      from "1.IH" [OF False s [symmetric] Some this] obtain k where
        k: "k \<le> length (drop n bs)" "sent w' = sent w1 @ take k (drop n bs)" "ok \<longrightarrow> k = length (drop n bs)"
          "answers w' = answers w1" "polls w' = polls w1"
        by blast
      then have "sent w' = sent w @ take (n + k) bs" using n by (simp add: take_add)
      with k n show ?thesis by (intro exI [of _ "n + k"]) auto
    qed
  qed
qed

lemma send_be_32_sent:
  assumes "send_be_32 w v = (True, w')"
  shows "sent w' = sent w @ PutUint32 v \<and> answers w' = answers w \<and> polls w' = polls w"
  using send_loop_sent [of w "PutUint32 v"] assms by (auto simp: send_be_32_def set_be_32_eq)

lemma send_be_32_open: "sends w = [] \<Longrightarrow> send_be_32 w v = (True, w\<lparr>sent := sent w @ PutUint32 v\<rparr>)"
  by (simp add: send_be_32_def send_loop.simps [of w] send_loop.simps [of _ "[]"] send_def set_be_32_eq)

section \<open>Failures are reported\<close>

text \<open>The kernel never reports the error number 0; then a failing read leaves a positive \<^verbatim>\<open>errno\<close>.\<close>

definition errs_ok :: "os \<Rightarrow> bool" where
  "errs_ok w \<longleftrightarrow> (\<forall>e. RErr e \<in> set (answers w) \<longrightarrow> 0 < e) \<and> (\<forall>e. SErr e \<in> set (sends w) \<longrightarrow> 0 < e) \<and>
     (\<forall>e. PErr e \<in> set (polls w) \<longrightarrow> 0 < e)"

lemma recv_errs: "recv w n = (r, w') \<Longrightarrow> errs_ok w \<Longrightarrow> errs_ok w' \<and> (r = None \<longrightarrow> 0 < errno w')"
  by (auto simp: recv_def errs_ok_def split: list.splits recv_ans.splits if_splits)

lemma errs_ok_errno [simp]: "errs_ok (w\<lparr>errno := e\<rparr>) = errs_ok w"
  by (simp add: errs_ok_def)

lemma recv_fill_errs: "recv_fill t w = (r, t', w') \<Longrightarrow> errs_ok w \<Longrightarrow> errs_ok w' \<and> (r \<or> 0 < errno w')"
proof (induction "answers w" arbitrary: t w)
  case Nil
  then show ?case
    by (cases "t_buf_start t < t_buf_limit t") (auto simp: recv_fill.simps [of t w] recv_def errno_defs)
next
  case (Cons a as)
  note ans = Cons.hyps(2) [symmetric]
  show ?case
  proof (cases "t_buf_start t < t_buf_limit t")
    case True
    then show ?thesis using Cons.prems by (simp add: recv_fill_have)
  next
    case False
    show ?thesis
    proof (cases a)
      case (RErr e)
      have "errs_ok (w\<lparr>answers := as, errno := e\<rparr>)" "0 < e" using Cons.prems(2) ans RErr by (auto simp: errs_ok_def)
      then show ?thesis
        using Cons.prems(1) Cons.hyps(1) [of "w\<lparr>answers := as, errno := e\<rparr>"] ans RErr
        by (auto simp: recv_fill_err [OF False] split: if_splits)
    next
      case (RData bs)
      show ?thesis
      proof (cases "bs = []")
        case True
        then show ?thesis
          using Cons.prems ans RData False by (auto simp: recv_fill.simps [of t w] recv_def errno_defs errs_ok_def)
      next
        case nonempty: False
        then show ?thesis
          using Cons.prems ans RData recv_fill_data [OF False, of w bs as] by (auto simp: errs_ok_def split: if_splits)
      qed
    qed
  qed
qed

lemma recv_t_errs: "recv_t t w n = (r, t', w') \<Longrightarrow> errs_ok w \<Longrightarrow> errs_ok w' \<and> (r \<noteq> None \<or> 0 < errno w')"
proof (induction n arbitrary: t w r t' w' rule: less_induct)
  case (less n)
  show ?case
  proof (cases "n = 0")
    case True
    then show ?thesis using less.prems by (auto simp: recv_t.simps [of t w 0])
  next
    case False
    obtain ok t1 w1 where f: "recv_fill t w = (ok, t1, w1)" by (cases "recv_fill t w")
    note e1 = recv_fill_errs [OF f less.prems(2)]
    show ?thesis
    proof (cases ok)
      case False
      then show ?thesis using less.prems(1) f e1 \<open>n \<noteq> 0\<close> by (simp add: recv_t.simps [of t w n])
    next
      case True
      define m where "m = (if n < t_buf_limit t1 - t_buf_start t1 then n else t_buf_limit t1 - t_buf_start t1)"
      obtain q t2 w2 where q: "recv_t (t1\<lparr>t_buf_start := t_buf_start t1 + m\<rparr>) w1 (n - m) = (q, t2, w2)"
        by (cases "recv_t (t1\<lparr>t_buf_start := t_buf_start t1 + m\<rparr>) w1 (n - m)")
      have "n - m < n" using recv_fill_more f True \<open>n \<noteq> 0\<close> by (auto simp: m_def)
      then have "errs_ok w2 \<and> (q \<noteq> None \<or> 0 < errno w2)" using less.IH [OF _ q] e1 by blast
      then show ?thesis
        using less.prems(1) f q True \<open>n \<noteq> 0\<close>
        by (cases q) (auto simp: recv_t.simps [of t w n] m_def Let_def)
    qed
  qed
qed

lemma recv_be_32_errs: "recv_be_32 t w = (r, t', w') \<Longrightarrow> errs_ok w \<Longrightarrow> errs_ok w' \<and> (r \<noteq> None \<or> 0 < errno w')"
  by (auto simp: recv_be_32_def split: prod.splits option.splits dest: recv_t_errs)

lemma discard_bytes_errs: "discard_bytes t w n = (r, t', w') \<Longrightarrow> errs_ok w \<Longrightarrow> errs_ok w' \<and> (r \<or> 0 < errno w')"
proof (induction n arbitrary: t w rule: less_induct)
  case (less n)
  let ?len = "if n > TESTIMONY_BUF_SIZE then TESTIMONY_BUF_SIZE else n"
  obtain q t1 w1 where q: "recv_t t w ?len = (q, t1, w1)" by (cases "recv_t t w ?len")
  note e1 = recv_t_errs [OF q less.prems(2)]
  show ?case
  proof (cases "n = 0")
    case False
    then have "n - ?len < n" by (simp add: TESTIMONY_BUF_SIZE_def)
    then show ?thesis
      using less.prems(1) q e1 False less.IH [of "n - ?len" t1 w1]
      by (cases q) (auto simp: discard_bytes.simps [of t w n])
  qed (use less.prems in \<open>simp add: discard_bytes.simps\<close>)
qed

lemma send_loop_errs: "send_loop w bs = (ok, w') \<Longrightarrow> errs_ok w \<Longrightarrow> errs_ok w' \<and> (ok \<or> 0 < errno w')"
proof (induction w bs rule: send_loop.induct)
  case (1 w bs)
  obtain r w1 where s: "send w bs = (r, w1)" by force
  have e1: "errs_ok w1 \<and> (r = None \<longrightarrow> 0 < errno w1)"
    using s "1.prems"(2) by (auto simp: send_def errs_ok_def split: list.splits send_ans.splits)
  show ?case
    using "1.prems" "1.IH" s e1 by (cases "bs = []"; cases r) (auto simp: send_loop.simps [of w bs] send_loop.simps [of w "[]"])
qed

section \<open>Reading up to a boundary\<close>

text \<open>\<open>X\<close> is what can be read before the answers \<open>later\<close>, and no signal interrupts it.\<close>

definition only_data :: "recv_ans list \<Rightarrow> bool" where
  "only_data as \<longleftrightarrow> (\<forall>a \<in> set as. \<exists>bs. a = RData bs \<and> bs \<noteq> [])"

definition before :: "recv_ans list \<Rightarrow> testimony \<Rightarrow> os \<Rightarrow> byte list \<Rightarrow> bool" where
  "before later t w X \<longleftrightarrow>
     buf_ok t \<and> (\<exists>as. answers w = as @ later \<and> only_data as \<and> X = buffered t @ stream as)"

lemma before_start:
  assumes "only_data as" and "buf_ok t" and "buffered t = []" and "answers w = as @ later"
  shows "before later t w (stream as)"
  using assms by (auto simp: before_def)

lemma stream_append: "only_data as \<Longrightarrow> stream (as @ later) = stream as @ stream later"
  by (induction as) (auto simp: only_data_def)

lemma before_end: "before later t w [] \<Longrightarrow> answers w = later \<and> buffered t = []"
proof -
  assume "before later t w []"
  then obtain as where as: "answers w = as @ later" "only_data as" "stream as = []" "buffered t = []"
    by (auto simp: before_def)
  then have "as = []" by (cases as) (auto simp: only_data_def)
  with as show ?thesis by simp
qed

lemma buffered_length: "buf_ok t \<Longrightarrow> length (buffered t) = t_buf_limit t - t_buf_start t"
  by (auto simp: buf_ok_def buffered_def)

lemma recv_fill_before:
  assumes "before later t w X" and "X \<noteq> []"
  shows "\<exists>t' w'. recv_fill t w = (True, t', w') \<and> before later t' w' X \<and> t_buf_start t' < t_buf_limit t' \<and> reads_only t w t' w'"
proof (cases "t_buf_start t < t_buf_limit t")
  case True
  then show ?thesis using assms by (simp add: recv_fill_have)
next
  case False
  obtain as where as: "buf_ok t" "answers w = as @ later" "only_data as" "X = buffered t @ stream as"
    using assms(1) by (auto simp: before_def)
  have "buffered t = []" using False by (simp add: buffered_def)
  with as assms(2) obtain bs as1 where bs: "as = RData bs # as1" "bs \<noteq> []" "only_data as1"
    by (cases as) (auto simp: only_data_def)
  define d where "d = take TESTIMONY_BUF_SIZE bs"
  define as2 where "as2 = (if length bs \<le> TESTIMONY_BUF_SIZE then as1 else RData (drop TESTIMONY_BUF_SIZE bs) # as1)"
  define t' where "t' = t\<lparr>t_buf := d @ drop (length d) (t_buf t), t_buf_start := 0, t_buf_limit := length d\<rparr>"
  have fill: "recv_fill t w = (True, t', w\<lparr>answers := as2 @ later\<rparr>)"
    using recv_fill_data [OF False, of w bs "as1 @ later"] as(2) bs(1,2) by (simp add: d_def as2_def t'_def)
  have d: "d \<noteq> []" "length d \<le> TESTIMONY_BUF_SIZE" "X = d @ stream as2" "only_data as2"
    using bs as(4) \<open>buffered t = []\<close> by (auto simp: d_def as2_def TESTIMONY_BUF_SIZE_def only_data_def)
  have "buffered t' = d" "buf_ok t'" using d(2) as(1) by (simp_all add: buffered_def buf_ok_def t'_def)
  then have "before later t' (w\<lparr>answers := as2 @ later\<rparr>) X" using d(3,4) by (auto simp: before_def)
  moreover have "t_buf_start t' < t_buf_limit t'" using d(1) by (simp add: t'_def)
  moreover have "reads_only t w t' (w\<lparr>answers := as2 @ later\<rparr>)" by (simp add: reads_only_def t'_def)
  ultimately show ?thesis using fill by blast
qed

lemma recv_t_before:
  assumes "before later t w X" and "n \<le> length X"
  shows "\<exists>t' w'. recv_t t w n = (Some (take n X), t', w') \<and> before later t' w' (drop n X) \<and> reads_only t w t' w'"
  using assms
proof (induction n arbitrary: t w X rule: less_induct)
  case (less n)
  show ?case
  proof (cases "n = 0")
    case True
    then show ?thesis using less.prems by (simp add: recv_t.simps)
  next
    case False
    then have "X \<noteq> []" using less.prems(2) by auto
    from recv_fill_before [OF less.prems(1) this] obtain t1 w1 where
      f: "recv_fill t w = (True, t1, w1)" "before later t1 w1 X" "t_buf_start t1 < t_buf_limit t1" "reads_only t w t1 w1"
      by blast
    obtain as where as: "buf_ok t1" "answers w1 = as @ later" "only_data as" "X = buffered t1 @ stream as"
      using f(2) by (auto simp: before_def)
    define m where "m = (if n < t_buf_limit t1 - t_buf_start t1 then n else t_buf_limit t1 - t_buf_start t1)"
    define u where "u = t1\<lparr>t_buf_start := t_buf_start t1 + m\<rparr>"
    define part where "part = take m (drop (t_buf_start t1) (t_buf t1))"
    have m: "0 < m" "m \<le> n" "m \<le> t_buf_limit t1 - t_buf_start t1" using f(3) False by (auto simp: m_def)
    have "part = take m (buffered t1)" "buffered u = drop m (buffered t1)"
      using m(3) by (simp_all add: part_def buffered_def u_def drop_take add.commute diff_diff_left)
    moreover have ml: "m \<le> length (buffered t1)" using m(3) buffered_length [OF as(1)] by simp
    ultimately have part: "part = take m X" "before later u w1 (drop m X)"
      using as by (auto simp: before_def u_def buf_ok_def)
    have less1: "n - m < n" using m by simp
    have less2: "n - m \<le> length (drop m X)" using less.prems(2) by (simp add: diff_le_mono)
    obtain t2 w2 where ih: "recv_t u w1 (n - m) = (Some (take (n - m) (drop m X)), t2, w2)"
      "before later t2 w2 (drop (n - m) (drop m X))" "reads_only u w1 t2 w2"
      using less.IH [OF less1 part(2) less2] by blast
    have "reads_only t1 w1 u w1" by (simp add: reads_only_def u_def)
    then have "reads_only t w t2 w2" using f(4) ih(3) reads_only_trans by blast
    moreover have "recv_t t w n = (Some (take m X @ take (n - m) (drop m X)), t2, w2)"
      using False f(1) ih(1) part(1) by (simp add: recv_t.simps [of t w n] Let_def m_def u_def part_def)
    moreover have "take m X @ take (n - m) (drop m X) = take n X"
      using m(2) by (metis le_add_diff_inverse take_add)
    ultimately show ?thesis using ih(2) m(2) by auto
  qed
qed

lemma recv_be_32_before:
  assumes "before later t w (PutUint32 v @ X)"
  shows "\<exists>t' w'. recv_be_32 t w = (Some v, t', w') \<and> before later t' w' X \<and> reads_only t w t' w'"
proof -
  obtain t' w' where r: "recv_t t w 4 = (Some (PutUint32 v), t', w')" "before later t' w' X" "reads_only t w t' w'"
    using recv_t_before [OF assms, of 4] by auto
  have "foldl (\<lambda>out b. push_bit 8 out + ucast b) 0 (PutUint32 v) = v"
    unfolding PutUint32_def be32_fold by (rule be32_join_split)
  with r show ?thesis by (simp add: recv_be_32_def)
qed

section \<open>Both libraries read the same\<close>

text \<open>C25: the buffered reader of the C library and \<^verbatim>\<open>io.ReadFull\<close> of the Go library are the same reader: when the same bytes are still to be
  read on both sides, however they are cut into deliveries, buffered, or interrupted by signals, then both return the
  same bytes and leave the same bytes to be read, or both fail.\<close>

theorem readers_agree:
  assumes "\<not> uclosed c" and "buf_ok t" and "pending c = unread (t, w)"
  shows "(\<exists>bs c' t' w'. ReadFull c n = (Inr bs, c') \<and> recv_t t w n = (Some bs, t', w') \<and> length bs = n \<and>
            pending c' = unread (t', w') \<and> buf_ok t') \<or>
         (\<exists>e c' t' w'. ReadFull c n = (Inl e, c') \<and> recv_t t w n = (None, t', w'))"
proof (cases "n \<le> length (unread (t, w))")
  case True
  obtain c' where g: "ReadFull c n = (Inr (take n (pending c)), c')" "pending c' = drop n (pending c)"
    using uc.rd_enough [OF assms(1), of n] True assms(3) by auto
  obtain tw where "recv_bytes (t, w) n = (Inr (take n (unread (t, w))), tw)" "unread tw = drop n (unread (t, w))" "buf_ok (fst tw)"
    using cr.rd_enough [of "(t, w)" n] True assms(2) by auto
  then have "recv_t t w n = (Some (take n (unread (t, w))), fst tw, snd tw)"
    by (auto simp: recv_bytes_def split: prod.splits option.splits)
  with g \<open>unread tw = _\<close> \<open>buf_ok (fst tw)\<close> True assms(3) show ?thesis
    by (intro disjI1 exI [of _ "take n (pending c)"] exI [of _ c'] exI [of _ "fst tw"] exI [of _ "snd tw"]) simp
next
  case False
  then show ?thesis using uc.rd_short [OF assms(1), of n] recv_t_short [OF assms(2), of w n] assms(3) by auto
qed

definition demo_reader_c :: "testimony \<times> os" where
  "demo_reader_c =
     (\<lparr>t_fanout_size = 0, t_block_size = 0, t_block_nr = 0, t_fanout_index = 0, t_sock_fd = 3, t_afpacket_fd = 0, t_ring = 0,
       t_errbuf = None, t_block_counts = None, t_buf = 7 # 8 # replicate 254 0, t_buf_start = 1, t_buf_limit = 2\<rparr>,
      \<lparr>answers = [RErr 4, RData [9]], sends = [], polls = [], sent = [], errno = 0\<rparr>)"

theorem readers_agree_witness:
  "\<exists>c' t' w'. ReadFull \<lparr>rchunks = [[8, 9]], rfin = EOF, wbytes = [], wfds = [], wroom = None, uclosed = False\<rparr> 2 = (Inr [8, 9], c') \<and>
     recv_t (fst demo_reader_c) (snd demo_reader_c) 2 = (Some [8, 9], t', w')"
proof -
  let ?c = "\<lparr>rchunks = [[8, 9]], rfin = EOF, wbytes = [], wfds = [], wroom = None, uclosed = False\<rparr>"
  have "\<not> uclosed ?c" "buf_ok (fst demo_reader_c)" "pending ?c = unread (fst demo_reader_c, snd demo_reader_c)"
    by (simp_all add: demo_reader_c_def buf_ok_def unread_def buffered_def pending_def EINTR_def TESTIMONY_BUF_SIZE_def)
  note agree = readers_agree [OF this, of 2]
  have "\<exists>c'. ReadFull ?c 2 = (Inr [8, 9], c')"
    using uc.rd_enough [of ?c 2] by (auto simp: pending_def)
  with agree show ?thesis by auto
qed

end
