(* ===== verification/Cconn.thy ===== *)
theory Cconn
  imports Cio Client
begin

text \<open>
  The C client library's connection (\<^verbatim>\<open>c/testimony.c\<close>): \<^verbatim>\<open>testimony_connect\<close>, \<^verbatim>\<open>testimony_init\<close> and \<^verbatim>\<open>testimony_close\<close>, with the
  answers of the other system calls as parameters.
\<close>

section \<open>The code\<close>

text \<open>A failing call is its \<^verbatim>\<open>errno\<close>.  \<open>v_connect\<close> gives the data that the server will send; \<open>v_ctrl\<close> the control
  messages that come with the byte that \<^verbatim>\<open>recvmsg\<close> reads.\<close>

record cenv =
  v_malloc :: bool
  v_socket :: "int + int"
  v_bind :: "int option"
  v_connect :: "string \<Rightarrow> int + recv_ans list"
  v_ctrl :: "ctrl_msg list"
  v_calloc :: bool
  v_mmap :: "int \<Rightarrow> uintptr \<Rightarrow> int + uintptr"
  v_munmap :: "int option"
  v_close :: "int \<Rightarrow> int option"

datatype ccall = CMunmap uintptr uintptr | CClose int | CFreeCounts | CFreeT

definition TESTIMONY_VERSION :: byte where "TESTIMONY_VERSION = 2"

text \<open>The result, the calls made, and the operating system's state.\<close>

definition testimony_close :: "cenv \<Rightarrow> testimony \<Rightarrow> os \<Rightarrow> int \<times> ccall list \<times> os" where
  "testimony_close env t w =
     (let unmap = [CMunmap (t_ring t) (t_block_nr t * t_block_size t) . t_ring t \<noteq> 0]
      in case (if t_ring t \<noteq> 0 then v_munmap env else None) of
           Some e \<Rightarrow> (- e, unmap, w\<lparr>errno := e\<rparr>)
         | None \<Rightarrow>
             (case v_close env (t_sock_fd t) of
                Some e \<Rightarrow> (- e, unmap @ [CClose (t_sock_fd t)], w\<lparr>errno := e\<rparr>)
              | None \<Rightarrow> (0, unmap @ [CClose (t_sock_fd t), CFreeCounts, CFreeT], w)))"

datatype tlv_out = TlvFail | TlvDone | TlvMore

definition c_set_size :: "u32 \<Rightarrow> u32 \<Rightarrow> testimony \<Rightarrow> testimony" where
  "c_set_size proto_typ msg t =
     (if proto_typ = 32771 then t\<lparr>t_fanout_size := msg\<rparr>
      else if proto_typ = 32772 then t\<lparr>t_block_size := ucast msg\<rparr>
      else if proto_typ = 32773 then t\<lparr>t_block_nr := ucast msg\<rparr>
      else t)"

definition c_tlv_round :: "testimony \<Rightarrow> os \<Rightarrow> tlv_out \<times> testimony \<times> os" where
  "c_tlv_round t w =
     (case recv_be_32 t w of
        (None, t, w) \<Rightarrow> (TlvFail, TERR NoFanoutSize w t, w)
      | (Some msg, t, w) \<Rightarrow>
          (let proto_typ = protocol_type msg; proto_len = protocol_length msg in
           if proto_typ = 32770 \<and> proto_len = 0 then (TlvDone, t, w)
           else if proto_len = 4 then
             (case recv_be_32 t w of
                (None, t, w) \<Rightarrow> (TlvFail, TERR (NoTypeValue proto_typ) w t, w)
              | (Some msg, t, w) \<Rightarrow> (TlvMore, c_set_size proto_typ msg t, w))
           else
             (case discard_bytes t w (unat proto_len) of
                (False, t, w) \<Rightarrow> (TlvFail, TERR (NotDiscarded proto_typ) w t, w)
              | (True, t, w) \<Rightarrow> (TlvMore, t, w))))"

lemma avail_set_size [simp]: "avail (c_set_size typ msg t) w = avail t w"
  by (simp add: c_set_size_def avail_def)

lemma recv_be_32_avail: "recv_be_32 t w = (Some v, t', w') \<Longrightarrow> avail t' w' + 4 = avail t w"
  by (auto simp: recv_be_32_def split: prod.splits option.splits dest!: recv_t_avail)

lemma c_tlv_round_less: "c_tlv_round t w = (TlvMore, t', w') \<Longrightarrow> avail t' w' < avail t w"
  by (auto simp: c_tlv_round_def Let_def split: prod.splits option.splits if_splits bool.splits
      dest!: recv_be_32_avail discard_bytes_avail)

function c_tlv_loop :: "testimony \<Rightarrow> os \<Rightarrow> bool \<times> testimony \<times> os" where
  "c_tlv_loop t w =
     (case c_tlv_round t w of
        (TlvFail, t', w') \<Rightarrow> (False, t', w')
      | (TlvDone, t', w') \<Rightarrow> (True, t', w')
      | (TlvMore, t', w') \<Rightarrow> c_tlv_loop t' w')"
  by pat_completeness auto
termination
  by (relation "measure (\<lambda>(t, w). avail t w)") (auto dest: c_tlv_round_less [OF sym])

declare c_tlv_loop.simps [simp del]

text \<open>From the version byte to the check of the sizes; \<open>False\<close> is the jump to \<^verbatim>\<open>fail\<close>.\<close>

definition c_hello :: "testimony \<Rightarrow> os \<Rightarrow> bool \<times> testimony \<times> os" where
  "c_hello t w =
     (case recv_t t w 1 of
        (None, t, w) \<Rightarrow> (False, TERR VersionRecvFailed w t, w)
      | (Some version, t, w) \<Rightarrow>
          if hd version \<noteq> TESTIMONY_VERSION
          then (False, TERR_SET EPROTONOSUPPORT (BadVersion (hd version)) w t)
          else
            (case c_tlv_loop t w of
               (False, t, w) \<Rightarrow> (False, t, w)
             | (True, t, w) \<Rightarrow>
                 if t_fanout_size t = 0 \<or> t_block_size t = 0 \<or> t_block_nr t = 0
                 then (False, TERR_SET EINVAL MissingSizes_c w t)
                 else (True, t, w)))"

definition zero_testimony :: testimony where
  "zero_testimony =
     \<lparr>t_fanout_size = 0, t_block_size = 0, t_block_nr = 0, t_fanout_index = 0, t_sock_fd = 0, t_afpacket_fd = 0, t_ring = 0,
      t_errbuf = None, t_block_counts = None, t_buf = replicate TESTIMONY_BUF_SIZE 0, t_buf_start = 0, t_buf_limit = 0\<rparr>"

definition c_fail :: "cenv \<Rightarrow> testimony \<times> os \<Rightarrow> int \<times> testimony option \<times> ccall list \<times> os" where
  "c_fail env c =
     (case c of
        (t, w) \<Rightarrow>
          (case testimony_close env t w of
             (r, calls, w') \<Rightarrow> (- errno w, None, calls, w')))"

text \<open>\<^verbatim>\<open>sun_path\<close> has room for 107 characters and the terminating zero.\<close>

definition testimony_connect :: "cenv \<Rightarrow> string \<Rightarrow> os \<Rightarrow> int \<times> testimony option \<times> ccall list \<times> os" where
  "testimony_connect env socket_name w =
     (if \<not> v_malloc env then (- ENOMEM, None, [], w)
      else
        (let path = take 107 socket_name; t = zero_testimony in
         case v_socket env of
           Inl e \<Rightarrow> (let t = t\<lparr>t_sock_fd := -1\<rparr>; w = w\<lparr>errno := e\<rparr> in c_fail env (TERR SocketFailed w t, w))
         | Inr fd \<Rightarrow>
             (let t = t\<lparr>t_sock_fd := fd\<rparr> in
              case v_bind env of
                Some e \<Rightarrow> (let w = w\<lparr>errno := e\<rparr> in c_fail env (TERR BindFailed w t, w))
              | None \<Rightarrow>
                  (case v_connect env path of
                     Inl e \<Rightarrow> (let w = w\<lparr>errno := e\<rparr> in c_fail env (TERR (ConnectFailed path) w t, w))
                   | Inr as \<Rightarrow>
                       (case c_hello t (w\<lparr>answers := as\<rparr>) of
                          (False, t, w) \<Rightarrow> c_fail env (t, w)
                        | (True, t, w) \<Rightarrow> (0, Some t, [], w))))))"

text \<open>\<^verbatim>\<open>recvmsg\<close> of one byte, past the library's buffer; the first message with rights counts.  A negative result is a
  failure.\<close>

fun first_rights :: "ctrl_msg list \<Rightarrow> int option" where
  "first_rights [] = None"
| "first_rights (Rights [] # ms) = Some 0"
| "first_rights (Rights (fd # fds) # ms) = Some fd"
| "first_rights (OtherCtrl # ms) = first_rights ms"

definition recv_file_descriptor :: "cenv \<Rightarrow> os \<Rightarrow> int \<times> os" where
  "recv_file_descriptor env w =
     (case recv w 1 of
        (None, w) \<Rightarrow> (-1, w)
      | (Some bs, w) \<Rightarrow>
          if length bs \<noteq> 1 then (-1, w)
          else (case first_rights (v_ctrl env) of
                  Some fd \<Rightarrow> (fd, w)
                | None \<Rightarrow> (-1, w\<lparr>errno := EIO\<rparr>)))"

definition testimony_init :: "cenv \<Rightarrow> testimony \<Rightarrow> os \<Rightarrow> int \<times> testimony \<times> os" where
  "testimony_init env t w =
     (if t_ring t \<noteq> 0 then (case TERR_SET EINVAL AlreadyInitiated w t of (t, w) \<Rightarrow> (- errno w, t, w))
      else
        (case send w (set_be_32 (push_bit 16 49159 + 4)) of
           (None, w) \<Rightarrow> (- errno w, TERR SendIndexType w t, w)
         | (Some r, w) \<Rightarrow>
             (case send w (set_be_32 (t_fanout_index t)) of
                (None, w) \<Rightarrow> (- errno w, TERR SendIndex w t, w)
              | (Some r, w) \<Rightarrow>
                  (case recv_file_descriptor env w of
                     (fd, w) \<Rightarrow>
                       (let t = t\<lparr>t_afpacket_fd := fd\<rparr> in
                        if fd < 0 then (- errno w, TERR RecvFdFailed w t, w)
                        else
                          (let t = t\<lparr>t_block_counts :=
                                       if v_calloc env then Some (replicate (unat (t_block_nr t)) 0) else None\<rparr>
                           in case v_mmap env fd (t_block_size t * t_block_nr t) of
                                Inl e \<Rightarrow> (let w = w\<lparr>errno := e\<rparr> in (- errno w, TERR RingMapFailed w t, w))
                              | Inr ring \<Rightarrow> (0, t\<lparr>t_ring := ring\<rparr>, w)))))))"

section \<open>The greeting\<close>

lemma before_fields:
  "before later (t\<lparr>t_fanout_size := a\<rparr>) w X = before later t w X"
  "before later (t\<lparr>t_block_size := n\<rparr>) w X = before later t w X"
  "before later (t\<lparr>t_block_nr := n\<rparr>) w X = before later t w X"
  by (simp_all add: before_def buf_ok_def buffered_def)

lemma before_set_size [simp]: "before later (c_set_size typ v t) w X = before later t w X"
  by (simp add: c_set_size_def before_fields)

text \<open>What the greeting may change: what reading changes, and the three sizes.\<close>

definition greets_only :: "testimony \<Rightarrow> os \<Rightarrow> testimony \<Rightarrow> os \<Rightarrow> bool" where
  "greets_only t w t' w' \<longleftrightarrow>
     t_fanout_index t' = t_fanout_index t \<and> t_sock_fd t' = t_sock_fd t \<and> t_afpacket_fd t' = t_afpacket_fd t \<and>
     t_ring t' = t_ring t \<and> t_block_counts t' = t_block_counts t \<and> sends w' = sends w \<and> polls w' = polls w \<and> sent w' = sent w"

lemma reads_greets: "reads_only t w t' w' \<Longrightarrow> greets_only t w t' w'"
  by (drule reads_only_fields) (simp add: greets_only_def)

lemma greets_trans [trans]: "greets_only t w t' w' \<Longrightarrow> greets_only t' w' t'' w'' \<Longrightarrow> greets_only t w t'' w''"
  by (simp add: greets_only_def)

lemma greets_set_size: "greets_only t w (c_set_size typ v t) w"
  by (simp add: greets_only_def c_set_size_def)

definition c_sizes :: "testimony \<Rightarrow> u32 \<times> uintptr \<times> uintptr" where
  "c_sizes t = (t_fanout_size t, t_block_size t, t_block_nr t)"

lemma protocol_header:
  assumes "0x8000 \<le> unat typ" and "0 \<le> len" and "len \<le> 0xFFFF"
  shows "protocol_type (ToTL typ len) = ucast typ" "uint (protocol_length (ToTL typ len)) = len"
  using TLFrom_ToTL [OF assms] by (simp_all add: protocol_type_length)

lemma c_tlv_loop_size:
  assumes "before later t w (PutUint32 (ToTL typ 4) @ PutUint32 v @ X)" and "0x8000 \<le> unat typ"
  shows "\<exists>t' w'. c_tlv_loop t w = c_tlv_loop (c_set_size (ucast typ) v t') w' \<and> before later t' w' X \<and> reads_only t w t' w'"
proof -
  obtain t1 w1 where r1: "recv_be_32 t w = (Some (ToTL typ 4), t1, w1)" "before later t1 w1 (PutUint32 v @ X)" "reads_only t w t1 w1"
    using recv_be_32_before [OF assms(1)] by blast
  obtain t2 w2 where r2: "recv_be_32 t1 w1 = (Some v, t2, w2)" "before later t2 w2 X" "reads_only t1 w1 t2 w2"
    using recv_be_32_before [OF r1(2)] by blast
  have len: "protocol_length (ToTL typ 4) = 4"
    using protocol_header(2) [OF assms(2), of 4] by (simp add: word_uint_eq_iff)
  have "c_tlv_loop t w = c_tlv_loop (c_set_size (ucast typ) v t2) w2"
    using r1(1) r2(1) len protocol_header(1) [OF assms(2), of 4]
    by (simp add: c_tlv_loop.simps [of t w] c_tlv_round_def)
  then show ?thesis using r2(2) reads_only_trans [OF r1(3) r2(3)] by blast
qed

lemma c_tlv_loop_done:
  assumes "before later t w (PutUint32 (ToTL TypeWaitingForFanoutIndex 0) @ X)"
  shows "\<exists>t' w'. c_tlv_loop t w = (True, t', w') \<and> before later t' w' X \<and> reads_only t w t' w'"
proof -
  obtain t1 w1 where r1: "recv_be_32 t w = (Some (ToTL TypeWaitingForFanoutIndex 0), t1, w1)" "before later t1 w1 X" "reads_only t w t1 w1"
    using recv_be_32_before [OF assms] by blast
  have "protocol_length (ToTL TypeWaitingForFanoutIndex 0) = 0" "protocol_type (ToTL TypeWaitingForFanoutIndex 0) = 32770"
    using protocol_header [of TypeWaitingForFanoutIndex 0] by (simp_all add: type_consts word_uint_eq_iff)
  then show ?thesis using r1 by (simp add: c_tlv_loop.simps [of t w] c_tlv_round_def)
qed

lemma set_sizes:
  "c_sizes (c_set_size 32771 v t) = (v, snd (c_sizes t))"
  "c_sizes (c_set_size 32772 v t) = (fst (c_sizes t), ucast v, snd (snd (c_sizes t)))"
  "c_sizes (c_set_size 32773 v t) = (fst (c_sizes t), fst (snd (c_sizes t)), ucast v)"
  by (simp_all add: c_sizes_def c_set_size_def)

lemma reads_sizes: "reads_only t w t' w' \<Longrightarrow> c_sizes t' = c_sizes t"
  by (drule reads_only_fields) (simp add: c_sizes_def)

lemma c_hello_ok:
  assumes "before later t w
      ([2] @ PutUint32 (ToTL TypeFanoutSize 4) @ PutUint32 a @ PutUint32 (ToTL TypeBlockSize 4) @ PutUint32 b @
       PutUint32 (ToTL TypeNumBlocks 4) @ PutUint32 n @ PutUint32 (ToTL TypeWaitingForFanoutIndex 0) @ X)"
    and "a \<noteq> 0" and "b \<noteq> 0" and "n \<noteq> 0"
  shows "\<exists>t' w'. c_hello t w = (True, t', w') \<and> before later t' w' X \<and> greets_only t w t' w' \<and>
           c_sizes t' = (a, ucast b, ucast n)"
proof -
  have typs: "0x8000 \<le> unat TypeFanoutSize" "0x8000 \<le> unat TypeBlockSize" "0x8000 \<le> unat TypeNumBlocks"
    "(ucast TypeFanoutSize :: u32) = 32771" "(ucast TypeBlockSize :: u32) = 32772" "(ucast TypeNumBlocks :: u32) = 32773"
    by (simp_all add: type_consts)
  obtain t0 w0 where r0: "recv_t t w 1 = (Some [2], t0, w0)"
    "before later t0 w0 (PutUint32 (ToTL TypeFanoutSize 4) @ PutUint32 a @ PutUint32 (ToTL TypeBlockSize 4) @ PutUint32 b @
       PutUint32 (ToTL TypeNumBlocks 4) @ PutUint32 n @ PutUint32 (ToTL TypeWaitingForFanoutIndex 0) @ X)" "reads_only t w t0 w0"
    using recv_t_before [OF assms(1), of 1] by auto
  obtain t1 w1 where r1: "c_tlv_loop t0 w0 = c_tlv_loop (c_set_size 32771 a t1) w1"
    "before later (c_set_size 32771 a t1) w1 (PutUint32 (ToTL TypeBlockSize 4) @ PutUint32 b @
       PutUint32 (ToTL TypeNumBlocks 4) @ PutUint32 n @ PutUint32 (ToTL TypeWaitingForFanoutIndex 0) @ X)" "reads_only t0 w0 t1 w1"
    using c_tlv_loop_size [OF r0(2) typs(1)] typs(4) by auto
  obtain t2 w2 where r2: "c_tlv_loop (c_set_size 32771 a t1) w1 = c_tlv_loop (c_set_size 32772 b t2) w2"
    "before later (c_set_size 32772 b t2) w2
      (PutUint32 (ToTL TypeNumBlocks 4) @ PutUint32 n @ PutUint32 (ToTL TypeWaitingForFanoutIndex 0) @ X)"
    "reads_only (c_set_size 32771 a t1) w1 t2 w2"
    using c_tlv_loop_size [OF r1(2) typs(2)] typs(5) by auto
  obtain t3 w3 where r3: "c_tlv_loop (c_set_size 32772 b t2) w2 = c_tlv_loop (c_set_size 32773 n t3) w3"
    "before later (c_set_size 32773 n t3) w3 (PutUint32 (ToTL TypeWaitingForFanoutIndex 0) @ X)"
    "reads_only (c_set_size 32772 b t2) w2 t3 w3"
    using c_tlv_loop_size [OF r2(2) typs(3)] typs(6) by auto
  obtain t4 w4 where r4: "c_tlv_loop (c_set_size 32773 n t3) w3 = (True, t4, w4)" "before later t4 w4 X"
    "reads_only (c_set_size 32773 n t3) w3 t4 w4"
    using c_tlv_loop_done [OF r3(2)] by blast
  have sz: "c_sizes t4 = (a, ucast b, ucast n)"
    using reads_sizes [OF r2(3)] reads_sizes [OF r3(3)] reads_sizes [OF r4(3)] by (simp add: set_sizes)
  have "greets_only t w t4 w4"
    using reads_greets [OF r0(3)] reads_greets [OF r1(3)] reads_greets [OF r2(3)] reads_greets [OF r3(3)] reads_greets [OF r4(3)]
      greets_set_size greets_trans by meson
  moreover have "(ucast b :: uintptr) \<noteq> 0" "(ucast n :: uintptr) \<noteq> 0"
    using assms(3,4) by simp_all
  then have "c_hello t w = (True, t4, w4)"
    using r0(1) r1(1) r2(1) r3(1) r4(1) sz assms(2)
    by (simp add: c_hello_def TESTIMONY_VERSION_def c_sizes_def)
  ultimately show ?thesis using r4(2) sz by blast
qed

lemma zero_testimony_ok: "buf_ok (zero_testimony\<lparr>t_sock_fd := fd\<rparr>)" "buffered (zero_testimony\<lparr>t_sock_fd := fd\<rparr>) = []"
  by (simp_all add: buf_ok_def buffered_def zero_testimony_def)

section \<open>The outcome of testimony\_connect\<close>

lemma c_tlv_loop_errs: "c_tlv_loop t w = (r, t', w') \<Longrightarrow> errs_ok w \<Longrightarrow> errs_ok w' \<and> (r \<or> 0 < errno w')"
proof (induction t w rule: c_tlv_loop.induct)
  case (1 t w)
  obtain q t1 w1 where q: "c_tlv_round t w = (q, t1, w1)" by (cases "c_tlv_round t w")
  have e1: "errs_ok w1 \<and> (q \<noteq> TlvFail \<or> 0 < errno w1)"
    using q "1.prems"(2)
    by (auto simp: c_tlv_round_def Let_def split: prod.splits option.splits if_splits bool.splits
        dest!: recv_be_32_errs discard_bytes_errs)
  show ?case
    using "1.prems"(1) "1.IH" q e1 by (cases q) (auto simp: c_tlv_loop.simps [of t w])
qed

lemma c_hello_errs:
  assumes "c_hello t w = (r, t', w')" and "errs_ok w"
  shows "r \<and> t_fanout_size t' \<noteq> 0 \<and> t_block_size t' \<noteq> 0 \<and> t_block_nr t' \<noteq> 0 \<or> \<not> r \<and> 0 < errno w'"
  using assms
  by (auto simp: c_hello_def TERR_SET_def Let_def errno_defs split: prod.splits option.splits if_splits bool.splits
      dest!: recv_t_errs c_tlv_loop_errs)

text \<open>What the parameters promise: error numbers are positive, and a successful mapping is not at address 0.\<close>

definition cenv_ok :: "cenv \<Rightarrow> bool" where
  "cenv_ok env \<longleftrightarrow>
     (\<forall>e. v_socket env = Inl e \<longrightarrow> 0 < e) \<and> (\<forall>e. v_bind env = Some e \<longrightarrow> 0 < e) \<and>
     (\<forall>p e. v_connect env p = Inl e \<longrightarrow> 0 < e) \<and> (\<forall>p as e. v_connect env p = Inr as \<longrightarrow> RErr e \<in> set as \<longrightarrow> 0 < e) \<and>
     (\<forall>fd n e. v_mmap env fd n = Inl e \<longrightarrow> 0 < e) \<and> (\<forall>fd n. v_mmap env fd n \<noteq> Inr 0)"

lemma c_fail_result: "c_fail env (t, w) = (r, tp, calls, w') \<Longrightarrow> r = - errno w \<and> tp = None \<and> (\<exists>q. testimony_close env t w = (q, calls, w'))"
  by (auto simp: c_fail_def split: prod.splits)

lemma close_fresh:
  assumes "t_ring t = 0" and "v_close env (t_sock_fd t) = None"
  shows "testimony_close env t w = (0, [CClose (t_sock_fd t), CFreeCounts, CFreeT], w)"
  using assms by (simp add: testimony_close_def)

lemma TERR_fields [simp]: "t_ring (TERR m w t) = t_ring t" "t_sock_fd (TERR m w t) = t_sock_fd t" "t_block_counts (TERR m w t) = t_block_counts t"
  by (simp_all add: TERR_def)

lemma c_tlv_loop_keeps: "c_tlv_loop t w = (r, t', w') \<Longrightarrow> t_ring t' = t_ring t \<and> t_sock_fd t' = t_sock_fd t"
proof (induction t w rule: c_tlv_loop.induct)
  case (1 t w)
  obtain q t1 w1 where q: "c_tlv_round t w = (q, t1, w1)" by (cases "c_tlv_round t w")
  have be: "t_ring b = t_ring a \<and> t_sock_fd b = t_sock_fd a" if "recv_be_32 a v = (z, b, x)" for a v z b x
    using that by (auto simp: recv_be_32_def split: prod.splits option.splits dest!: recv_t_frame reads_only_fields)
  have ds: "t_ring b = t_ring a \<and> t_sock_fd b = t_sock_fd a" if "discard_bytes a v n = (z, b, x)" for a v n z b x
    using discard_bytes_frame [OF that] reads_only_fields by blast
  have "t_ring t1 = t_ring t \<and> t_sock_fd t1 = t_sock_fd t"
    using q
    by (auto simp: c_tlv_round_def c_set_size_def Let_def split: prod.splits option.splits if_splits bool.splits dest!: be ds)
  then show ?case
    using "1.prems"(1) "1.IH" q by (cases q) (auto simp: c_tlv_loop.simps [of t w])
qed

lemma c_hello_keeps:
  assumes "c_hello t w = (r, t', w')"
  shows "t_ring t' = t_ring t \<and> t_sock_fd t' = t_sock_fd t"
  using assms
  by (auto simp: c_hello_def TERR_SET_def Let_def split: prod.splits option.splits if_splits bool.splits
      dest!: recv_t_frame reads_only_fields c_tlv_loop_keeps)


text \<open>Connecting to a server that sends its greeting and then waits: the greeting is consumed and nothing after it.\<close>

lemma testimony_connect_hello:
  assumes "v_malloc env" and "v_socket env = Inr fd" and "v_bind env = None" and "v_connect env (take 107 name) = Inr (as @ later)"
    and "only_data as" and "stream as =
      [2] @ PutUint32 (ToTL TypeFanoutSize 4) @ PutUint32 a @ PutUint32 (ToTL TypeBlockSize 4) @ PutUint32 b @
      PutUint32 (ToTL TypeNumBlocks 4) @ PutUint32 n @ PutUint32 (ToTL TypeWaitingForFanoutIndex 0)"
    and "a \<noteq> 0" and "b \<noteq> 0" and "n \<noteq> 0"
  shows "\<exists>t w'. testimony_connect env name w = (0, Some t, [], w') \<and> answers w' = later \<and> buffered t = [] \<and> buf_ok t \<and>
           c_sizes t = (a, ucast b, ucast n) \<and> t_ring t = 0 \<and> t_sock_fd t = fd \<and>
           sends w' = sends w \<and> polls w' = polls w \<and> sent w' = sent w"
proof -
  let ?t = "zero_testimony\<lparr>t_sock_fd := fd\<rparr>" and ?w = "w\<lparr>answers := as @ later\<rparr>"
  have "before later ?t ?w (stream as)"
    using before_start [OF assms(5) zero_testimony_ok(1,2)] by simp
  then have "before later ?t ?w
      ([2] @ PutUint32 (ToTL TypeFanoutSize 4) @ PutUint32 a @ PutUint32 (ToTL TypeBlockSize 4) @ PutUint32 b @
       PutUint32 (ToTL TypeNumBlocks 4) @ PutUint32 n @ PutUint32 (ToTL TypeWaitingForFanoutIndex 0) @ [])"
    using assms(6) by simp
  from c_hello_ok [OF this assms(7-9)] obtain t w' where
    h: "c_hello ?t ?w = (True, t, w')" "before later t w' []" "greets_only ?t ?w t w'" "c_sizes t = (a, ucast b, ucast n)"
    by blast
  have "testimony_connect env name w = (0, Some t, [], w')"
    using assms(1-4) h(1) by (simp add: testimony_connect_def Let_def)
  moreover have "t_ring t = 0 \<and> t_sock_fd t = fd \<and> sends w' = sends w \<and> polls w' = polls w \<and> sent w' = sent w"
    using h(3) by (simp add: greets_only_def zero_testimony_def)
  moreover have "buf_ok t" using h(2) by (simp add: before_def)
  ultimately show ?thesis using before_end [OF h(2)] h(4) by blast
qed

definition demo_greeting :: "recv_ans list" where
  "demo_greeting =
     [RData [2],
      RData (PutUint32 (ToTL TypeFanoutSize 4) @ PutUint32 2 @ PutUint32 (ToTL TypeBlockSize 4) @ PutUint32 4096 @
        PutUint32 (ToTL TypeNumBlocks 4) @ PutUint32 4),
      RData (PutUint32 (ToTL TypeWaitingForFanoutIndex 0))]"

definition demo_cenv :: "recv_ans list \<Rightarrow> cenv" where
  "demo_cenv as =
     \<lparr>v_malloc = True, v_socket = Inr 3, v_bind = None, v_connect = (\<lambda>p. Inr as), v_ctrl = [Rights [9]], v_calloc = True,
      v_mmap = (\<lambda>fd n. Inr 0x10000), v_munmap = None, v_close = (\<lambda>fd. None)\<rparr>"

definition demo_os :: os where
  "demo_os = \<lparr>answers = [], sends = [], polls = [], sent = [], errno = 0\<rparr>"

lemma demo_greeting_ok:
  "only_data demo_greeting" "stream demo_greeting =
      [2] @ PutUint32 (ToTL TypeFanoutSize 4) @ PutUint32 2 @ PutUint32 (ToTL TypeBlockSize 4) @ PutUint32 4096 @
      PutUint32 (ToTL TypeNumBlocks 4) @ PutUint32 4 @ PutUint32 (ToTL TypeWaitingForFanoutIndex 0)"
  by (simp_all add: demo_greeting_def only_data_def)

lemma demo_cenv_ok: "(\<forall>e. RErr e \<in> set as \<longrightarrow> 0 < e) \<Longrightarrow> cenv_ok (demo_cenv as)" "errs_ok demo_os"
  by (auto simp: cenv_ok_def errs_ok_def demo_cenv_def demo_os_def)


section \<open>testimony\_init and testimony\_close\<close>

lemma testimony_init_ok:
  assumes "t_ring t = 0" and "sends w = []" and "answers w = RData (z # bs) # as" and "first_rights (v_ctrl env) = Some fd"
    and "0 \<le> fd" and "v_calloc env" and "v_mmap env fd (t_block_size t * t_block_nr t) = Inr ring"
  shows "testimony_init env t w =
    (0, t\<lparr>t_afpacket_fd := fd, t_block_counts := Some (replicate (unat (t_block_nr t)) 0), t_ring := ring\<rparr>,
     w\<lparr>sent := sent w @ PutUint32 (ToTL TypeFanoutIndex 4) @ PutUint32 (t_fanout_index t),
       answers := if bs = [] then as else RData bs # as\<rparr>)"
  using assms
  by (simp add: testimony_init_def send_def set_be_32_eq ToTL_def TypeFanoutIndex_def recv_file_descriptor_def recv_def Let_def)

text \<open>C28: a client that asks for an index that the daemon does not have is disconnected, and \<^verbatim>\<open>testimony_init\<close> then returns the
  negated \<^verbatim>\<open>errno\<close> of some earlier call, which is 0, success, when no call has failed before; the handle has no ring.
  (The byte count 0 of \<^verbatim>\<open>recvmsg\<close> is treated as an error without setting \<^verbatim>\<open>errno\<close>.)\<close>

theorem testimony_init_silent_failure:
  assumes "t_ring t = 0" and "sends w = []" and "answers w = []" and "errno w = 0"
  shows "\<exists>t' w'. testimony_init env t w = (0, t', w') \<and> t_ring t' = 0 \<and> t_afpacket_fd t' = -1"
  using assms
  by (simp add: testimony_init_def send_def recv_file_descriptor_def recv_def TERR_def Let_def)

theorem testimony_init_silent_failure_witness:
  "\<exists>t' w'. testimony_init (demo_cenv []) zero_testimony demo_os = (0, t', w') \<and> t_ring t' = 0"
proof -
  have "t_ring zero_testimony = 0" "sends demo_os = []" "answers demo_os = []" "errno demo_os = 0"
    by (simp_all add: zero_testimony_def demo_os_def)
  from testimony_init_silent_failure [OF this, of "demo_cenv []"] show ?thesis by blast
qed

text \<open>\<^verbatim>\<open>testimony_close\<close> never closes the descriptor of the packet socket, which \<^verbatim>\<open>testimony_init\<close> received.\<close>

lemma testimony_close_keeps_packet_fd:
  "testimony_close env t w = (r, calls, w') \<Longrightarrow> t_afpacket_fd t \<noteq> t_sock_fd t \<Longrightarrow> CClose (t_afpacket_fd t) \<notin> set calls"
  by (auto simp: testimony_close_def Let_def split: option.splits if_splits)

lemma testimony_close_order:
  assumes "v_munmap env = None" and "v_close env (t_sock_fd t) = None" and "t_ring t \<noteq> 0"
  shows "testimony_close env t w =
    (0, [CMunmap (t_ring t) (t_block_nr t * t_block_size t), CClose (t_sock_fd t), CFreeCounts, CFreeT], w)"
  using assms by (simp add: testimony_close_def)

text \<open>When no socket can be created, the clean-up stops at closing the descriptor -1 and does not free the handle.\<close>

lemma connect_without_socket_leaks:
  assumes "v_malloc env" and "v_socket env = Inl e" and "v_close env (-1) = Some e'"
  shows "\<exists>w'. testimony_connect env name w = (- e, None, [CClose (-1)], w')"
  using assms by (simp add: testimony_connect_def c_fail_def testimony_close_def zero_testimony_def)

end
