(* ===== verification/Cblocks.thy ===== *)
theory Cblocks
  imports Cconn
begin

text \<open>
  Blocks in the C client library (\<^verbatim>\<open>c/testimony.c\<close>): \<^verbatim>\<open>testimony_get_block\<close>, \<^verbatim>\<open>testimony_return_block\<close> and \<^verbatim>\<open>testimony_return_packets\<close>
  with the packet counters.  \<open>npk\<close> reads the field \<^verbatim>\<open>num_pkts\<close> of the block header at an address.  The atomic builtins are those of a
  compiler that has them; each is one step.  \<open>None\<close> is a division by zero, or an access through a NULL pointer or past the counters.
\<close>

section \<open>The code\<close>

datatype poll_out = PollFail | PollAgain | PollTimedOut | PollGo

definition poll_step :: "int \<Rightarrow> testimony \<Rightarrow> os \<Rightarrow> poll_out \<times> os" where
  "poll_step timeout_millis t w =
     (if timeout_millis \<ge> 0 \<and> t_buf_start t = t_buf_limit t then
        (case polls w of
           [] \<Rightarrow> (PollGo, w)
         | PReady # ps \<Rightarrow> (PollGo, w\<lparr>polls := ps\<rparr>)
         | PTimeout # ps \<Rightarrow> (PollTimedOut, w\<lparr>polls := ps\<rparr>)
         | PErr e # ps \<Rightarrow> (if e = EINTR then PollAgain else PollFail, w\<lparr>polls := ps, errno := e\<rparr>))
      else (PollGo, w))"

datatype idx_round = RoundFail | RoundTimeout | RoundMore | RoundIdx u32
datatype idx_out = IdxFail | IdxTimeout | Idx u32

definition c_index_round :: "int \<Rightarrow> testimony \<Rightarrow> os \<Rightarrow> idx_round \<times> testimony \<times> os" where
  "c_index_round timeout_millis t w =
     (case poll_step timeout_millis t w of
        (PollFail, w) \<Rightarrow> (RoundFail, TERR PollFailed w t, w)
      | (PollAgain, w) \<Rightarrow> (RoundMore, t, w)
      | (PollTimedOut, w) \<Rightarrow> (RoundTimeout, t, w)
      | (PollGo, w) \<Rightarrow>
          (case recv_be_32 t w of
             (None, t, w) \<Rightarrow> (RoundFail, TERR RecvIndexFailed w t, w)
           | (Some blockidx, t, w) \<Rightarrow>
               if protocol_type blockidx = 0 then (RoundIdx blockidx, t, w)
               else
                 (case discard_bytes t w (unat (protocol_length blockidx)) of
                    (False, t, w) \<Rightarrow> (RoundFail, TERR RecvIndexFailed w t, w)
                  | (True, t, w) \<Rightarrow> (RoundMore, t, w))))"

lemma recv_be_32_frame: "recv_be_32 t w = (r, t', w') \<Longrightarrow> reads_only t w t' w'"
  by (auto simp: recv_be_32_def split: prod.splits option.splits dest!: recv_t_frame)

lemma recv_be_32_polls: "recv_be_32 t w = (r, t', w') \<Longrightarrow> polls w' = polls w"
  using recv_be_32_frame reads_only_fields by blast

lemma discard_bytes_polls: "discard_bytes t w n = (r, t', w') \<Longrightarrow> polls w' = polls w"
  using discard_bytes_frame reads_only_fields by blast

lemma poll_step_work:
  assumes "poll_step m t w = (r, w')"
  shows "avail t w' = avail t w \<and> length (polls w') \<le> length (polls w) \<and> (r = PollAgain \<longrightarrow> length (polls w') < length (polls w))"
  using assms by (auto simp: poll_step_def avail_def split: if_splits list.splits poll_ans.splits)

lemma c_index_round_less:
  assumes "c_index_round m t w = (RoundMore, t', w')"
  shows "avail t' w' + length (polls w') < avail t w + length (polls w)"
proof -
  obtain p w1 where p: "poll_step m t w = (p, w1)" by force
  note pw = poll_step_work [OF p]
  show ?thesis
  proof (cases p)
    case PollGo
    then obtain v t2 w2 where r: "recv_be_32 t w1 = (Some v, t2, w2)"
      "discard_bytes t2 w2 (unat (protocol_length v)) = (True, t', w')"
      using assms p by (auto simp: c_index_round_def split: prod.splits option.splits if_splits bool.splits)
    then show ?thesis
      using pw recv_be_32_avail [OF r(1)] discard_bytes_avail [OF r(2)] recv_be_32_polls [OF r(1)] discard_bytes_polls [OF r(2)]
      by simp
  qed (use assms p pw in \<open>auto simp: c_index_round_def\<close>)
qed

function c_index_loop :: "int \<Rightarrow> testimony \<Rightarrow> os \<Rightarrow> idx_out \<times> testimony \<times> os" where
  "c_index_loop m t w =
     (case c_index_round m t w of
        (RoundFail, t', w') \<Rightarrow> (IdxFail, t', w')
      | (RoundTimeout, t', w') \<Rightarrow> (IdxTimeout, t', w')
      | (RoundIdx i, t', w') \<Rightarrow> (Idx i, t', w')
      | (RoundMore, t', w') \<Rightarrow> c_index_loop m t' w')"
  by pat_completeness auto
termination
  by (relation "measure (\<lambda>(m, t, w). avail t w + length (polls w))") (auto dest: c_index_round_less [OF sym])

declare c_index_loop.simps [simp del]

text \<open>The counters, when the access to number \<open>i\<close> is inside their memory.\<close>

definition counts_for :: "testimony \<Rightarrow> u32 \<Rightarrow> u32 list option" where
  "counts_for t i =
     (case t_block_counts t of
        None \<Rightarrow> None
      | Some counts \<Rightarrow> if unat i < length counts then Some counts else None)"

text \<open>The result, the block's address (0 is NULL), and the state.\<close>

definition testimony_get_block :: "(uintptr \<Rightarrow> u32) \<Rightarrow> int \<Rightarrow> testimony \<Rightarrow> os \<Rightarrow> (int \<times> uintptr \<times> testimony \<times> os) option" where
  "testimony_get_block npk timeout_millis t w =
     (if t_sock_fd t = 0 \<or> t_ring t = 0
      then (case TERR_SET EINVAL NotInitiated w t of (t, w) \<Rightarrow> Some (- errno w, 0, t, w))
      else
        (case c_index_loop timeout_millis t w of
           (IdxFail, t, w) \<Rightarrow> Some (- errno w, 0, t, w)
         | (IdxTimeout, t, w) \<Rightarrow> Some (0, 0, t, w)
         | (Idx blockidx, t, w) \<Rightarrow>
             if ucast blockidx \<ge> t_block_nr t
             then (case TERR_SET EIO (BadIndex blockidx (t_block_nr t)) w t of (t, w) \<Rightarrow> Some (- errno w, 0, t, w))
             else
               (let block = t_ring t + t_block_size t * ucast blockidx in
                case counts_for t blockidx of
                  None \<Rightarrow> None
                | Some counts \<Rightarrow>
                    (let old_count = counts ! unat blockidx in
                     if old_count \<noteq> 0
                     then (case TERR_SET EIO (CountNotZero blockidx old_count) w t of (t, w) \<Rightarrow> Some (- errno w, block, t, w))
                     else Some (0, block, t\<lparr>t_block_counts := Some (counts[unat blockidx := npk block])\<rparr>, w)))))"

definition kInvalidBlockIndex :: u32 where "kInvalidBlockIndex = 0xFFFFFFFF"

definition testimony_block_index :: "testimony \<Rightarrow> uintptr \<Rightarrow> u32 option" where
  "testimony_block_index t block =
     (if t_block_size t = 0 then None
      else
        (let blockptr = (block - t_ring t) div t_block_size t in
         Some (if blockptr \<ge> t_block_nr t then kInvalidBlockIndex else ucast blockptr)))"

definition testimony_return_block :: "(uintptr \<Rightarrow> u32) \<Rightarrow> testimony \<Rightarrow> uintptr \<Rightarrow> os \<Rightarrow> (int \<times> testimony \<times> os) option" where
  "testimony_return_block npk t block w =
     (case testimony_block_index t block of
        None \<Rightarrow> None
      | Some blockidx \<Rightarrow>
          if blockidx = kInvalidBlockIndex
          then (case TERR_SET EINVAL NotOurBlock w t of (t, w) \<Rightarrow> Some (- errno w, t, w))
          else
            (case counts_for t blockidx of
               None \<Rightarrow> None
             | Some counts \<Rightarrow>
                 (let old_count = counts ! unat blockidx;
                      t = t\<lparr>t_block_counts := Some (counts[unat blockidx := 0])\<rparr>
                  in if old_count \<noteq> 0 \<and> old_count \<noteq> npk block
                     then (case TERR_SET EINVAL CountInvalid w t of (t, w) \<Rightarrow> Some (- errno w, t, w))
                     else
                       (case send_be_32 w blockidx of
                          (False, w) \<Rightarrow> Some (- errno w, TERR SendBlockFailed w t, w)
                        | (True, w) \<Rightarrow> Some (0, t, w)))))"

definition testimony_return_packets ::
    "(uintptr \<Rightarrow> u32) \<Rightarrow> testimony \<Rightarrow> uintptr \<Rightarrow> u32 \<Rightarrow> os \<Rightarrow> (int \<times> testimony \<times> os) option" where
  "testimony_return_packets npk t block packets w =
     (case testimony_block_index t block of
        None \<Rightarrow> None
      | Some blockidx \<Rightarrow>
          if blockidx = kInvalidBlockIndex
          then (case TERR_SET EINVAL NotOurBlock w t of (t, w) \<Rightarrow> Some (- errno w, t, w))
          else
            (case counts_for t blockidx of
               None \<Rightarrow> None
             | Some counts \<Rightarrow>
                 (let count = counts ! unat blockidx;
                      t = t\<lparr>t_block_counts := Some (counts[unat blockidx := count - packets])\<rparr>
                  in if count = packets then testimony_return_block npk t block w
                     else if count < packets
                     then (case TERR_SET EINVAL ReturnOverflow w t of (t, w) \<Rightarrow> Some (- errno w, t, w))
                     else Some (0, t, w))))"

section \<open>A connected handle\<close>

text \<open>What \<^verbatim>\<open>testimony_init\<close> establishes: one counter per block, and a ring that fits into the address space.\<close>

definition c_ready :: "testimony \<Rightarrow> bool" where
  "c_ready t \<longleftrightarrow>
     t_sock_fd t \<noteq> 0 \<and> t_ring t \<noteq> 0 \<and> buf_ok t \<and> t_block_size t \<noteq> 0 \<and>
     unat (t_ring t) + unat (t_block_size t) * unat (t_block_nr t) < 2 ^ 64 \<and> unat (t_block_nr t) < 2 ^ 32 \<and>
     (\<exists>counts. t_block_counts t = Some counts \<and> length counts = unat (t_block_nr t))"

definition block_ptr :: "testimony \<Rightarrow> nat \<Rightarrow> uintptr" where
  "block_ptr t i = t_ring t + t_block_size t * of_nat i"

definition c_counts :: "testimony \<Rightarrow> u32 list" where
  "c_counts t = the (t_block_counts t)"

lemma unat_eq_of_nat: "unat w = n \<Longrightarrow> w = of_nat n" for w :: uintptr
  by auto

lemma ucast_of_nat_64_32: "(ucast (of_nat i :: uintptr) :: u32) = of_nat i"
  by (rule bit_word_eqI) (simp add: bit_simps)

lemma block_index_ptr:
  assumes "c_ready t" and "i < unat (t_block_nr t)" and "off < unat (t_block_size t)"
  shows "testimony_block_index t (block_ptr t i + of_nat off) = Some (of_nat i)" "(of_nat i :: u32) \<noteq> kInvalidBlockIndex"
    "unat (of_nat i :: u32) = i"
proof -
  let ?s = "unat (t_block_size t)" and ?n = "unat (t_block_nr t)"
  have fits: "?s * ?n < 2 ^ 64" "?n < 2 ^ 32" using assms(1) by (auto simp: c_ready_def)
  have "?s * i + off < ?s * (i + 1)" using assms(3) by simp
  also have "\<dots> \<le> ?s * ?n" using assms(2) by (intro mult_le_mono2) simp
  finally have le: "?s * i + off < 2 ^ 64" using fits by simp
  have i64: "i < 2 ^ 64" using assms(2) fits(2) by simp
  have "block_ptr t i + of_nat off - t_ring t = of_nat (?s * i + off)"
    by (simp add: block_ptr_def)
  then have "unat ((block_ptr t i + of_nat off - t_ring t) div t_block_size t) = (?s * i + off) div ?s"
    using le by (simp add: unat_div unsigned_of_nat take_bit_nat_eq_self del: of_nat_add of_nat_mult)
  also have "\<dots> = i" using assms(3) by simp
  finally have d: "unat ((block_ptr t i + of_nat off - t_ring t) div t_block_size t) = i" .
  then have q: "(block_ptr t i + of_nat off - t_ring t) div t_block_size t = of_nat i"
    by (rule unat_eq_of_nat)
  have "\<not> of_nat i \<ge> t_block_nr t" using d q assms(2) by (simp add: word_le_nat_alt)
  then show "testimony_block_index t (block_ptr t i + of_nat off) = Some (of_nat i)"
    using q assms(1) by (simp add: testimony_block_index_def Let_def ucast_of_nat_64_32 c_ready_def)
  show u: "unat (of_nat i :: u32) = i"
    using assms(2) fits(2) by (simp add: unsigned_of_nat take_bit_nat_eq_self)
  have "i < 2 ^ 32 - 1" using assms(2) fits(2) by simp
  then show "(of_nat i :: u32) \<noteq> kInvalidBlockIndex"
    using u by (auto simp: kInvalidBlockIndex_def)
qed

lemma block_index_0:
  assumes "c_ready t" and "i < unat (t_block_nr t)"
  shows "testimony_block_index t (block_ptr t i) = Some (of_nat i)"
proof -
  have "0 < unat (t_block_size t)" using assms(1) by (simp add: c_ready_def unat_gt_0)
  then show ?thesis using block_index_ptr(1) [OF assms, of 0] by simp
qed

lemma c_ready_counts:
  assumes "c_ready t"
  shows "t_block_counts t = Some (c_counts t)" "length (c_counts t) = unat (t_block_nr t)"
  using assms by (auto simp: c_ready_def c_counts_def)

lemma c_ready_counts_for:
  assumes "c_ready t" and "unat v < unat (t_block_nr t)"
  shows "counts_for t v = Some (c_counts t)"
  using c_ready_counts [OF assms(1)] assms(2) by (simp add: counts_for_def)

lemma c_ready_set_counts:
  assumes "c_ready t" and "length cs = unat (t_block_nr t)"
  shows "c_ready (t\<lparr>t_block_counts := Some cs\<rparr>)" "c_counts (t\<lparr>t_block_counts := Some cs\<rparr>) = cs"
    "block_ptr (t\<lparr>t_block_counts := Some cs\<rparr>) i = block_ptr t i"
    "testimony_block_index (t\<lparr>t_block_counts := Some cs\<rparr>) p = testimony_block_index t p"
  using assms by (auto simp: c_ready_def c_counts_def block_ptr_def testimony_block_index_def buf_ok_def)

lemma c_ready_index:
  assumes "c_ready t" and "i < unat (t_block_nr t)"
  shows "testimony_block_index t (block_ptr t i) = Some (of_nat i)" "(of_nat i :: u32) \<noteq> kInvalidBlockIndex"
    "unat (of_nat i :: u32) = i" "i < length (c_counts t)" "counts_for t (of_nat i) = Some (c_counts t)"
proof -
  have "0 < unat (t_block_size t)" using assms(1) by (simp add: c_ready_def unat_gt_0)
  then show "(of_nat i :: u32) \<noteq> kInvalidBlockIndex" "unat (of_nat i :: u32) = i"
    using block_index_ptr(2,3) [OF assms] by auto
  show "testimony_block_index t (block_ptr t i) = Some (of_nat i)" by (rule block_index_0 [OF assms])
  show "i < length (c_counts t)" using c_ready_counts(2) [OF assms(1)] assms(2) by simp
  show "counts_for t (of_nat i) = Some (c_counts t)"
    using c_ready_counts_for [OF assms(1), of "of_nat i"] block_index_ptr(3) [OF assms \<open>0 < unat (t_block_size t)\<close>] assms(2) by simp
qed

section \<open>Returning blocks\<close>

lemma return_block_ok:
  assumes "c_ready t" and "i < unat (t_block_nr t)" and "sends w = []"
    and "c_counts t ! i = 0 \<or> c_counts t ! i = npk (block_ptr t i)"
  shows "testimony_return_block npk t (block_ptr t i) w =
    Some (0, t\<lparr>t_block_counts := Some ((c_counts t)[i := 0])\<rparr>, w\<lparr>sent := sent w @ PutUint32 (of_nat i)\<rparr>)"
  using assms(3,4) c_ready_index [OF assms(1,2)] c_ready_counts(1) [OF assms(1)] send_be_32_open [OF assms(3)]
  by (auto simp: testimony_return_block_def Let_def)

text \<open>The sequence of calls \<^verbatim>\<open>testimony_return_packets(t, block, p)\<close> for the numbers in a list, in the order in which their atomic
  subtractions take effect.\<close>

fun return_calls ::
    "(uintptr \<Rightarrow> u32) \<Rightarrow> uintptr \<Rightarrow> u32 list \<Rightarrow> testimony \<Rightarrow> os \<Rightarrow> (int list \<times> testimony \<times> os) option" where
  "return_calls npk block [] t w = Some ([], t, w)"
| "return_calls npk block (p # ps) t w =
     (case testimony_return_packets npk t block p w of
        None \<Rightarrow> None
      | Some (r, t, w) \<Rightarrow>
          (case return_calls npk block ps t w of
             None \<Rightarrow> None
           | Some (rs, t, w) \<Rightarrow> Some (r # rs, t, w)))"

lemma unat_sub_less: "p < (c :: u32) \<Longrightarrow> unat (c - p) = unat c - unat p"
  by (simp add: unat_sub word_le_less_eq)

lemma return_some:
  assumes "c_ready t" and "i < unat (t_block_nr t)" and "p < c_counts t ! i"
  shows "testimony_return_packets npk t (block_ptr t i) p w =
    Some (0, t\<lparr>t_block_counts := Some ((c_counts t)[i := c_counts t ! i - p])\<rparr>, w)"
  using assms(3) c_ready_index [OF assms(1,2)] c_ready_counts(1) [OF assms(1)]
  by (auto simp: testimony_return_packets_def Let_def)

lemma return_last:
  assumes "c_ready t" and "i < unat (t_block_nr t)" and "sends w = []"
  shows "testimony_return_packets npk t (block_ptr t i) (c_counts t ! i) w =
    Some (0, t\<lparr>t_block_counts := Some ((c_counts t)[i := 0])\<rparr>, w\<lparr>sent := sent w @ PutUint32 (of_nat i)\<rparr>)"
proof -
  let ?t = "t\<lparr>t_block_counts := Some ((c_counts t)[i := 0])\<rparr>"
  note st = c_ready_set_counts [OF assms(1), of "(c_counts t)[i := 0]"]
  have len: "length ((c_counts t)[i := 0]) = unat (t_block_nr t)" using c_ready_counts(2) [OF assms(1)] by simp
  have "testimony_return_block npk ?t (block_ptr ?t i) w =
      Some (0, ?t\<lparr>t_block_counts := Some ((c_counts ?t)[i := 0])\<rparr>, w\<lparr>sent := sent w @ PutUint32 (of_nat i)\<rparr>)"
    using return_block_ok [OF st(1) [OF len], of i w] assms st(2) [OF len] c_ready_index(4) [OF assms(1,2)] by simp
  then show ?thesis
    using c_ready_index [OF assms(1,2)] c_ready_counts(1) [OF assms(1)] st(2,3) [OF len]
    by (simp add: testimony_return_packets_def Let_def)
qed

lemma return_calls_append:
  "return_calls npk block (ps @ qs) t w =
     (case return_calls npk block ps t w of
        None \<Rightarrow> None
      | Some (rs, t, w) \<Rightarrow>
          (case return_calls npk block qs t w of None \<Rightarrow> None | Some (rs', t, w) \<Rightarrow> Some (rs @ rs', t, w)))"
  by (induction ps arbitrary: t w) (auto split: option.splits)

lemma return_calls_partial:
  assumes "c_ready t" and "i < unat (t_block_nr t)" and "(\<Sum>p\<leftarrow>ps. unat p) < unat (c_counts t ! i)"
  shows "\<exists>c. return_calls npk (block_ptr t i) ps t w =
      Some (replicate (length ps) 0, t\<lparr>t_block_counts := Some ((c_counts t)[i := c])\<rparr>, w) \<and>
    unat c = unat (c_counts t ! i) - (\<Sum>p\<leftarrow>ps. unat p)"
  using assms
proof (induction ps arbitrary: t)
  case Nil
  then show ?case
    using c_ready_counts(1) [OF Nil(1)] by (intro exI [of _ "c_counts t ! i"]) simp
next
  case (Cons p ps)
  let ?c = "c_counts t ! i - p"
  let ?t = "t\<lparr>t_block_counts := Some ((c_counts t)[i := ?c])\<rparr>"
  have p: "p < c_counts t ! i" using Cons.prems(3) by (simp add: word_less_nat_alt)
  have len: "length ((c_counts t)[i := ?c]) = unat (t_block_nr t)" using c_ready_counts(2) [OF Cons.prems(1)] by simp
  note st = c_ready_set_counts [OF Cons.prems(1) len]
  have i: "i < length (c_counts t)" using c_ready_index(4) [OF Cons.prems(1,2)] .
  have "(\<Sum>p\<leftarrow>ps. unat p) < unat (c_counts ?t ! i)"
    using Cons.prems(3) unat_sub_less [OF p] st(2) i by simp
  then obtain c where c: "return_calls npk (block_ptr ?t i) ps ?t w =
      Some (replicate (length ps) 0, ?t\<lparr>t_block_counts := Some ((c_counts ?t)[i := c])\<rparr>, w)"
      "unat c = unat (c_counts ?t ! i) - (\<Sum>p\<leftarrow>ps. unat p)"
    using Cons.IH [OF st(1)] Cons.prems(2) by auto
  then show ?case
    using return_some [OF Cons.prems(1,2) p] st(2,3) i unat_sub_less [OF p]
    by (intro exI [of _ c]) simp
qed

text \<open>C23: packet-wise return gives the block back exactly once.  When the numbers of packets of the calls add up to the block's number of
  packets, none of them zero, every call succeeds, the block's number is sent to the daemon by the last call and by
  no earlier one, and the block's counter is zero again.\<close>

theorem return_packets_once:
  assumes "c_ready t" and "i < unat (t_block_nr t)" and "sends w = []"
    and "(\<Sum>p\<leftarrow>ps. unat p) = unat (c_counts t ! i)" and "0 \<notin> set ps" and "ps \<noteq> []"
  shows "return_calls npk (block_ptr t i) ps t w =
      Some (replicate (length ps) 0, t\<lparr>t_block_counts := Some ((c_counts t)[i := 0])\<rparr>,
        w\<lparr>sent := sent w @ PutUint32 (of_nat i)\<rparr>) \<and>
    (\<forall>k < length ps. \<exists>rs t'. return_calls npk (block_ptr t i) (take k ps) t w = Some (rs, t', w))"
proof (intro conjI allI impI)
  have early: "(\<Sum>p\<leftarrow>take k ps. unat p) < unat (c_counts t ! i)" if "k < length ps" for k
  proof -
    have "(\<Sum>p\<leftarrow>ps. unat p) = (\<Sum>p\<leftarrow>take k ps. unat p) + (\<Sum>p\<leftarrow>drop k ps. unat p)"
      by (metis append_take_drop_id map_append sum_list.append)
    moreover have "0 < (\<Sum>p\<leftarrow>drop k ps. unat p)"
    proof -
      have "drop k ps = ps ! k # drop (Suc k) ps" using that by (simp add: Cons_nth_drop_Suc)
      moreover have "0 < unat (ps ! k)" using assms(5) that by (metis nth_mem unat_gt_0)
      ultimately show ?thesis by simp
    qed
    ultimately show ?thesis using assms(4) by simp
  qed
  show "\<exists>rs t'. return_calls npk (block_ptr t i) (take k ps) t w = Some (rs, t', w)" if "k < length ps" for k
    using return_calls_partial [OF assms(1,2) early [OF that]] by blast
  define qs where "qs = butlast ps"
  define p where "p = last ps"
  have ps: "ps = qs @ [p]" using assms(6) by (simp add: qs_def p_def)
  have "(\<Sum>p\<leftarrow>qs. unat p) < unat (c_counts t ! i)"
    using early [of "length ps - 1"] assms(6) by (simp add: qs_def butlast_conv_take)
  then obtain c where c: "return_calls npk (block_ptr t i) qs t w =
      Some (replicate (length qs) 0, t\<lparr>t_block_counts := Some ((c_counts t)[i := c])\<rparr>, w)"
      "unat c = unat (c_counts t ! i) - (\<Sum>p\<leftarrow>qs. unat p)"
    using return_calls_partial [OF assms(1,2)] by blast
  let ?t = "t\<lparr>t_block_counts := Some ((c_counts t)[i := c])\<rparr>"
  have len: "length ((c_counts t)[i := c]) = unat (t_block_nr t)" using c_ready_counts(2) [OF assms(1)] by simp
  note st = c_ready_set_counts [OF assms(1) len]
  have "unat p = unat c" using c(2) assms(4) by (simp add: ps)
  then have "p = c" by (simp add: word_unat_eq_iff)
  then have "p = c_counts ?t ! i" using st(2) c_ready_index(4) [OF assms(1,2)] by simp
  then have "testimony_return_packets npk ?t (block_ptr t i) p w =
      Some (0, t\<lparr>t_block_counts := Some ((c_counts t)[i := 0])\<rparr>, w\<lparr>sent := sent w @ PutUint32 (of_nat i)\<rparr>)"
    using return_last [OF st(1), of i w npk] assms(2,3) st(2,3) by simp
  then show "return_calls npk (block_ptr t i) ps t w =
      Some (replicate (length ps) 0, t\<lparr>t_block_counts := Some ((c_counts t)[i := 0])\<rparr>,
        w\<lparr>sent := sent w @ PutUint32 (of_nat i)\<rparr>)"
    using c(1) by (simp add: ps return_calls_append replicate_append_same)
qed

definition demo_handle :: testimony where
  "demo_handle =
     zero_testimony\<lparr>t_fanout_size := 1, t_block_size := 0x1000, t_block_nr := 2, t_sock_fd := 3, t_afpacket_fd := 9, t_ring := 0x10000,
                    t_block_counts := Some [0, 5]\<rparr>"

lemma demo_handle_ready: "c_ready demo_handle" "c_counts demo_handle = [0, 5]" "unat (t_block_nr demo_handle) = 2"
  by (simp_all add: c_ready_def demo_handle_def zero_testimony_def c_counts_def buf_ok_def)

theorem return_packets_once_witness:
  "\<exists>t' w'. return_calls (\<lambda>p. 5) (block_ptr demo_handle 1) [2, 1, 2] demo_handle demo_os = Some ([0, 0, 0], t', w') \<and>
     sent w' = [0, 0, 0, 1]"
proof -
  have "1 < unat (t_block_nr demo_handle)" "sends demo_os = []"
    "(\<Sum>p\<leftarrow>[2, 1, 2 :: u32]. unat p) = unat (c_counts demo_handle ! 1)" "(0 :: u32) \<notin> set [2, 1, 2]" "[2, 1, 2 :: u32] \<noteq> []"
    by (simp_all add: demo_handle_ready demo_os_def)
  from return_packets_once [OF demo_handle_ready(1) this, of "\<lambda>p. 5"] show ?thesis
    by (simp add: demo_os_def PutUint32_def numeral_3_eq_3)
qed

section \<open>Getting blocks\<close>

definition same_handle :: "testimony \<Rightarrow> testimony \<Rightarrow> bool" where
  "same_handle t t' \<longleftrightarrow>
     t_sock_fd t' = t_sock_fd t \<and> t_ring t' = t_ring t \<and> t_block_size t' = t_block_size t \<and> t_block_nr t' = t_block_nr t \<and>
     t_block_counts t' = t_block_counts t \<and> (buf_ok t \<longrightarrow> buf_ok t')"

lemma same_handle_refl [simp]: "same_handle t t"
  by (simp add: same_handle_def)

lemma same_handle_trans: "same_handle t t' \<Longrightarrow> same_handle t' t'' \<Longrightarrow> same_handle t t''"
  by (simp add: same_handle_def)

lemma same_handle_TERR [simp]: "same_handle t (TERR m w t') = same_handle t t'"
  by (simp add: same_handle_def TERR_def buf_ok_def)

lemma recv_t_handle: "recv_t t w n = (r, t', w') \<Longrightarrow> same_handle t t'"
  using recv_t_frame [of t w n r t' w'] recv_t_buf_ok [of t w n r t' w'] reads_only_fields [of t w t' w']
  by (auto simp: same_handle_def)

lemma recv_be_32_handle: "recv_be_32 t w = (r, t', w') \<Longrightarrow> same_handle t t'"
  by (auto simp: recv_be_32_def split: prod.splits option.splits dest!: recv_t_handle)

lemma discard_bytes_handle: "discard_bytes t w n = (r, t', w') \<Longrightarrow> same_handle t t'"
proof (induction n arbitrary: t w rule: less_induct)
  case (less n)
  let ?len = "if n > TESTIMONY_BUF_SIZE then TESTIMONY_BUF_SIZE else n"
  obtain q t1 w1 where q: "recv_t t w ?len = (q, t1, w1)" by (cases "recv_t t w ?len")
  show ?case
  proof (cases "n = 0")
    case False
    then have lt: "n - ?len < n" by (simp add: TESTIMONY_BUF_SIZE_def)
    note h1 = recv_t_handle [OF q]
    show ?thesis
    proof (cases q)
      case None
      then have "t' = TERR (RecvVal_length n) w1 t1" using less.prems q False by (auto simp: discard_bytes.simps [of t w n])
      then show ?thesis using h1 by simp
    next
      case (Some bs)
      then have "discard_bytes t1 w1 (n - ?len) = (r, t', w')" using less.prems q False by (simp add: discard_bytes.simps [of t w n])
      from less.IH [OF lt this] h1 show ?thesis by (rule same_handle_trans [rotated])
    qed
  qed (use less.prems in \<open>simp add: discard_bytes.simps [of t w 0]\<close>)
qed

lemma poll_step_errs:
  "poll_step m t w = (p, w') \<Longrightarrow> errs_ok w \<Longrightarrow> errs_ok w' \<and> (p = PollFail \<longrightarrow> 0 < errno w') \<and> (p = PollTimedOut \<longrightarrow> 0 \<le> m)"
  by (auto simp: poll_step_def errs_ok_def split: if_splits list.splits poll_ans.splits)

lemma c_index_round_spec:
  assumes "c_index_round m t w = (r, t', w')" and "errs_ok w"
  shows "errs_ok w' \<and> same_handle t t' \<and> (r = RoundFail \<longrightarrow> 0 < errno w') \<and> (r = RoundTimeout \<longrightarrow> 0 \<le> m)"
proof -
  obtain p w1 where p: "poll_step m t w = (p, w1)" by force
  note e1 = poll_step_errs [OF p assms(2)]
  show ?thesis
  proof (cases p)
    case PollGo
    obtain q t2 w2 where q: "recv_be_32 t w1 = (q, t2, w2)" by (cases "recv_be_32 t w1")
    note e2 = recv_be_32_errs [OF q] and h2 = recv_be_32_handle [OF q]
    show ?thesis
    proof (cases q)
      case None
      then show ?thesis using assms(1) p q PollGo e1 e2 h2 by (auto simp: c_index_round_def)
    next
      case (Some v)
      obtain d t3 w3 where d: "discard_bytes t2 w2 (unat (protocol_length v)) = (d, t3, w3)"
        by (cases "discard_bytes t2 w2 (unat (protocol_length v))")
      show ?thesis
        using assms(1) p q PollGo Some d e1 e2 h2 discard_bytes_errs [OF d] same_handle_trans [OF h2 discard_bytes_handle [OF d]]
        by (auto simp: c_index_round_def split: if_splits bool.splits)
    qed
  qed (use assms(1) p e1 in \<open>auto simp: c_index_round_def\<close>)
qed

lemma c_index_loop_spec:
  assumes "c_index_loop m t w = (r, t', w')" and "errs_ok w"
  shows "errs_ok w' \<and> same_handle t t' \<and> (r = IdxFail \<longrightarrow> 0 < errno w') \<and> (r = IdxTimeout \<longrightarrow> 0 \<le> m)"
  using assms
proof (induction m t w rule: c_index_loop.induct)
  case (1 m t w)
  obtain q t1 w1 where q: "c_index_round m t w = (q, t1, w1)" by (cases "c_index_round m t w")
  note s1 = c_index_round_spec [OF q "1.prems"(2)]
  show ?case
  proof (cases q)
    case RoundMore
    then have "c_index_loop m t1 w1 = (r, t', w')" using "1.prems"(1) q by (simp add: c_index_loop.simps [of m t w])
    from "1.IH" [OF q [symmetric] RoundMore refl this] s1 show ?thesis using same_handle_trans by blast
  qed (use "1.prems"(1) q s1 in \<open>auto simp: c_index_loop.simps [of m t w]\<close>)
qed

lemma c_ready_same: "c_ready t \<Longrightarrow> same_handle t t' \<Longrightarrow> c_ready t' \<and> c_counts t' = c_counts t \<and> block_ptr t' = block_ptr t"
  by (auto simp: c_ready_def same_handle_def c_counts_def block_ptr_def)

lemma block_ptr_ucast: "t_ring t + t_block_size t * ucast (v :: u32) = block_ptr t (unat v)"
proof -
  have "(of_nat (unat v) :: uintptr) = ucast v" by (simp add: unsigned_ucast_eq)
  then show ?thesis by (simp add: block_ptr_def)
qed

text \<open>An index inside the ring, of a block that the library does not have.\<close>

lemma get_block_taken:
  assumes ready: "c_ready t" and h: "same_handle t t1" and q: "c_index_loop m t w = (Idx v, t1, w1)"
    and lt: "unat v < unat (t_block_nr t)" and zero: "c_counts t ! unat v = 0"
  shows "\<exists>t'. testimony_get_block npk m t w = Some (0, block_ptr t (unat v), t', w1) \<and> c_ready t' \<and>
    block_ptr t' = block_ptr t \<and> testimony_block_index t' (block_ptr t (unat v)) = Some (of_nat (unat v)) \<and>
    c_counts t' = (c_counts t)[unat v := npk (block_ptr t (unat v))]"
proof -
  let ?b = "block_ptr t (unat v)"
  let ?cs = "(c_counts t)[unat v := npk ?b]"
  have r1: "c_ready t1" "c_counts t1 = c_counts t" "block_ptr t1 = block_ptr t"
    using c_ready_same [OF ready h] by simp_all
  have nr: "t_block_nr t1 = t_block_nr t" "t_ring t1 = t_ring t" "t_block_size t1 = t_block_size t"
    using h by (auto simp: same_handle_def)
  have st: "t_sock_fd t \<noteq> 0" "t_ring t \<noteq> 0" using ready by (simp_all add: c_ready_def)
  have ge: "\<not> ucast v \<ge> t_block_nr t" using lt by (simp add: not_le word_less_nat_alt unat_ucast64)
  have cnt: "counts_for t1 v = Some (c_counts t1)" using c_ready_counts_for [OF r1(1)] lt nr by simp
  have len: "length ?cs = unat (t_block_nr t1)" using c_ready_counts(2) [OF r1(1)] r1(2) by simp
  note rs = c_ready_set_counts [OF r1(1) len]
  have "testimony_get_block npk m t w = Some (0, ?b, t1\<lparr>t_block_counts := Some ?cs\<rparr>, w1)"
    using q st ge nr cnt r1(2) zero block_ptr_ucast [of t v] by (simp add: testimony_get_block_def Let_def)
  moreover have "testimony_block_index (t1\<lparr>t_block_counts := Some ?cs\<rparr>) ?b = Some (of_nat (unat v))"
    using rs(4) c_ready_index(1) [OF r1(1), of "unat v"] lt nr r1(3) by simp
  moreover have "block_ptr (t1\<lparr>t_block_counts := Some ?cs\<rparr>) = block_ptr t" using rs(3) r1(3) by auto
  ultimately show ?thesis using rs(1,2) by blast
qed

text \<open>C24: \<^verbatim>\<open>testimony_get_block\<close> on an initialised handle returns on every input, without an access through NULL.  A block that it
  returns is block \<open>i\<close> of the ring for a valid \<open>i\<close> of which the client had no packets outstanding, and its counter now
  holds its number of packets.  Without a block it reports a timeout, only if one was asked for, or a negative number, and no counter
  changes.\<close>

theorem get_block_in_ring:
  assumes "c_ready t" and "errs_ok w"
  shows "\<exists>r b t' w'. testimony_get_block npk m t w = Some (r, b, t', w') \<and> c_ready t' \<and> block_ptr t' = block_ptr t \<and>
    ((\<exists>i < unat (t_block_nr t). r = 0 \<and> b = block_ptr t i \<and> testimony_block_index t' b = Some (of_nat i) \<and>
        c_counts t ! i = 0 \<and> c_counts t' = (c_counts t)[i := npk b]) \<or>
     (r = 0 \<and> b = 0 \<and> 0 \<le> m \<and> c_counts t' = c_counts t) \<or> (r < 0 \<and> c_counts t' = c_counts t))"
proof -
  obtain q t1 w1 where q: "c_index_loop m t w = (q, t1, w1)" by (cases "c_index_loop m t w")
  note s1 = c_index_loop_spec [OF q assms(2)]
  then have r1: "c_ready t1" "c_counts t1 = c_counts t" "block_ptr t1 = block_ptr t" and h1: "same_handle t t1"
    using c_ready_same [OF assms(1), of t1] by simp_all
  have st: "t_sock_fd t \<noteq> 0" "t_ring t \<noteq> 0" using assms(1) by (simp_all add: c_ready_def)
  have err: "c_ready t2 \<and> block_ptr t2 = block_ptr t \<and> - errno w2 < 0 \<and> c_counts t2 = c_counts t"
    if "TERR_SET EIO msg w1 t1 = (t2, w2)" for msg t2 w2
  proof -
    have "same_handle t t2" "errno w2 = EIO" using that h1 by (auto simp: TERR_SET_def Let_def)
    then show ?thesis using c_ready_same [OF assms(1), of t2] by (simp add: EIO_def)
  qed
  show ?thesis
  proof (cases q)
    case IdxFail
    then show ?thesis using q st s1 r1 by (simp add: testimony_get_block_def)
  next
    case IdxTimeout
    then show ?thesis using q st s1 r1 by (simp add: testimony_get_block_def)
  next
    case (Idx v)
    have nr: "t_block_nr t1 = t_block_nr t" "t_ring t1 = t_ring t" "t_block_size t1 = t_block_size t"
      using h1 by (auto simp: same_handle_def)
    show ?thesis
    proof (cases "ucast v \<ge> t_block_nr t")
      case True
      obtain t2 w2 where t2: "TERR_SET EIO (BadIndex v (t_block_nr t)) w1 t1 = (t2, w2)" by force
      then show ?thesis using q st Idx True nr err [OF t2] by (simp add: testimony_get_block_def)
    next
      case False
      then have lt: "unat v < unat (t_block_nr t)" by (simp add: not_le word_less_nat_alt unat_ucast64)
      have cnt: "counts_for t1 v = Some (c_counts t1)" using c_ready_counts_for [OF r1(1)] lt nr by simp
      show ?thesis
      proof (cases "c_counts t ! unat v = 0")
        case True
        with get_block_taken [OF assms(1) h1 q [unfolded Idx] lt, of npk] obtain t'
          where "testimony_get_block npk m t w = Some (0, block_ptr t (unat v), t', w1)" "c_ready t'" "block_ptr t' = block_ptr t"
            "testimony_block_index t' (block_ptr t (unat v)) = Some (of_nat (unat v))"
            "c_counts t' = (c_counts t)[unat v := npk (block_ptr t (unat v))]" by blast
        with lt True show ?thesis
          by (intro exI [of _ "0"] exI [of _ "block_ptr t (unat v)"] exI [of _ t'] exI [of _ w1] conjI disjI1 exI [of _ "unat v"]) simp_all
      next
        case neq: False
        obtain t2 w2 where t2: "TERR_SET EIO (CountNotZero v (c_counts t ! unat v)) w1 t1 = (t2, w2)" by force
        then show ?thesis
          using q st Idx False nr cnt r1(2) neq err [OF t2] by (simp add: testimony_get_block_def Let_def)
      qed
    qed
  qed
qed

theorem get_block_in_ring_witness:
  "\<exists>r b t' w'. testimony_get_block (\<lambda>p. 5) (-1) demo_handle (demo_os\<lparr>answers := [RData [0, 0], RErr 4, RData [0, 0]]\<rparr>) =
       Some (r, b, t', w') \<and> c_ready t' \<and> (r < 0 \<or> (\<exists>i. i < 2 \<and> r = 0 \<and> b = block_ptr demo_handle i))"
proof -
  have "errs_ok (demo_os\<lparr>answers := [RData [0, 0], RErr 4, RData [0, 0]]\<rparr>)" by (auto simp: errs_ok_def demo_os_def)
  from get_block_in_ring [OF demo_handle_ready(1) this, of "\<lambda>p. 5" "-1"] show ?thesis
    unfolding demo_handle_ready(3) by fastforce
qed

text \<open>A blocking call on an announced block.\<close>

lemma index_header: "i < 2 ^ 31 \<Longrightarrow> protocol_type (of_nat i) = 0"
proof -
  assume "i < 2 ^ 31"
  then have "uint (of_nat i :: u32) < 2 ^ 31" by (simp add: unsigned_of_nat take_bit_nat_eq_self)
  then have "\<not> bit (of_nat i :: u32) 31" unfolding bit31_uint .
  then show ?thesis by (simp add: protocol_type_def high_bit32)
qed

lemma get_block_announced:
  assumes "c_ready t" and "m < 0" and "unread (t, w) = PutUint32 (of_nat i) @ rest" and "i < unat (t_block_nr t)"
    and "i < 2 ^ 31" and "c_counts t ! i = 0"
  shows "\<exists>t' w'. testimony_get_block npk m t w = Some (0, block_ptr t i, t', w') \<and> c_ready t' \<and> block_ptr t' = block_ptr t \<and>
           t_block_nr t' = t_block_nr t \<and> c_counts t' = (c_counts t)[i := npk (block_ptr t i)] \<and> unread (t', w') = rest \<and>
           sends w' = sends w \<and> sent w' = sent w"
proof -
  have ok: "buf_ok t" "t_sock_fd t \<noteq> 0" "t_ring t \<noteq> 0" using assms(1) by (simp_all add: c_ready_def)
  obtain t1 w1 where r: "recv_be_32 t w = (Some (of_nat i), t1, w1)" "unread (t1, w1) = rest" "buf_ok t1" "reads_only t w t1 w1"
    using recv_be_32_msg [OF ok(1) assms(3)] by blast
  note f = reads_only_fields [OF r(4)] and h1 = recv_be_32_handle [OF r(1)]
  have loop: "c_index_loop m t w = (Idx (of_nat i), t1, w1)"
    using assms(2) r(1) index_header [OF assms(5)] by (simp add: c_index_loop.simps [of m t w] c_index_round_def poll_step_def)
  have r1: "c_ready t1" "c_counts t1 = c_counts t" "block_ptr t1 = block_ptr t" using c_ready_same [OF assms(1) h1] by auto
  note ix = c_ready_index [OF r1(1), of i]
  have i: "unat (of_nat i :: u32) = i" "counts_for t1 (of_nat i) = Some (c_counts t)"
    using ix(3,5) assms(4) f r1(2) by simp_all
  have "\<not> ucast (of_nat i :: u32) \<ge> t_block_nr t1" using i(1) assms(4) f by (simp add: word_le_nat_alt unat_ucast64)
  moreover have "t_ring t1 + t_block_size t1 * ucast (of_nat i :: u32) = block_ptr t i"
    using block_ptr_ucast [of t1 "of_nat i"] i(1) r1(3) by simp
  ultimately have "testimony_get_block npk m t w =
      Some (0, block_ptr t i, t1\<lparr>t_block_counts := Some ((c_counts t)[i := npk (block_ptr t i)])\<rparr>, w1)"
    using ok loop i assms(6) by (simp add: testimony_get_block_def Let_def)
  moreover have len: "length ((c_counts t)[i := npk (block_ptr t i)]) = unat (t_block_nr t1)"
    using c_ready_counts(2) [OF r1(1)] r1(2) by simp
  note st = c_ready_set_counts [OF r1(1) len]
  moreover have "unread (t1\<lparr>t_block_counts := Some ((c_counts t)[i := npk (block_ptr t i)])\<rparr>, w1) = rest"
    using r(2) by (simp add: unread_def buffered_def)
  ultimately show ?thesis using f r1(3) by auto
qed

section \<open>A client that gets and returns blocks\<close>

fun c_client :: "(uintptr \<Rightarrow> u32) \<Rightarrow> nat \<Rightarrow> testimony \<Rightarrow> os \<Rightarrow> (uintptr list \<times> testimony \<times> os) option" where
  "c_client npk 0 t w = Some ([], t, w)"
| "c_client npk (Suc k) t w =
     (case testimony_get_block npk (-1) t w of
        None \<Rightarrow> None
      | Some (r, b, t, w) \<Rightarrow>
          if r < 0 then None
          else
            (case testimony_return_block npk t b w of
               None \<Rightarrow> None
             | Some (r, t, w) \<Rightarrow>
                 if r < 0 then None
                 else map_option (\<lambda>(bs, t, w). (b # bs, t, w)) (c_client npk k t w)))"

lemma c_client_announced:
  assumes "c_ready t" and "unread (t, w) = indexes bs" and "\<forall>b \<in> set bs. b < unat (t_block_nr t) \<and> b < 2 ^ 31"
    and "\<forall>c \<in> set (c_counts t). c = 0" and "sends w = []"
  shows "\<exists>t' w'. c_client npk (length bs) t w = Some (map (block_ptr t) bs, t', w') \<and> sent w' = sent w @ indexes bs \<and>
           (\<forall>c \<in> set (c_counts t'). c = 0)"
  using assms
proof (induction bs arbitrary: t w)
  case Nil
  then show ?case by simp
next
  case (Cons b bs)
  have b: "b < unat (t_block_nr t)" "b < 2 ^ 31" "c_counts t ! b = 0"
    using Cons.prems(3,4) c_ready_index(4) [OF Cons.prems(1), of b] by auto
  obtain t1 w1 where g: "testimony_get_block npk (-1) t w = Some (0, block_ptr t b, t1, w1)" "c_ready t1" "block_ptr t1 = block_ptr t"
    "t_block_nr t1 = t_block_nr t" "c_counts t1 = (c_counts t)[b := npk (block_ptr t b)]" "unread (t1, w1) = indexes bs"
    "sends w1 = sends w" "sent w1 = sent w"
    using get_block_announced [OF Cons.prems(1), of "-1" w b "indexes bs" npk] b Cons.prems(2) by auto
  have bl: "b < length (c_counts t)" using c_ready_index(4) [OF Cons.prems(1) b(1)] .
  let ?t = "t1\<lparr>t_block_counts := Some ((c_counts t1)[b := 0])\<rparr>" and ?w = "w1\<lparr>sent := sent w1 @ PutUint32 (of_nat b)\<rparr>"
  have ret: "testimony_return_block npk t1 (block_ptr t b) w1 = Some (0, ?t, ?w)"
    using return_block_ok [OF g(2), of b w1 npk] b(1) g Cons.prems(5) bl by simp
  have len: "length ((c_counts t1)[b := 0]) = unat (t_block_nr t1)" using c_ready_counts(2) [OF g(2)] by simp
  note st = c_ready_set_counts [OF g(2) len]
  have "\<forall>c \<in> set (c_counts ?t). c = 0" using st(2) g(5) Cons.prems(4) set_update_subset_insert [of "c_counts t" b 0] by auto
  moreover have "unread (?t, ?w) = indexes bs" using g(6) by (simp add: unread_def buffered_def)
  moreover have "block_ptr ?t = block_ptr t" using st(3) g(3) by auto
  ultimately obtain t' w' where "c_client npk (length bs) ?t ?w = Some (map (block_ptr t) bs, t', w')"
    "sent w' = sent ?w @ indexes bs" "\<forall>c \<in> set (c_counts t'). c = 0"
    using Cons.IH [OF st(1), of ?w] Cons.prems(3,5) g(4,7) by auto
  then show ?case using g(1,8) ret by auto
qed

section \<open>Returning too many packets\<close>

text \<open>The subtraction comes before the check: after the error the counter has wrapped around.\<close>

lemma return_too_many:
  assumes "c_ready t" and "i < unat (t_block_nr t)" and "c_counts t ! i < p"
  shows "\<exists>t' w'. testimony_return_packets npk t (block_ptr t i) p w = Some (- EINVAL, t', w') \<and>
           c_counts t' = (c_counts t)[i := c_counts t ! i - p] \<and> sent w' = sent w"
  using assms(3) c_ready_index [OF assms(1,2)]
  by (auto simp: testimony_return_packets_def TERR_SET_def TERR_def Let_def c_counts_def)

end
