(* ===== verification/Citer.thy ===== *)
theory Citer
  imports Cblocks Packets
begin

text \<open>
  Packets of a block in the C client library (\<^verbatim>\<open>c/testimony.c\<close>): the iterator \<^verbatim>\<open>testimony_iter\<close>, \<^verbatim>\<open>testimony_packet_data\<close> and
  \<^verbatim>\<open>testimony_packet_nanos\<close>.  The fields of the kernel's headers are read through the functions of a record \<open>cmem\<close>, indexed by address;
  \<open>cmem_of\<close> gives these functions for a ring mapped at an address and the header layout that the Go library uses, and the
  iterator is shown to visit the same packets as \<^verbatim>\<open>Next\<close>.
\<close>

section \<open>The code\<close>

record cmem =
  m_version :: "uintptr \<Rightarrow> u32"
  m_num_pkts :: "uintptr \<Rightarrow> u32"
  m_offset_to_first_pkt :: "uintptr \<Rightarrow> u32"
  m_tp_next_offset :: "uintptr \<Rightarrow> u32"
  m_tp_mac :: "uintptr \<Rightarrow> u16"
  m_tp_snaplen :: "uintptr \<Rightarrow> u32"
  m_tp_sec :: "uintptr \<Rightarrow> u32"
  m_tp_nsec :: "uintptr \<Rightarrow> u32"
  m_byte :: "uintptr \<Rightarrow> byte"
  m_TPACKET_V3 :: u32   \<comment> \<open>the constant of the kernel's header file\<close>

text \<open>\<^verbatim>\<open>struct testimony_iter_internal\<close>; the \<^verbatim>\<open>int\<close> field \<^verbatim>\<open>left\<close> as a word, 0 for NULL.\<close>

record testimony_iter =
  it_block :: uintptr
  it_pkt :: uintptr
  it_left :: i32

definition testimony_iter_init :: "bool \<Rightarrow> int \<times> testimony_iter option" where
  "testimony_iter_init malloc_ok =
     (if malloc_ok then (0, Some \<lparr>it_block = 0, it_pkt = 0, it_left = 0\<rparr>) else (- ENOMEM, None))"

definition testimony_iter_reset :: "cmem \<Rightarrow> testimony_iter \<Rightarrow> uintptr \<Rightarrow> int \<times> testimony_iter" where
  "testimony_iter_reset M iter block =
     (if m_version M block \<noteq> m_TPACKET_V3 M then (- EPROTONOSUPPORT, iter)
      else (0, iter\<lparr>it_block := block, it_left := m_num_pkts M block, it_pkt := 0\<rparr>))"

definition testimony_iter_next :: "cmem \<Rightarrow> testimony_iter \<Rightarrow> uintptr \<times> testimony_iter" where
  "testimony_iter_next M iter =
     (if it_left iter = 0 then (0, iter)
      else
        (let iter = iter\<lparr>it_left := it_left iter - 1\<rparr>;
             pkt = (if it_pkt iter \<noteq> 0 then it_pkt iter + ucast (m_tp_next_offset M (it_pkt iter))
                    else it_block iter + ucast (m_offset_to_first_pkt M (it_block iter)))
         in (pkt, iter\<lparr>it_pkt := pkt\<rparr>)))"

definition testimony_packet_data :: "cmem \<Rightarrow> uintptr \<Rightarrow> uintptr" where
  "testimony_packet_data M pkt = pkt + ucast (m_tp_mac M pkt)"

definition testimony_packet_nanos :: "cmem \<Rightarrow> uintptr \<Rightarrow> 64 word" where
  "testimony_packet_nanos M pkt = ucast (m_tp_sec M pkt) * 1000000000 + ucast (m_tp_nsec M pkt)"

text \<open>The packet's bytes, from \<^verbatim>\<open>testimony_packet_data\<close> for \<^verbatim>\<open>tp_snaplen\<close> bytes.\<close>

definition packet_bytes :: "cmem \<Rightarrow> uintptr \<Rightarrow> byte list" where
  "packet_bytes M pkt =
     map (\<lambda>k. m_byte M (testimony_packet_data M pkt + of_nat k)) [0..<unat (m_tp_snaplen M pkt)]"

lemma iter_next_less: "testimony_iter_next M it = (p, it') \<Longrightarrow> p \<noteq> 0 \<Longrightarrow> unat (it_left it') < unat (it_left it)"
proof -
  assume n: "testimony_iter_next M it = (p, it')" and "p \<noteq> 0"
  then have "it_left it \<noteq> 0" "it_left it' = it_left it - 1" by (auto simp: testimony_iter_next_def Let_def split: if_splits)
  moreover have "0 < unat (it_left it)" using calculation(1) by (simp add: unat_gt_0)
  ultimately show ?thesis by (simp add: unat_minus_one)
qed

text \<open>\<^verbatim>\<open>while ((packet = testimony_iter_next(iter)) != NULL)\<close> over all packets.\<close>

function c_packets :: "cmem \<Rightarrow> testimony_iter \<Rightarrow> byte list list" where
  "c_packets M it =
     (case testimony_iter_next M it of
        (p, it') \<Rightarrow> if p = 0 then [] else packet_bytes M p # c_packets M it')"
  by pat_completeness auto
termination
  by (relation "measure (\<lambda>(M, it). unat (it_left it))") (auto dest: iter_next_less [OF sym])

declare c_packets.simps [simp del]

section \<open>Timestamps\<close>

text \<open>The time of a packet never overflows an \<^verbatim>\<open>int64_t\<close>.\<close>

lemma packet_nanos_exact:
  "sint (testimony_packet_nanos M pkt) = uint (m_tp_sec M pkt) * 1000000000 + uint (m_tp_nsec M pkt)"
proof -
  let ?x = "uint (m_tp_sec M pkt) * 1000000000 + uint (m_tp_nsec M pkt)"
  have hi: "?x < 2 ^ 63" and "0 \<le> ?x"
    using uint_less_2p32 [of "m_tp_sec M pkt"] uint_less_2p32 [of "m_tp_nsec M pkt"] by simp_all
  moreover have "- (2 ^ 63) \<le> (0 :: int)" by simp
  ultimately have "- (2 ^ 63) \<le> ?x" by linarith
  from wrap64_id [OF this hi] have "wrap64 ?x = ?x" .
  moreover have "testimony_packet_nanos M pkt = word_of_int ?x"
    unfolding testimony_packet_nanos_def by (simp add: word_uint_eq_iff uint_ucast64 flip: uint_ucast64)
  ultimately show ?thesis by (simp add: wrap64_def)
qed

section \<open>The iterator visits the chain of packets\<close>

definition cmem_of :: "layout \<Rightarrow> (byte list \<Rightarrow> nat \<Rightarrow> u32) \<Rightarrow> u32 \<Rightarrow> uintptr \<Rightarrow> byte list \<Rightarrow> cmem" where
  "cmem_of L version v3 ring mem =
     (let pos = (\<lambda>a :: uintptr. unat (a - ring)) in
      \<lparr>m_version = (\<lambda>a. version mem (pos a)), m_num_pkts = (\<lambda>a. num_pkts L mem (pos a)),
       m_offset_to_first_pkt = (\<lambda>a. offset_to_first_pkt L mem (pos a)), m_tp_next_offset = (\<lambda>a. tp_next_offset L mem (pos a)),
       m_tp_mac = (\<lambda>a. tp_mac L mem (pos a)), m_tp_snaplen = (\<lambda>a. tp_snaplen L mem (pos a)), m_tp_sec = (\<lambda>a. 0), m_tp_nsec = (\<lambda>a. 0),
       m_byte = (\<lambda>a. mem ! pos a), m_TPACKET_V3 = v3\<rparr>)"

definition addr :: "uintptr \<Rightarrow> slice \<Rightarrow> int \<Rightarrow> uintptr" where
  "addr ring s off = ring + of_nat (sl_off s + nat off)"

lemma addr_pos: "sl_off s + nat off < 2 ^ 64 \<Longrightarrow> unat (addr ring s off - ring) = sl_off s + nat off"
  by (simp add: addr_def unsigned_of_nat take_bit_nat_eq_self del: of_nat_add)

lemma addr_add: "0 \<le> off \<Longrightarrow> 0 \<le> d \<Longrightarrow> addr ring s (off + d) = addr ring s off + of_nat (nat d)"
  by (simp add: addr_def nat_add_distrib)

lemma ucast_of_nat_unat: "(of_nat (unat v) :: uintptr) = ucast v" for v :: "'a :: len word"
  by (simp add: unsigned_ucast_eq)

lemma packet_bytes_chain:
  assumes "0 < off" and "off + uint (at (tp_mac L) s off) + uint (at (tp_snaplen L) s off) \<le> int (sl_len s)"
    and "slice_ok s" and "length (sl_mem s) < 2 ^ 64"
  shows "packet_bytes (cmem_of L ver v3 ring (sl_mem s)) (addr ring s off) =
    take (unat (at (tp_snaplen L) s off)) (drop (sl_off s + nat off + unat (at (tp_mac L) s off)) (sl_mem s))"
proof -
  let ?M = "cmem_of L ver v3 ring (sl_mem s)" and ?mac = "unat (at (tp_mac L) s off)" and ?n = "unat (at (tp_snaplen L) s off)"
  let ?start = "sl_off s + nat off + ?mac"
  have fit: "?start + ?n \<le> length (sl_mem s)"
  proof -
    have "int (?start + ?n) \<le> int (sl_off s + sl_len s)" using assms(1,2) by simp
    then show ?thesis using assms(3) unfolding of_nat_le_iff by (simp add: slice_ok_def)
  qed
  then have pos: "unat (addr ring s off - ring) = sl_off s + nat off" using addr_pos assms(4) by simp
  have mac: "m_tp_mac ?M (addr ring s off) = at (tp_mac L) s off" and len: "m_tp_snaplen ?M (addr ring s off) = at (tp_snaplen L) s off"
    by (simp_all add: cmem_of_def at_def pos)
  have data: "testimony_packet_data ?M (addr ring s off) + of_nat k - ring = of_nat (?start + k)" for k
    unfolding testimony_packet_data_def mac by (simp add: addr_def ucast_of_nat_unat)
  have "m_byte ?M (testimony_packet_data ?M (addr ring s off) + of_nat k) = sl_mem s ! (?start + k)" if "k < ?n" for k
  proof -
    have "m_byte ?M a = sl_mem s ! unat (a - ring)" for a by (simp add: cmem_of_def)
    moreover have "unat (of_nat (?start + k) :: uintptr) = ?start + k"
      using that fit assms(4) by (simp add: unsigned_of_nat take_bit_nat_eq_self del: of_nat_add)
    ultimately show ?thesis by (simp only: data)
  qed
  then have "packet_bytes ?M (addr ring s off) = map (\<lambda>k. sl_mem s ! (?start + k)) [0..<?n]"
    by (simp add: packet_bytes_def len)
  also have "\<dots> = take ?n (drop ?start (sl_mem s))"
    using fit by (intro nth_equalityI) (simp_all add: add.commute)
  finally show ?thesis .
qed

lemma c_packets_chain:
  assumes "slice_ok s" and "unat ring + length (sl_mem s) < 2 ^ 64" and "ring \<noteq> 0" and "chain_ok L s off k" and "0 \<le> off"
    and "unat (it_left it) = k"
    and "(if it_pkt it \<noteq> 0 then it_pkt it + ucast (m_tp_next_offset (cmem_of L ver v3 ring (sl_mem s)) (it_pkt it))
          else it_block it + ucast (m_offset_to_first_pkt (cmem_of L ver v3 ring (sl_mem s)) (it_block it))) = addr ring s off"
  shows "c_packets (cmem_of L ver v3 ring (sl_mem s)) it = chain L s off k"
  using assms(4-7)
proof (induction k arbitrary: off it)
  case 0
  then show ?case by (simp add: c_packets.simps testimony_iter_next_def unat_eq_zero)
next
  case (Suc k)
  let ?M = "cmem_of L ver v3 ring (sl_mem s)" and ?p = "addr ring s off"
  let ?it = "it\<lparr>it_left := it_left it - 1, it_pkt := ?p\<rparr>"
  have ch: "0 < off" "off < int (sl_len s)"
    "off + uint (at (tp_mac L) s off) + uint (at (tp_snaplen L) s off) \<le> int (sl_len s)"
    "chain_ok L s (off + uint (at (tp_next_offset L) s off)) k"
    using Suc.prems(1) by simp_all
  have len: "length (sl_mem s) < 2 ^ 64" using assms(2) by simp
  have in_mem: "sl_off s + nat off < length (sl_mem s)" using ch(1,2) assms(1) by (auto simp: slice_ok_def)
  then have pos: "unat (?p - ring) = sl_off s + nat off" using addr_pos len by simp
  have "unat ?p = unat ring + (sl_off s + nat off)"
    using in_mem assms(2) by (simp add: addr_def unat_word_ariths unsigned_of_nat take_bit_nat_eq_self del: of_nat_add)
  moreover have "0 < unat ring" using assms(3) by (simp add: unat_gt_0)
  ultimately have p: "?p \<noteq> 0" by (metis add_gr_0 less_irrefl unsigned_0)
  have left: "it_left it \<noteq> 0" using Suc.prems(3) by auto
  have left2: "unat (it_left it - 1) = k" using unat_minus_one [OF left] Suc.prems(3) by simp
  have "testimony_iter_next ?M it = (?p, ?it)"
    using left Suc.prems(4) by (cases "it_pkt it = 0") (simp_all add: testimony_iter_next_def Let_def)
  then have "c_packets ?M it = packet_bytes ?M ?p # c_packets ?M ?it" using p by (simp add: c_packets.simps [of ?M it])
  moreover have "c_packets ?M ?it = chain L s (off + uint (at (tp_next_offset L) s off)) k"
  proof (rule Suc.IH [OF ch(4)])
    show "0 \<le> off + uint (at (tp_next_offset L) s off)" using ch(1) by simp
    show "unat (it_left ?it) = k" using left2 by simp
    have "m_tp_next_offset ?M ?p = at (tp_next_offset L) s off" by (simp add: cmem_of_def at_def pos)
    then show "(if it_pkt ?it \<noteq> 0 then it_pkt ?it + ucast (m_tp_next_offset ?M (it_pkt ?it))
        else it_block ?it + ucast (m_offset_to_first_pkt ?M (it_block ?it))) = addr ring s (off + uint (at (tp_next_offset L) s off))"
      using p ch(1) addr_add [of off "uint (at (tp_next_offset L) s off)" ring s] by (simp add: ucast_of_nat_unat)
  qed
  ultimately show ?case using packet_bytes_chain [OF ch(1,3) assms(1) len] by simp
qed

text \<open>C26: the two client libraries see the same packets.  On a block whose headers describe a chain of packets inside the block, the C
  iterator, started with \<^verbatim>\<open>testimony_iter_reset\<close> on the block's address in a ring mapped at any address, ends, and
  \<^verbatim>\<open>testimony_packet_data\<close> gives in turn exactly the bytes that \<^verbatim>\<open>PacketData\<close> gives in the loop over \<^verbatim>\<open>Next\<close>.\<close>

theorem iterators_agree:
  assumes "block_ok L (b_B b)" and "b_offset b = 0" and "ring \<noteq> 0" and "unat ring + length (sl_mem (b_B b)) < 2 ^ 64"
    and "m_version (cmem_of L ver v3 ring (sl_mem (b_B b))) (addr ring (b_B b) 0) = v3"
    and "unat (at (num_pkts L) (b_B b) 0) < fuel"
  shows "\<exists>it' b'. testimony_iter_reset (cmem_of L ver v3 ring (sl_mem (b_B b))) it (addr ring (b_B b) 0) = (0, it') \<and>
           all_packets L fuel b = Some (c_packets (cmem_of L ver v3 ring (sl_mem (b_B b))) it', b')"
proof -
  let ?s = "b_B b" and ?M = "cmem_of L ver v3 ring (sl_mem (b_B b))" and ?a = "addr ring (b_B b) 0"
  let ?it = "it\<lparr>it_block := ?a, it_left := m_num_pkts ?M ?a, it_pkt := 0\<rparr>"
  let ?off = "uint (at (offset_to_first_pkt L) ?s 0)"
  have ok: "slice_ok ?s" "chain_ok L ?s ?off (unat (at (num_pkts L) ?s 0))" using assms(1) by (simp_all add: block_ok_def)
  have pos: "unat (?a - ring) = sl_off ?s" using addr_pos [of ?s 0] ok(1) assms(4) by (simp add: slice_ok_def)
  have "m_TPACKET_V3 ?M = v3" by (simp add: cmem_of_def)
  then have reset: "testimony_iter_reset ?M it ?a = (0, ?it)" using assms(5) by (simp add: testimony_iter_reset_def)
  have num: "m_num_pkts ?M ?a = at (num_pkts L) ?s 0" "m_offset_to_first_pkt ?M ?a = at (offset_to_first_pkt L) ?s 0"
    by (simp_all add: cmem_of_def at_def pos)
  have "c_packets ?M ?it = chain L ?s ?off (unat (at (num_pkts L) ?s 0))"
    using num addr_add [of 0 ?off ring ?s]
    by (intro c_packets_chain [OF ok(1) assms(4,3) ok(2)]) (simp_all add: ucast_of_nat_unat)
  then have "c_packets ?M ?it = block_packets L ?s" by (simp add: block_packets_def)
  moreover obtain b' where "all_packets L fuel b = Some (block_packets L ?s, b')"
    using all_packets_block [OF assms(2,1,6)] by blast
  ultimately show ?thesis using reset by (intro exI [of _ ?it] exI [of _ b']) simp
qed

theorem iterators_agree_witness:
  "\<exists>it' b'. testimony_iter_reset (cmem_of demo_layout (\<lambda>m i. 2) 2 0x10000 (sl_mem (b_B demo_block)))
       \<lparr>it_block = 0, it_pkt = 0, it_left = 0\<rparr> 0x10000 = (0, it') \<and>
     all_packets demo_layout 3 demo_block =
       Some (c_packets (cmem_of demo_layout (\<lambda>m i. 2) 2 0x10000 (sl_mem (b_B demo_block))) it', b')"
proof -
  have "block_ok demo_layout (b_B demo_block)" "unat (at (num_pkts demo_layout) (b_B demo_block) 0) < 3" by code_simp+
  moreover have "b_offset demo_block = 0" "addr 0x10000 (b_B demo_block) 0 = 0x10000"
    "unat (0x10000 :: uintptr) + length (sl_mem (b_B demo_block)) < 2 ^ 64"
    by (simp_all add: demo_block_def new_Block_def addr_def)
  ultimately show ?thesis
    using iterators_agree [of demo_layout demo_block "0x10000" "\<lambda>m i. 2" 2 3 "\<lparr>it_block = 0, it_pkt = 0, it_left = 0\<rparr>"]
    by (simp add: cmem_of_def)
qed

end
