(* ===== verification/Cmain.thy ===== *)
theory Cmain
  imports Citer
begin

text \<open>
  The C test client (\<^verbatim>\<open>c/testimony_client.c\<close>): option handling and the main loop, which dumps packets until its count is used up and then
  closes the connection.
\<close>

section \<open>Options\<close>

record cflags =
  flag_socket :: string
  flag_fanout_index :: i32
  flag_count :: i32
  flag_dump :: bool

text \<open>\<^verbatim>\<open>atoi\<close>: leading spaces, a sign, the digits up to the first other character; the value of \<^verbatim>\<open>strtol\<close>, which stops at the
  limits of a \<^verbatim>\<open>long\<close>, as an \<^verbatim>\<open>int\<close>.\<close>

definition c_space :: "char \<Rightarrow> bool" where
  "c_space ch \<longleftrightarrow> of_char ch \<in> {9 :: int, 10, 11, 12, 13, 32}"

fun atoi_digits :: "int \<Rightarrow> string \<Rightarrow> int" where
  "atoi_digits acc [] = acc"
| "atoi_digits acc (ch # cs) =
     (let d = (of_char ch :: int) - 48 in if 0 \<le> d \<and> d \<le> 9 then atoi_digits (acc * 10 + d) cs else acc)"

definition atoi :: "string \<Rightarrow> i32" where
  "atoi s =
     (let s = dropWhile c_space s;
          v = (case s of
                 [] \<Rightarrow> 0
               | ch # cs \<Rightarrow> if ch = CHR ''-'' then - atoi_digits 0 cs
                           else if ch = CHR ''+'' then atoi_digits 0 cs else atoi_digits 0 (ch # cs))
      in word_of_int (max (- (2 ^ 63)) (min (2 ^ 63 - 1) v)))"

definition ParseOption :: "int \<Rightarrow> string \<Rightarrow> cflags \<Rightarrow> cflags" where
  "ParseOption key arg f =
     (if key = 300 then f\<lparr>flag_socket := arg\<rparr>
      else if key = 301 then f\<lparr>flag_fanout_index := atoi arg\<rparr>
      else if key = 302 then f\<lparr>flag_count := atoi arg\<rparr>
      else if key = 303 then f\<lparr>flag_dump := True\<rparr>
      else f)"

definition default_flags :: cflags where
  "default_flags = \<lparr>flag_socket = ''/path/to/socket'', flag_fanout_index = 0, flag_count = 0, flag_dump = False\<rparr>"

text \<open>\<^verbatim>\<open>argp_parse\<close> calls the function for each option in turn.\<close>

definition parse_flags :: "(int \<times> string) list \<Rightarrow> cflags" where
  "parse_flags opts = foldl (\<lambda>f (key, arg). ParseOption key arg f) default_flags opts"

section \<open>The main loop\<close>

text \<open>The loop over the packets of a block: the printed packets, the counter, whether it was used up, the iterator.\<close>

function c_dump :: "cmem \<Rightarrow> bool \<Rightarrow> i32 \<Rightarrow> testimony_iter \<Rightarrow> byte list list \<times> i32 \<times> bool \<times> testimony_iter" where
  "c_dump M dump count it =
     (case testimony_iter_next M it of
        (p, it') \<Rightarrow>
          if p = 0 then ([], count, False, it')
          else
            (let out = (if dump then [packet_bytes M p] else []); count = count - 1 in
             if count = 0 then (out, count, True, it')
             else
               (case c_dump M dump count it' of
                  (ps, count, fin, it'') \<Rightarrow> (out @ ps, count, fin, it''))))"
  by pat_completeness auto
termination
  by (relation "measure (\<lambda>(M, dump, count, it). unat (it_left it))") (auto dest: iter_next_less [OF sym])

declare c_dump.simps [simp del]

datatype c_end = ExitDone | Exit1 | Crash

lemma c_index_loop_less:
  "c_index_loop m t w = (Idx i, t', w') \<Longrightarrow> avail t' w' + length (polls w') < avail t w + length (polls w)"
proof (induction m t w rule: c_index_loop.induct)
  case (1 m t w)
  obtain q t1 w1 where q: "c_index_round m t w = (q, t1, w1)" by (cases "c_index_round m t w")
  show ?case
  proof (cases q)
    case RoundMore
    then have "c_index_loop m t1 w1 = (Idx i, t', w')" using "1.prems"(1) q by (simp add: c_index_loop.simps [of m t w])
    from "1.IH" [OF q [symmetric] RoundMore refl this] show ?thesis
      using c_index_round_less [of m t w t1 w1] q RoundMore by simp
  next
    case (RoundIdx v)
    then have "t' = t1" "w' = w1" using "1.prems" q by (simp_all add: c_index_loop.simps [of m t w])
    obtain p w2 where p: "poll_step m t w = (p, w2)" by force
    note pw = poll_step_work [OF p]
    have "recv_be_32 t w2 = (Some v, t1, w1)"
      using q p RoundIdx
      by (auto simp: c_index_round_def split: poll_out.splits prod.splits option.splits if_splits bool.splits)
    from recv_be_32_avail [OF this] recv_be_32_polls [OF this] pw show ?thesis
      using \<open>t' = t1\<close> \<open>w' = w1\<close> by simp
  qed (use "1.prems" q in \<open>simp_all add: c_index_loop.simps [of m t w]\<close>)
qed

lemma get_block_less:
  assumes "testimony_get_block npk m t w = Some (r, b, t', w')" and "b \<noteq> 0"
  shows "avail t' w' + length (polls w') < avail t w + length (polls w)"
proof -
  obtain q t1 w1 where q: "c_index_loop m t w = (q, t1, w1)" by (cases "c_index_loop m t w")
  show ?thesis
  proof (cases q)
    case (Idx i)
    then have "avail t' w' = avail t1 w1" "polls w' = polls w1"
      using assms q
      by (auto simp: testimony_get_block_def TERR_SET_def TERR_def Let_def avail_def split: if_splits option.splits)
    then show ?thesis using c_index_loop_less q Idx by fastforce
  qed (use assms q in \<open>auto simp: testimony_get_block_def TERR_SET_def Let_def split: if_splits\<close>)
qed

lemma return_block_keeps:
  assumes "testimony_return_block npk t b w = Some (r, t', w')"
  shows "avail t' w' = avail t w \<and> polls w' = polls w"
proof -
  have "answers w2 = answers w \<and> polls w2 = polls w" if "send_be_32 w v = (ok, w2)" for v ok w2
    using send_loop_sent [of w "set_be_32 v" ok w2] that by (auto simp: send_be_32_def)
  then show ?thesis
    using assms
    by (auto simp: testimony_return_block_def TERR_SET_def TERR_def Let_def avail_def split: if_splits option.splits prod.splits bool.splits)
qed

text \<open>The message about a block reads the block's header, so a NULL block crashes, as does a missing iterator.  The result of
  \<^verbatim>\<open>testimony_iter_reset\<close> is not looked at.\<close>

function c_main_loop ::
    "cmem \<Rightarrow> bool \<Rightarrow> i32 \<Rightarrow> testimony_iter option \<Rightarrow> testimony \<Rightarrow> os \<Rightarrow> c_end \<times> byte list list \<times> testimony \<times> os" where
  "c_main_loop M dump count iter t w =
     (case testimony_get_block (m_num_pkts M) (-1) t w of
        None \<Rightarrow> (Crash, [], t, w)
      | Some (r, block, t1, w1) \<Rightarrow>
          if r < 0 then (Exit1, [], t1, w1)
          else if block = 0 then (Crash, [], t1, w1)
          else
            (case iter of
               None \<Rightarrow> (Crash, [], t1, w1)
             | Some it \<Rightarrow>
                 (case c_dump M dump count (snd (testimony_iter_reset M it block)) of
                    (ps, count, fin, it') \<Rightarrow>
                      if fin then (ExitDone, ps, t1, w1)
                      else
                        (case testimony_return_block (m_num_pkts M) t1 block w1 of
                           None \<Rightarrow> (Crash, ps, t1, w1)
                         | Some (r, t2, w2) \<Rightarrow>
                             if r < 0 then (Exit1, ps, t2, w2)
                             else
                               (case c_main_loop M dump count (Some it') t2 w2 of
                                  (e, ps', t3, w3) \<Rightarrow> (e, ps @ ps', t3, w3))))))"
  by pat_completeness auto
termination
  by (relation "measure (\<lambda>(M, dump, count, iter, t, w). avail t w + length (polls w))")
     (auto dest!: get_block_less return_block_keeps)

declare c_main_loop.simps [simp del]

definition testimony_client_main ::
    "cenv \<Rightarrow> cmem \<Rightarrow> bool \<Rightarrow> cflags \<Rightarrow> os \<Rightarrow> c_end \<times> byte list list \<times> ccall list \<times> os" where
  "testimony_client_main env M malloc_ok f w =
     (case testimony_connect env (flag_socket f) w of
        (r, tp, calls, w) \<Rightarrow>
          if r < 0 then (Exit1, [], calls, w)
          else
            (case tp of
               None \<Rightarrow> (Crash, [], calls, w)
             | Some t \<Rightarrow>
                 (case testimony_init env (t\<lparr>t_fanout_index := flag_fanout_index f\<rparr>) w of
                    (r, t, w) \<Rightarrow>
                      if r < 0 then (Exit1, [], calls, w)
                      else
                        (case c_main_loop M (flag_dump f) (flag_count f) (snd (testimony_iter_init malloc_ok)) t w of
                           (ExitDone, ps, t, w) \<Rightarrow>
                             (case testimony_close env t w of (r, calls', w) \<Rightarrow> (ExitDone, ps, calls @ calls', w))
                         | (e, ps, t, w) \<Rightarrow> (e, ps, calls, w)))))"

section \<open>What is dumped\<close>

definition c_block_packets :: "cmem \<Rightarrow> uintptr \<Rightarrow> byte list list" where
  "c_block_packets M block = c_packets M \<lparr>it_block = block, it_pkt = 0, it_left = m_num_pkts M block\<rparr>"

lemma c_packets_reset:
  assumes "m_version M block = m_TPACKET_V3 M"
  shows "c_packets M (snd (testimony_iter_reset M it block)) = c_block_packets M block"
  using assms by (cases it) (simp add: testimony_iter_reset_def c_block_packets_def)

lemma small_count: "0 < k \<Longrightarrow> k < 2 ^ 32 \<Longrightarrow> (of_nat k :: i32) - 1 = of_nat (k - 1) \<and> ((of_nat k :: i32) - 1 = 0 \<longleftrightarrow> k = 1)"
proof -
  assume "0 < k" "k < 2 ^ 32"
  then obtain j where j: "k = Suc j" by (cases k) auto
  then have "unat (of_nat j :: i32) = j" using \<open>k < 2 ^ 32\<close> by (simp add: unsigned_of_nat take_bit_nat_eq_self)
  then have "(of_nat j :: i32) = 0 \<longleftrightarrow> j = 0" by (simp only: word_unat_eq_iff unsigned_0)
  with j show ?thesis by simp
qed

lemma c_dump_spec:
  assumes "0 < k" and "k < 2 ^ 32"
  shows "\<exists>it'. c_dump M True (of_nat k) it =
    (if k \<le> length (c_packets M it) then (take k (c_packets M it), 0, True, it')
     else (c_packets M it, of_nat (k - length (c_packets M it)), False, it'))"
  using assms
proof (induction M it arbitrary: k rule: c_packets.induct)
  case (1 M it)
  obtain p it1 where n: "testimony_iter_next M it = (p, it1)" by force
  show ?case
  proof (cases "p = 0")
    case True
    then show ?thesis using "1.prems" n by (simp add: c_dump.simps [of M True "of_nat k" it] c_packets.simps [of M it])
  next
    case False
    note sc = small_count [OF "1.prems"]
    have pk: "c_packets M it = packet_bytes M p # c_packets M it1" using n False by (simp add: c_packets.simps [of M it])
    show ?thesis
    proof (cases "k = 1")
      case True
      then show ?thesis using n False pk by (simp add: c_dump.simps [of M True 1 it])
    next
      case more: False
      then have nz: "(of_nat (k - 1) :: i32) \<noteq> 0" using sc by metis
      from more "1.prems" have k: "0 < k - 1" "k - 1 < 2 ^ 32" by simp_all
      obtain it2 where "c_dump M True (of_nat (k - 1)) it1 =
          (if k - 1 \<le> length (c_packets M it1) then (take (k - 1) (c_packets M it1), 0, True, it2)
           else (c_packets M it1, of_nat (k - 1 - length (c_packets M it1)), False, it2))"
        using "1.IH" [OF n [symmetric] False k] by blast
      moreover have "c_dump M True (of_nat k) it =
          (case c_dump M True (of_nat (k - 1)) it1 of (ps, c, fin, it') \<Rightarrow> (packet_bytes M p # ps, c, fin, it'))"
        using n False nz by (subst c_dump.simps) (simp add: Let_def conjunct1 [OF sc])
      moreover have "take k (packet_bytes M p # xs) = packet_bytes M p # take (k - 1) xs" for xs
        using "1.prems"(1) by (cases k) simp_all
      ultimately show ?thesis
        using pk "1.prems"(1) by (cases "k - 1 \<le> length (c_packets M it1)") (auto simp del: take_Cons')
    qed
  qed
qed

text \<open>Giving back a block that was just taken, on an open connection, leaves the handle as it was before.\<close>

lemma return_taken:
  assumes ready: "c_ready t1" and b: "b < unat (t_block_nr t1)" "block_ptr t1 b = p" "sends w1 = []"
    and counts: "c_counts t1 = cs[b := npk p]" "\<forall>c \<in> set cs. c = 0" "b < length cs"
  shows "\<exists>t2. testimony_return_block npk t1 p w1 = Some (0, t2, w1\<lparr>sent := sent w1 @ PutUint32 (of_nat b)\<rparr>) \<and> c_ready t2 \<and>
    block_ptr t2 = block_ptr t1 \<and> t_block_nr t2 = t_block_nr t1 \<and> (\<forall>c \<in> set (c_counts t2). c = 0) \<and>
    unread (t2, w1\<lparr>sent := sent w1 @ PutUint32 (of_nat b)\<rparr>) = unread (t1, w1)"
proof -
  let ?t = "t1\<lparr>t_block_counts := Some ((c_counts t1)[b := 0])\<rparr>"
  have len: "length ((c_counts t1)[b := 0]) = unat (t_block_nr t1)" using c_ready_counts(2) [OF ready] by simp
  note st = c_ready_set_counts [OF ready len]
  have "testimony_return_block npk t1 p w1 = Some (0, ?t, w1\<lparr>sent := sent w1 @ PutUint32 (of_nat b)\<rparr>)"
    using return_block_ok [OF ready, of b w1 npk] b counts(1,3) by simp
  moreover have "\<forall>c \<in> set (c_counts ?t). c = 0"
    using st(2) counts(1,2) set_update_subset_insert [of cs b 0] by auto
  ultimately show ?thesis
    using st(1,3) by (intro exI [of _ ?t]) (auto simp: unread_def buffered_def)
qed

text \<open>The C test client with \<^verbatim>\<open>--dump\<close> and \<^verbatim>\<open>--count=k\<close> prints exactly the first \<open>k\<close> packets of the announced blocks, in order, and ends,
  when the announced blocks hold that many; every block before the one with the last packet has been
  returned to the daemon, in order.\<close>

theorem c_client_dumps:
  assumes "c_ready t" and "unread (t, w) = indexes bs" and "\<forall>b \<in> set bs. b < unat (t_block_nr t) \<and> b < 2 ^ 31"
    and "\<forall>b \<in> set bs. m_version M (block_ptr t b) = m_TPACKET_V3 M \<and> block_ptr t b \<noteq> 0"
    and "\<forall>c \<in> set (c_counts t). c = 0" and "sends w = []" and "0 < k" and "k < 2 ^ 32"
    and "k \<le> length (concat (map (\<lambda>b. c_block_packets M (block_ptr t b)) bs))"
  shows "\<exists>t' w' m. c_main_loop M True (of_nat k) (Some it) t w =
      (ExitDone, take k (concat (map (\<lambda>b. c_block_packets M (block_ptr t b)) bs)), t', w') \<and>
    m < length bs \<and> sent w' = sent w @ indexes (take m bs)"
  using assms
proof (induction bs arbitrary: t w k it)
  case Nil
  then show ?case by simp
next
  case (Cons b bs)
  let ?npk = "m_num_pkts M" and ?ps = "c_block_packets M (block_ptr t b)"
  have b: "b < unat (t_block_nr t)" "b < 2 ^ 31" "c_counts t ! b = 0" "block_ptr t b \<noteq> 0"
    using Cons.prems(3,4,5) c_ready_index(4) [OF Cons.prems(1), of b] by auto
  obtain t1 w1 where g: "testimony_get_block ?npk (-1) t w = Some (0, block_ptr t b, t1, w1)" "c_ready t1" "block_ptr t1 = block_ptr t"
    "t_block_nr t1 = t_block_nr t" "c_counts t1 = (c_counts t)[b := ?npk (block_ptr t b)]" "unread (t1, w1) = indexes bs"
    "sends w1 = sends w" "sent w1 = sent w"
    using get_block_announced [OF Cons.prems(1), of "-1" w b "indexes bs" ?npk] b Cons.prems(2) by auto
  have pk: "c_packets M (snd (testimony_iter_reset M it (block_ptr t b))) = ?ps"
    using c_packets_reset Cons.prems(4) by auto
  obtain it1 where d: "c_dump M True (of_nat k) (snd (testimony_iter_reset M it (block_ptr t b))) =
      (if k \<le> length ?ps then (take k ?ps, 0, True, it1) else (?ps, of_nat (k - length ?ps), False, it1))"
    using c_dump_spec [OF Cons.prems(7,8), of M "snd (testimony_iter_reset M it (block_ptr t b))"] unfolding pk by blast
  show ?case
  proof (cases "k \<le> length ?ps")
    case True
    then show ?thesis
      using g(1,8) b(4) d by (intro exI [of _ t1] exI [of _ w1] exI [of _ 0]) (simp add: c_main_loop.simps [of M True "of_nat k" _ t w])
  next
    case False
    have bl: "b < length (c_counts t)" using c_ready_index(4) [OF Cons.prems(1) b(1)] .
    let ?w = "w1\<lparr>sent := sent w1 @ PutUint32 (of_nat b)\<rparr>"
    obtain t2 where ret: "testimony_return_block ?npk t1 (block_ptr t b) w1 = Some (0, t2, ?w)" "c_ready t2"
      "block_ptr t2 = block_ptr t" "t_block_nr t2 = t_block_nr t" "\<forall>c \<in> set (c_counts t2). c = 0" "unread (t2, ?w) = indexes bs"
      using return_taken [OF g(2), of b "block_ptr t b" w1 "c_counts t" ?npk] b(1) g Cons.prems(5,6) bl by auto
    have j: "0 < k - length ?ps" "k - length ?ps < 2 ^ 32" using False Cons.prems(8) by auto
    have "\<exists>t' w' m. c_main_loop M True (of_nat (k - length ?ps)) (Some it1) t2 ?w =
        (ExitDone, take (k - length ?ps) (concat (map (\<lambda>b. c_block_packets M (block_ptr t2 b)) bs)), t', w') \<and>
        m < length bs \<and> sent w' = sent ?w @ indexes (take m bs)"
      using Cons.prems(3,4,6,9) ret(3,4) j g(7) by (intro Cons.IH [OF ret(2,6) _ _ ret(5)]) auto
    then obtain t' w' m where "c_main_loop M True (of_nat (k - length ?ps)) (Some it1) t2 ?w =
        (ExitDone, take (k - length ?ps) (concat (map (\<lambda>b. c_block_packets M (block_ptr t b)) bs)), t', w')"
        "m < length bs" "sent w' = sent ?w @ indexes (take m bs)"
      unfolding ret(3) by blast
    then show ?thesis
      using g(1,8) b(4) d ret(1) False
      by (intro exI [of _ t'] exI [of _ w'] exI [of _ "Suc m"]) (simp add: c_main_loop.simps [of M True "of_nat k" _ t w])
  qed
qed

definition demo_cmem :: cmem where
  "demo_cmem =
     \<lparr>m_version = (\<lambda>a. 2), m_num_pkts = (\<lambda>a. 1), m_offset_to_first_pkt = (\<lambda>a. 16), m_tp_next_offset = (\<lambda>a. 0), m_tp_mac = (\<lambda>a. 4),
      m_tp_snaplen = (\<lambda>a. 2), m_tp_sec = (\<lambda>a. 0), m_tp_nsec = (\<lambda>a. 0), m_byte = (\<lambda>a. ucast a), m_TPACKET_V3 = 2\<rparr>"

definition demo_idle :: testimony where
  "demo_idle = demo_handle\<lparr>t_block_counts := Some [0, 0]\<rparr>"

lemma demo_idle_ready: "c_ready demo_idle" "c_counts demo_idle = [0, 0]" "unat (t_block_nr demo_idle) = 2" "block_ptr demo_idle (Suc 0) = 0x11000"
  by (simp_all add: c_ready_def demo_idle_def demo_handle_def zero_testimony_def c_counts_def buf_ok_def block_ptr_def)

lemma demo_cmem_fields:
  "m_version demo_cmem a = 2" "m_num_pkts demo_cmem a = 1" "m_offset_to_first_pkt demo_cmem a = 16" "m_tp_next_offset demo_cmem a = 0"
  "m_tp_mac demo_cmem a = 4" "m_tp_snaplen demo_cmem a = 2" "m_byte demo_cmem a = ucast a" "m_TPACKET_V3 demo_cmem = 2"
  by (simp_all add: demo_cmem_def)

lemma demo_packets: "c_block_packets demo_cmem 0x11000 = [[20, 21]]"
  by (simp add: c_block_packets_def c_packets.simps [of demo_cmem] testimony_iter_next_def demo_cmem_fields packet_bytes_def
      testimony_packet_data_def upt_rec)

theorem c_client_dumps_witness:
  "\<exists>t' w'. c_main_loop demo_cmem True 1 (Some \<lparr>it_block = 0, it_pkt = 0, it_left = 0\<rparr>) demo_idle
       (demo_os\<lparr>answers := [RData [0, 0, 0, 1]]\<rparr>) = (ExitDone, [[20, 21]], t', w') \<and> sent w' = []"
proof -
  let ?w = "demo_os\<lparr>answers := [RData [0, 0, 0, 1]]\<rparr>"
  have un: "unread (demo_idle, ?w) = indexes [1]"
    by (simp add: unread_def buffered_def demo_idle_def demo_handle_def zero_testimony_def PutUint32_def)
  have "\<forall>b \<in> set [1]. b < unat (t_block_nr demo_idle) \<and> b < 2 ^ 31"
    "\<forall>b \<in> set [1]. m_version demo_cmem (block_ptr demo_idle b) = m_TPACKET_V3 demo_cmem \<and> block_ptr demo_idle b \<noteq> 0"
    "\<forall>c \<in> set (c_counts demo_idle). c = 0" "sends ?w = []" "0 < (1 :: nat)" "(1 :: nat) < 2 ^ 32"
    "1 \<le> length (concat (map (\<lambda>b. c_block_packets demo_cmem (block_ptr demo_idle b)) [1]))"
    by (simp_all add: demo_idle_ready demo_packets demo_os_def demo_cmem_fields)
  from c_client_dumps [OF demo_idle_ready(1) un this, of "\<lparr>it_block = 0, it_pkt = 0, it_left = 0\<rparr>"] show ?thesis
    by (simp add: demo_idle_ready demo_packets demo_os_def)
qed

end
