(* ===== verification/Csystem.thy ===== *)
theory Csystem
  imports System Cmain
begin

text \<open>
  Daemon and C client library together.
\<close>

lemma hello_bytes_words:
  "[2] @ hello_bytes ns conf =
     [2] @ PutUint32 (ToTL TypeFanoutSize 4) @ PutUint32 (of_nat ns) @ PutUint32 (ToTL TypeBlockSize 4) @
       PutUint32 (word_of_int (BlockSize conf)) @ PutUint32 (ToTL TypeNumBlocks 4) @ PutUint32 (word_of_int (NumBlocks conf)) @
       PutUint32 (ToTL TypeWaitingForFanoutIndex 0)"
  by (simp add: hello_bytes_def)

lemma word_of_int_32_64:
  assumes "0 \<le> x" and "x < 2 ^ 32"
  shows "(ucast (word_of_int x :: u32) :: uintptr) = word_of_int x" "uint (word_of_int x :: uintptr) = x" "unat (word_of_int x :: uintptr) = nat x"
proof -
  show u: "uint (word_of_int x :: uintptr) = x" using assms by (simp add: unsigned_of_int take_bit_int_eq_self)
  show "(ucast (word_of_int x :: u32) :: uintptr) = word_of_int x"
    using u uint_of_small [OF assms] by (simp only: word_uint_eq_iff uint_ucast64)
  show "unat (word_of_int x :: uintptr) = nat x" using u by (simp only: unat_eq_nat_uint)
qed

lemma conf_words:
  assumes "conf_ok ns conf"
  shows "(of_nat ns :: u32) \<noteq> 0" "(word_of_int (BlockSize conf) :: u32) \<noteq> 0" "(word_of_int (NumBlocks conf) :: u32) \<noteq> 0"
proof -
  have "uint (of_nat ns :: u32) = int ns" using assms by (simp add: conf_ok_def unsigned_of_nat take_bit_nat_eq_self)
  then show "(of_nat ns :: u32) \<noteq> 0" using assms by (auto simp: conf_ok_def)
  show "(word_of_int (BlockSize conf) :: u32) \<noteq> 0" "(word_of_int (NumBlocks conf) :: u32) \<noteq> 0"
    using assms uint_of_small [of "BlockSize conf"] uint_of_small [of "NumBlocks conf"] by (auto simp: conf_ok_def)
qed

text \<open>\<^verbatim>\<open>testimony_connect\<close> and \<^verbatim>\<open>testimony_init\<close> against a server that greets with the sizes of \<open>conf\<close>, then passes a descriptor with the byte \<open>z\<close>.\<close>

lemma c_connect_init:
  assumes "conf_ok ns conf" and env: "v_malloc env" "v_socket env = Inr sfd" "v_bind env = None"
      "v_connect env (take 107 name) = Inr (as @ RData (z # bs) # as2)" "first_rights (v_ctrl env) = Some fd" "0 \<le> fd" "v_calloc env"
      "v_mmap env fd (word_of_int (BlockSize conf) * word_of_int (NumBlocks conf)) = Inr ring"
    and greet: "only_data as" "stream as = [2] @ hello_bytes ns conf" and "sends w = []"
  shows "\<exists>t w1 t' w2. testimony_connect env name w = (0, Some t, [], w1) \<and>
    testimony_init env (t\<lparr>t_fanout_index := of_nat idx\<rparr>) w1 = (0, t', w2) \<and>
    t_fanout_size t' = of_nat ns \<and> t_block_size t' = word_of_int (BlockSize conf) \<and> t_block_nr t' = word_of_int (NumBlocks conf) \<and>
    t_sock_fd t' = sfd \<and> t_afpacket_fd t' = fd \<and> t_ring t' = ring \<and> buf_ok t' \<and>
    t_block_counts t' = Some (replicate (nat (NumBlocks conf)) 0) \<and> unread (t', w2) = bs @ stream as2 \<and>
    sent w2 = sent w @ choice_bytes idx \<and> sends w2 = []"
proof -
  note nz = conf_words [OF assms(1)]
  have cb: "0 \<le> BlockSize conf" "BlockSize conf < 2 ^ 32" "0 \<le> NumBlocks conf" "NumBlocks conf < 2 ^ 32"
    using assms(1) by (simp_all add: conf_ok_def)
  obtain t w1 where c: "testimony_connect env name w = (0, Some t, [], w1)" "answers w1 = RData (z # bs) # as2" "buffered t = []" "buf_ok t"
    "c_sizes t = (of_nat ns, ucast (word_of_int (BlockSize conf) :: u32), ucast (word_of_int (NumBlocks conf) :: u32))" "t_ring t = 0"
    "t_sock_fd t = sfd" "sends w1 = sends w" "sent w1 = sent w"
    using testimony_connect_hello [OF env(1-4) greet(1) _ nz, of w] greet(2) unfolding hello_bytes_words by blast
  have sz: "t_fanout_size t = of_nat ns" "t_block_size t = word_of_int (BlockSize conf)" "t_block_nr t = word_of_int (NumBlocks conf)"
    using c(5) word_of_int_32_64(1) cb by (simp_all add: c_sizes_def)
  let ?t = "t\<lparr>t_fanout_index := of_nat idx\<rparr>"
  let ?w = "w1\<lparr>sent := sent w1 @ PutUint32 (ToTL TypeFanoutIndex 4) @ PutUint32 (of_nat idx), answers := if bs = [] then as2 else RData bs # as2\<rparr>"
  let ?t' = "?t\<lparr>t_afpacket_fd := fd, t_block_counts := Some (replicate (unat (t_block_nr t)) 0), t_ring := ring\<rparr>"
  have "testimony_init env ?t w1 = (0, ?t', ?w)"
    using testimony_init_ok [of ?t w1 z bs as2 env fd ring] c env sz assms(12) by simp
  moreover have "unread (?t', ?w) = bs @ stream as2" using c(3) by (simp add: unread_def buffered_def)
  moreover have "buf_ok ?t'" using c(4) by (simp add: buf_ok_def)
  ultimately show ?thesis
    using c(1,7,8,9) sz word_of_int_32_64(3) cb assms(12)
    by (intro exI [of _ t] exI [of _ w1] exI [of _ ?t'] exI [of _ ?w]) (simp add: choice_bytes_def)
qed

text \<open>If the ring lies inside the address space, the handle is then ready for \<^verbatim>\<open>testimony_get_block\<close>.\<close>

lemma c_connect_ready:
  assumes conf: "conf_ok ns conf" and env: "v_malloc env" "v_socket env = Inr sfd" "v_bind env = None"
      "v_connect env (take 107 name) = Inr (as @ RData (z # bs) # as2)" "first_rights (v_ctrl env) = Some fd" "0 \<le> fd" "v_calloc env"
      "v_mmap env fd (word_of_int (BlockSize conf) * word_of_int (NumBlocks conf)) = Inr ring"
    and greet: "only_data as" "stream as = [2] @ hello_bytes ns conf" and w: "sends w = []"
    and space: "sfd \<noteq> 0" "ring \<noteq> 0" "int (unat ring) + BlockSize conf * NumBlocks conf < 2 ^ 64"
  shows "\<exists>t w1 t' w2. testimony_connect env name w = (0, Some t, [], w1) \<and>
    testimony_init env (t\<lparr>t_fanout_index := of_nat idx\<rparr>) w1 = (0, t', w2) \<and> c_ready t' \<and>
    unat (t_block_size t') = nat (BlockSize conf) \<and> unat (t_block_nr t') = nat (NumBlocks conf) \<and>
    t_afpacket_fd t' = fd \<and> t_ring t' = ring \<and> set (c_counts t') = {0} \<and> unread (t', w2) = bs @ stream as2 \<and>
    sent w2 = sent w @ choice_bytes idx \<and> sends w2 = []"
proof -
  have cb: "0 < BlockSize conf" "BlockSize conf < 2 ^ 32" "0 < NumBlocks conf" "NumBlocks conf < 2 ^ 32"
    using conf by (simp_all add: conf_ok_def)
  obtain t w1 t' w2 where c: "testimony_connect env name w = (0, Some t, [], w1)"
    "testimony_init env (t\<lparr>t_fanout_index := of_nat idx\<rparr>) w1 = (0, t', w2)"
    "t_block_size t' = word_of_int (BlockSize conf)" "t_block_nr t' = word_of_int (NumBlocks conf)"
    "t_sock_fd t' = sfd" "t_afpacket_fd t' = fd" "t_ring t' = ring" "buf_ok t'"
    "t_block_counts t' = Some (replicate (nat (NumBlocks conf)) 0)" "unread (t', w2) = bs @ stream as2" "sent w2 = sent w @ choice_bytes idx"
    "sends w2 = []"
    using c_connect_init [OF conf env greet w, of idx] by blast
  have sizes: "unat (t_block_size t') = nat (BlockSize conf)" "unat (t_block_nr t') = nat (NumBlocks conf)"
    using c(3,4) word_of_int_32_64(3) cb by simp_all
  have "int (unat ring + nat (BlockSize conf) * nat (NumBlocks conf)) < int (2 ^ 64)" using space(3) cb by simp
  then have "unat ring + nat (BlockSize conf) * nat (NumBlocks conf) < 2 ^ 64" unfolding of_nat_less_iff .
  moreover have "nat (NumBlocks conf) < 2 ^ 32" "0 < nat (BlockSize conf)" using cb by (simp_all add: nat_less_iff)
  moreover have "t_block_size t' \<noteq> 0" using sizes(1) calculation(3) by auto
  ultimately have "c_ready t'" using c sizes space(1,2) by (simp add: c_ready_def)
  moreover have "set (c_counts t') = {0}" using c(9) cb(3) by (simp add: c_counts_def)
  ultimately show ?thesis
    using c sizes by (intro exI [of _ t] exI [of _ w1] exI [of _ t'] exI [of _ w2]) simp
qed

lemma block_ptr_nonzero:
  assumes "c_ready t" and "i < unat (t_block_nr t)"
  shows "block_ptr t i \<noteq> 0"
proof -
  let ?a = "unat (t_ring t) + unat (t_block_size t) * i"
  have "unat (t_block_size t) * i \<le> unat (t_block_size t) * unat (t_block_nr t)" using assms(2) by (intro mult_le_mono2) simp
  moreover have "unat (t_ring t) + unat (t_block_size t) * unat (t_block_nr t) < 2 ^ 64" using assms(1) by (simp add: c_ready_def)
  ultimately have a: "?a < 2 ^ 64" by linarith
  have "0 < unat (t_ring t)" using assms(1) by (simp add: c_ready_def unat_gt_0)
  then have "unat (of_nat ?a :: uintptr) \<noteq> 0" using a by (simp only: unsigned_of_nat) (simp add: take_bit_nat_eq_self)
  moreover have "block_ptr t i = of_nat ?a" by (simp add: block_ptr_def)
  ultimately show ?thesis by (metis unsigned_0)
qed

text \<open>What a successful \<^verbatim>\<open>testimony_return_block\<close> writes.\<close>

lemma return_block_bytes:
  assumes "c_ready t" and "i < unat (t_block_nr t)" and "errs_ok w" and "testimony_return_block npk t (block_ptr t i) w = Some (0, t', w')"
  shows "sent w' = sent w @ PutUint32 (of_nat i)"
proof -
  obtain ok w1 where s: "send_be_32 w (of_nat i) = (ok, w1)" by force
  then have "ok \<or> 0 < errno w1" using send_loop_errs assms(3) by (auto simp: send_be_32_def)
  moreover have "ok \<and> w' = w1 \<or> \<not> ok \<and> errno w1 = 0"
    using assms(4) s c_ready_index [OF assms(1,2)]
    by (auto simp: testimony_return_block_def TERR_SET_def Let_def errno_defs split: if_splits bool.splits)
  ultimately show ?thesis using send_be_32_sent [of w "of_nat i" w1] s by auto
qed

end
