(* ===== verification/Session.thy ===== *)
theory Session
  imports Csystem
begin

text \<open>
  Whole sessions: the daemon's handshake and goroutines on one side, a complete test client on the other.
  The client's program connects, chooses a socket, reads the announced blocks, prints their packets and returns the
  blocks; the only link between the two sides is that the client receives the bytes that the daemon writes.
\<close>

section \<open>The daemon's side\<close>

text \<open>A connection \<open>sc\<close> on which the client chooses socket \<open>idx\<close> goes through \<^verbatim>\<open>handle\<close> and is registered with that socket, which is in
  state \<open>s\<close>; after the further events \<open>es\<close> the socket is in state \<open>s'\<close> and everything taken for the client has been
  written to it.\<close>

definition daemon_session :: "sock_info list \<Rightarrow> nat \<Rightarrow> nat \<Rightarrow> uconn \<Rightarrow> event list \<Rightarrow> socket \<Rightarrow> socket \<Rightarrow> bool" where
  "daemon_session socks idx n sc es s s' \<longleftrightarrow>
     conf_ok (length socks) (si_conf (hd socks)) \<and> NumBlocks (si_conf (hd socks)) = int n \<and> n \<le> 2 ^ 31 \<and>
     idx < length socks \<and> \<not> uclosed sc \<and> wroom sc = None \<and> wbytes sc = [] \<and> pending sc = choice_bytes idx \<and>
     reach n s \<and> few_conns s' \<and> c_pc (conns s' ! length (conns s)) = CSelect \<and>
     (case handle socks sc of
        HandleHandoff i sc' \<Rightarrow> i = idx \<and> run_events (ENewConn sc' # es) s = Some s'
      | _ \<Rightarrow> False)"

text \<open>What the daemon has written to the client number \<open>c\<close>.\<close>

definition client_stream :: "socket \<Rightarrow> nat \<Rightarrow> byte list" where
  "client_stream s c = wbytes (sock (conns s ! c))"

lemma daemon_session_stream:
  assumes "daemon_session socks idx n sc es s s'" and "c = length (conns s)"
  shows "\<exists>bs. client_stream s' c = [2] @ hello_bytes (length socks) (si_conf (hd socks)) @ [0] @ indexes bs \<and>
           ring_run n (bs @ pipeline s' c) (blockIndex s') \<and> (\<forall>b \<in> set bs. b < n)"
proof -
  let ?conf = "si_conf (hd socks)"
  have d: "idx < length socks" "\<not> uclosed sc" "wroom sc = None" "wbytes sc = []" "pending sc = choice_bytes idx @ []"
      "reach n s" "few_conns s'" "c_pc (conns s' ! c) = CSelect" "0 < n" "length socks < 2 ^ 32"
    using assms by (auto simp: daemon_session_def conf_ok_def)
  obtain sc' where sc': "handle socks sc = HandleHandoff idx sc'" "wbytes sc' = [2] @ hello_bytes (length socks) ?conf @ [0]"
    using handle_ok [OF d(2,3,5,1,10)] d(4) by auto
  then have run: "run_events (ENewConn sc' # es) s = Some s'" using assms(1) by (simp add: daemon_session_def)
  obtain bs where bs: "client_stream s' c = wbytes sc' @ indexes bs" "ring_run n (bs @ pipeline s' c) (blockIndex s')"
    using ring_order_from_start [OF d(6,9) run d(7) assms(2)] d(8) by (auto simp: client_stream_def)
  moreover have "\<forall>b \<in> set bs. b < n" using ring_run_bound [OF bs(2)] by auto
  ultimately show ?thesis using sc'(2) by auto
qed

lemma indexes_eq:
  "\<forall>a \<in> set as. a < 2 ^ 32 \<Longrightarrow> \<forall>b \<in> set bs. b < 2 ^ 32 \<Longrightarrow> indexes as = indexes bs \<Longrightarrow> as = bs"
proof (induction as arbitrary: bs)
  case Nil
  then show ?case by (cases bs) auto
next
  case (Cons a as)
  then obtain b bs' where bs: "bs = b # bs'" by (cases bs) auto
  with Cons.prems(3) have "(of_nat a :: u32) = of_nat b" "indexes as = indexes bs'" by auto
  moreover have "unat (of_nat x :: u32) = x" if "x < 2 ^ 32" for x
    using that by (simp add: unsigned_of_nat take_bit_nat_eq_self)
  ultimately show ?case using Cons bs by (metis list.set_intros(1,2))
qed

section \<open>The Go test client\<close>

text \<open>C22: a whole session of the Go test client.  If the client receives what the daemon writes to its connection, in whatever
  pieces, then the program connects and initialises, and the blocks announced to it are ring-consecutive and,
  continued by the blocks still in the daemon's channels, end at the block the daemon waits for; asked for \<open>m\<close> packets that these
  blocks hold, the program prints exactly the first \<open>m\<close> packets of these blocks of the shared ring, in order, and ends; it has
  written its choice of socket and the numbers of the blocks that it finished, in the order in which it received them.\<close>

theorem go_session_dumps:
  assumes d: "daemon_session socks idx n sc es s s'" "c = length (conns s)"
    and client: "\<not> uclosed k" "wroom k = None" "wbytes k = []" "[] \<notin> set (rchunks k)" "pending k = client_stream s' c"
    and machine: "localSocketName env = Some lname" "e_dial env lname name = Some k"
      "oob_msgs (e_oob env) = Some [Rights [fd]]" "oob_len (e_oob env) < 1024"
      "e_mmap env fd (wrap64 (BlockSize (si_conf (hd socks)) * NumBlocks (si_conf (hd socks)))) = Some mem"
      "int (length mem) = BlockSize (si_conf (hd socks)) * NumBlocks (si_conf (hd socks))"
  shows "\<exists>bs t. client_stream s' c = [2] @ hello_bytes (length socks) (si_conf (hd socks)) @ [0] @ indexes bs \<and>
           ring_run n (bs @ pipeline s' c) (blockIndex s') \<and>
           announces t bs \<and> c_ring t = Some mem \<and> c_numBlocks t = int n \<and> c_blockSize t = BlockSize (si_conf (hd socks)) \<and>
           (bs \<noteq> [] \<and> int m < 2 ^ 63 \<and> m \<le> length (announced_packets L t bs) \<and>
            (\<forall>b \<in> set bs. block_ok L (ring_block t b) \<and> length (block_packets L (ring_block t b)) < fuel) \<longrightarrow>
            (\<exists>t' j. testclient_main env L fuel name (int idx) True (int m) = (TcDone, take m (announced_packets L t bs), m, t') \<and>
               0 < j \<and> j \<le> length bs \<and> written t' = choice_bytes idx @ indexes (take j bs)))"
proof -
  let ?conf = "si_conf (hd socks)"
  obtain bs where bs: "client_stream s' c = [2] @ hello_bytes (length socks) ?conf @ [0] @ indexes bs"
      "ring_run n (bs @ pipeline s' c) (blockIndex s')" "\<forall>b \<in> set bs. b < n"
    using daemon_session_stream [OF d] by blast
  have conf: "conf_ok (length socks) ?conf" "NumBlocks ?conf = int n" "n \<le> 2 ^ 31"
    using d(1) by (simp_all add: daemon_session_def)
  have size: "BlockSize ?conf * NumBlocks ?conf < 2 ^ 63"
  proof -
    have "BlockSize ?conf * NumBlocks ?conf \<le> BlockSize ?conf * 2 ^ 31"
      using conf by (intro mult_left_mono) (simp_all add: conf_ok_def)
    also have "\<dots> < 2 ^ 32 * 2 ^ 31" using conf(1) by (intro mult_strict_right_mono) (simp_all add: conf_ok_def)
    finally show ?thesis by simp
  qed
  have pend: "pending k = [2] @ hello_bytes (length socks) ?conf @ [0] @ indexes bs" using client(5) bs(1) by simp
  obtain t k' where t: "Connect env name = (Inr t, t)"
      "Conn_Init env (int idx) t = (None, t\<lparr>c_sock := Some k', c_fd := fd, c_ring := Some mem\<rparr>)"
      "c_blockSize t = BlockSize ?conf" "c_numBlocks t = NumBlocks ?conf"
      "wbytes k' = choice_bytes idx" "pending k' = indexes bs" "\<not> uclosed k'" "wroom k' = None"
    using connect_init_ok [OF client(1-4) pend conf(1) machine(1-5), of idx] by blast
  define t1 where "t1 = t\<lparr>c_sock := Some k', c_fd := fd, c_ring := Some mem\<rparr>"
  have ann: "announces t1 bs"
    using t conf bs(3) machine(6) size by (auto simp: announces_def conn_ready_def conf_ok_def t1_def)
  have main: "testclient_main env L fuel name (int idx) True (int m) = tc_loop L True fuel (int m) t1"
    using t(1,2) by (simp add: testclient_main_def t1_def)
  have wr: "written t1 = choice_bytes idx" using t(5) by (simp add: written_def t1_def)
  show ?thesis
    using bs(1,2) ann testclient_dumps [OF ann, of m L fuel] conf(2) t(3,4)
    unfolding main wr by (intro exI [of _ bs] exI [of _ t1]) (auto simp: t1_def)
qed

definition demo_session_socks :: "sock_info list" where
  "demo_session_socks =
     [demo_sock \<lparr>SocketName = ''/a'', Interface = ''lo'', BlockSize = 12, NumBlocks = 2, BlockTimeoutMillis = 10, FanoutType = 0,
                 FanoutSize = 1, FanoutID = 1, User = '''', Group = '''', Filter = ''''\<rparr> 0]"

definition demo_choosing :: uconn where
  "demo_choosing = demo_conn\<lparr>rchunks := [choice_bytes 0]\<rparr>"

definition demo_handed :: uconn where
  "demo_handed =
     demo_conn\<lparr>rchunks := [], wbytes := [2] @ hello_bytes 1 (si_conf (hd demo_session_socks)) @ [0], wfds := [5]\<rparr>"

definition demo_session_end :: socket where
  "demo_session_end =
     demo_delivered\<lparr>conns := [(conns demo_delivered ! 0)\<lparr>sock := demo_handed\<lparr>wbytes := wbytes demo_handed @ [0, 0, 0, 0]\<rparr>\<rparr>]\<rparr>"

definition demo_receiving :: uconn where
  "demo_receiving = demo_conn\<lparr>rchunks := [client_stream demo_session_end 0]\<rparr>"

definition demo_session_env :: client_env where
  "demo_session_env = (demo_env (Some demo_receiving) demo_ctl)\<lparr>e_mmap := \<lambda>fd len. Some demo_ring\<rparr>"

lemma demo_handle: "handle demo_session_socks demo_choosing = HandleHandoff 0 demo_handed"
proof -
  let ?conf = "si_conf (hd demo_session_socks)"
  let ?c = "demo_choosing\<lparr>wbytes := [2] @ hello_bytes 1 ?conf\<rparr>"
  have rd: "ReadFull ?c 8 = (Inr (choice_bytes 0), ?c\<lparr>rchunks := []\<rparr>)"
    using ReadFull_part [of ?c "choice_bytes 0" "[]" "[]" 8]
    by (simp add: demo_choosing_def demo_conn_def choice_bytes_def rest_chunks_def)
  have hello: "send_hello 1 ?conf (demo_choosing\<lparr>wbytes := [2]\<rparr>) = (None, ?c)"
    using send_hello_open [of "demo_choosing\<lparr>wbytes := [2]\<rparr>" 1 ?conf] by (simp add: demo_choosing_def demo_conn_def)
  have wr: "Write demo_choosing [protocolVersion] = (None, demo_choosing\<lparr>wbytes := [2]\<rparr>)"
    by (simp add: Write_def demo_choosing_def demo_conn_def protocolVersion_def)
  have socks: "demo_session_socks = [hd demo_session_socks]" "si_fd (hd demo_session_socks) = 5"
    by (simp_all add: demo_session_socks_def demo_sock_def)
  have "WriteMsgUnix (?c\<lparr>rchunks := []\<rparr>) [0] 5 = (None, demo_handed)"
    by (simp add: WriteMsgUnix_def Write_def demo_choosing_def demo_conn_def demo_handed_def)
  then show ?thesis
    using rd hello wr fanout_choice_bytes [of 0 1] socks(2) by (subst socks(1)) (simp add: handle_def)
qed

lemma demo_session_run:
  assumes "\<not> uclosed k" and "wroom k = None"
  shows "run_events (ENewConn k # tl demo_deliver) (init_socket 2) =
     Some (demo_delivered\<lparr>conns := [(conns demo_delivered ! 0)\<lparr>sock := k\<lparr>wbytes := wbytes k @ [0, 0, 0, 0]\<rparr>\<rparr>]\<rparr>)"
  using assms
  by (simp add: demo_deliver_def demo_queue_def demo_delivered_def demo_client_def step_def step_defs set_conn_def ref_block_def
      run_unref_def dec_block_def unref_def ref_def conn_take_def chan_send_def chan_recv_def make_chan_def init_socket_def Write_def PutUint32_def
      numeral_2_eq_2)

lemma demo_session: "daemon_session demo_session_socks 0 2 demo_choosing (tl demo_deliver) (init_socket 2) demo_session_end"
proof -
  have "run_events (ENewConn demo_handed # tl demo_deliver) (init_socket 2) = Some demo_session_end"
    unfolding demo_session_end_def by (rule demo_session_run) (simp_all add: demo_handed_def demo_conn_def)
  moreover have "few_conns demo_session_end" "c_pc (conns demo_session_end ! 0) = CSelect"
    by (simp_all add: demo_session_end_def demo_delivered_def demo_client_def few_conns_def max_refs_def)
  moreover have "conf_ok (length demo_session_socks) (si_conf (hd demo_session_socks))" "NumBlocks (si_conf (hd demo_session_socks)) = int 2"
      "0 < length demo_session_socks"
    by (simp_all add: demo_session_socks_def demo_sock_def conf_ok_def)
  moreover have "\<not> uclosed demo_choosing" "wroom demo_choosing = None" "wbytes demo_choosing = []" "pending demo_choosing = choice_bytes 0"
    by (simp_all add: demo_choosing_def demo_conn_def pending_def)
  moreover have "length (conns (init_socket 2)) = 0" by (simp add: init_socket_def)
  ultimately show ?thesis
    unfolding daemon_session_def demo_handle by (simp add: reach.start del: run_events.simps)
qed

lemma demo_session_stream:
  "client_stream demo_session_end 0 = [2] @ hello_bytes 1 (si_conf (hd demo_session_socks)) @ [0] @ indexes [0]"
  by (simp add: client_stream_def demo_session_end_def demo_handed_def PutUint32_def)


theorem go_session_dumps_witness:
  "\<exists>t'. testclient_main demo_session_env demo_layout 4 ''/a'' 0 True 2 = (TcDone, [[10, 11], [12]], 2, t') \<and>
     written t' = choice_bytes 0 @ [0, 0, 0, 0]"
proof -
  have c: "0 = length (conns (init_socket 2))" by (simp add: init_socket_def)
  have client: "\<not> uclosed demo_receiving" "wroom demo_receiving = None" "wbytes demo_receiving = []"
      "[] \<notin> set (rchunks demo_receiving)" "pending demo_receiving = client_stream demo_session_end 0"
    by (simp_all add: demo_receiving_def demo_conn_def pending_def demo_session_stream)
  have lname: "localSocketName demo_session_env = Some ''/tmp/testimony_go_client_0102030405060708''"
    using demo_env_name [of "Some demo_receiving" demo_ctl] by (simp add: demo_session_env_def localSocketName_def demo_env_def)
  have machine: "e_dial demo_session_env ''/tmp/testimony_go_client_0102030405060708'' ''/a'' = Some demo_receiving"
      "oob_msgs (e_oob demo_session_env) = Some [Rights [9]]" "oob_len (e_oob demo_session_env) < 1024"
      "e_mmap demo_session_env 9 (wrap64 (BlockSize (si_conf (hd demo_session_socks)) * NumBlocks (si_conf (hd demo_session_socks)))) =
       Some demo_ring"
      "int (length demo_ring) = BlockSize (si_conf (hd demo_session_socks)) * NumBlocks (si_conf (hd demo_session_socks))"
    by (simp_all add: demo_session_env_def demo_env_def demo_ctl_def demo_ring_def demo_session_socks_def demo_sock_def)
  obtain bs t where bs: "client_stream demo_session_end 0 =
        [2] @ hello_bytes (length demo_session_socks) (si_conf (hd demo_session_socks)) @ [0] @ indexes bs" "announces t bs"
      and t: "c_ring t = Some demo_ring" "c_numBlocks t = int 2" "c_blockSize t = BlockSize (si_conf (hd demo_session_socks))"
      and main: "bs \<noteq> [] \<and> int 2 < 2 ^ 63 \<and> 2 \<le> length (announced_packets demo_layout t bs) \<and>
        (\<forall>b \<in> set bs. block_ok demo_layout (ring_block t b) \<and> length (block_packets demo_layout (ring_block t b)) < 4) \<longrightarrow>
        (\<exists>t' j. testclient_main demo_session_env demo_layout 4 ''/a'' (int 0) True (int 2) =
             (TcDone, take 2 (announced_packets demo_layout t bs), 2, t') \<and>
           0 < j \<and> j \<le> length bs \<and> written t' = choice_bytes 0 @ indexes (take j bs))"
    using go_session_dumps [OF demo_session c client lname machine, of 2 demo_layout 4] by blast
  have "length demo_session_socks = 1" by (simp add: demo_session_socks_def)
  then have "indexes bs = indexes [0]" using bs(1) by (simp add: demo_session_stream)
  moreover have "\<forall>b \<in> set bs. b < 2 ^ 32" using bs(2) t(2) by (auto simp: announces_def)
  ultimately have b0: "bs = [0]" using indexes_eq [of bs "[0]"] by simp
  have "ring_block t 0 = ring_block demo_reader 0"
    using t by (simp add: ring_block_def ring_slice_def demo_reader_def demo_session_socks_def demo_sock_def)
  then have pk: "announced_packets demo_layout t bs = [[10, 11], [12]]" "block_ok demo_layout (ring_block t 0)"
      "block_packets demo_layout (ring_block t 0) = [[10, 11], [12]]"
    using demo_reader_packets by (simp_all add: announced_packets_def b0)
  then obtain t' j where "testclient_main demo_session_env demo_layout 4 ''/a'' 0 True 2 = (TcDone, [[10, 11], [12]], 2, t')"
      "0 < j" "j \<le> 1" "written t' = choice_bytes 0 @ indexes (take j [0])"
    using main by (auto simp: b0)
  moreover from this have "j = 1" by simp
  ultimately show ?thesis by (auto simp: PutUint32_def)
qed


section \<open>The C test client\<close>

text \<open>The program after a successful handshake.\<close>

lemma c_program_dumps:
  assumes shake: "testimony_connect env name w = (0, Some t, [], w1)" "testimony_init env (t\<lparr>t_fanout_index := fi\<rparr>) w1 = (0, t', w2)"
    and ready: "c_ready t'" "unread (t', w2) = indexes bs" "\<forall>b \<in> set bs. b < unat (t_block_nr t') \<and> b < 2 ^ 31"
      "\<forall>x \<in> set (c_counts t'). x = 0" "sends w2 = []"
    and m: "0 < m" "m < 2 ^ 32" "m \<le> length (concat (map (\<lambda>b. c_block_packets M (block_ptr t' b)) bs))"
    and vers: "\<forall>b \<in> set bs. m_version M (block_ptr t' b) = m_TPACKET_V3 M"
  shows "\<exists>calls w' j. testimony_client_main env M True
        \<lparr>flag_socket = name, flag_fanout_index = fi, flag_count = of_nat m, flag_dump = True\<rparr> w =
      (ExitDone, take m (concat (map (\<lambda>b. c_block_packets M (block_ptr t' b)) bs)), calls, w') \<and>
      j < length bs \<and> sent w' = sent w2 @ indexes (take j bs)"
proof -
  have nz: "\<forall>b \<in> set bs. m_version M (block_ptr t' b) = m_TPACKET_V3 M \<and> block_ptr t' b \<noteq> 0"
    using vers ready(3) block_ptr_nonzero [OF ready(1)] by blast
  obtain t2 w3 j where l: "c_main_loop M True (of_nat m) (Some \<lparr>it_block = 0, it_pkt = 0, it_left = 0\<rparr>) t' w2 =
      (ExitDone, take m (concat (map (\<lambda>b. c_block_packets M (block_ptr t' b)) bs)), t2, w3)" "j < length bs"
      "sent w3 = sent w2 @ indexes (take j bs)"
    using c_client_dumps [OF ready(1-3) nz ready(4,5) m] by blast
  obtain r calls w4 where cl: "testimony_close env t2 w3 = (r, calls, w4)" by (cases "testimony_close env t2 w3")
  then have "sent w4 = sent w3" by (auto simp: testimony_close_def Let_def split: option.splits if_splits)
  with shake l cl show ?thesis
    by (intro exI [of _ calls] exI [of _ w4] exI [of _ j]) (simp add: testimony_client_main_def testimony_iter_init_def)
qed



definition demo_c_received :: "recv_ans list" where
  "demo_c_received = [RData ([2] @ hello_bytes 1 (si_conf (hd demo_session_socks)))]"

lemma demo_ring_packets: "c_block_packets demo_cmem 0x10000 = [[20, 21]]"
  by (simp add: c_block_packets_def c_packets.simps [of demo_cmem] testimony_iter_next_def demo_cmem_fields packet_bytes_def
      testimony_packet_data_def upt_rec)



end
