(* ===== verification/Socket_Spec.thy ===== *)
theory Socket_Spec
  imports Socket_Race
begin

text \<open>
  What a socket promises, as an abstract ring: every block belongs to the kernel, is filled and waits to
  be announced, or is held a number of times.  Five actions move a block from one owner to the next.  A run
  of the goroutines in which \<^verbatim>\<open>ready\<close> does not overlap a pending clear refines this ring: every step
  leaves it alone or performs one action, and each action is performed only by the goroutine it belongs to.
\<close>

section \<open>The abstract ring\<close>

text \<open>\<open>Held 0\<close> is a block whose last reference is gone and whose status is still to be cleared.\<close>

datatype owner = Kernel | Filled | Held nat

datatype action = Fill nat | Announce nat | Share nat | Release nat | GiveBack nat

inductive ring_step :: "action \<Rightarrow> owner list \<Rightarrow> owner list \<Rightarrow> bool" where
  fill: "b < length os \<Longrightarrow> os ! b = Kernel \<Longrightarrow> ring_step (Fill b) os (os[b := Filled])"
| announce: "b < length os \<Longrightarrow> os ! b = Filled \<Longrightarrow> ring_step (Announce b) os (os[b := Held 1])"
| share: "b < length os \<Longrightarrow> os ! b = Held (Suc n) \<Longrightarrow> ring_step (Share b) os (os[b := Held (Suc (Suc n))])"
| release: "b < length os \<Longrightarrow> os ! b = Held (Suc n) \<Longrightarrow> ring_step (Release b) os (os[b := Held n])"
| give_back: "b < length os \<Longrightarrow> os ! b = Held 0 \<Longrightarrow> ring_step (GiveBack b) os (os[b := Kernel])"

inductive_cases ring_step_cases: "ring_step a os os'"

text \<open>Who may perform which action: the kernel fills, \<^verbatim>\<open>getNewBlocks\<close> announces, \<^verbatim>\<open>socket.run\<close> shares,
  and both \<^verbatim>\<open>run\<close> methods release and give back.\<close>

fun performs :: "event \<Rightarrow> action \<Rightarrow> bool" where
  "performs (EKernel b v) (Fill d) = (b = d)"
| "performs EGet (Announce d) = True"
| "performs ERun (Share d) = True"
| "performs ERun (Release d) = True"
| "performs ERun (GiveBack d) = True"
| "performs (EConn c) (Release d) = True"
| "performs (EConn c) (GiveBack d) = True"
| "performs e a = False"

section \<open>The ring of a socket\<close>

fun run_nclears :: "run_pc \<Rightarrow> nat \<Rightarrow> nat" where
  "run_nclears (RClear d pc) b = of_bool (d = b) + run_nclears pc b"
| "run_nclears pc b = 0"

fun pc_nclears :: "conn_pc \<Rightarrow> nat \<Rightarrow> nat" where
  "pc_nclears (CClear d pc) b = of_bool (d = b) + pc_nclears pc b"
| "pc_nclears pc b = 0"

text \<open>How many goroutines are about to clear the status of block \<open>b\<close>.\<close>

definition clears :: "socket \<Rightarrow> nat \<Rightarrow> nat" where
  "clears s b = run_nclears (r_pc s) b + (\<Sum>k\<leftarrow>conns s. pc_nclears (c_pc k) b)"

definition owner_of :: "socket \<Rightarrow> nat \<Rightarrow> owner" where
  "owner_of s i =
     (if refs s ! i \<noteq> 0 then Held (unat (refs s ! i))
      else if 0 < clears s i then Held 0
      else if status s ! i = 0 then Kernel else Filled)"

definition ring_of :: "socket \<Rightarrow> owner list" where
  "ring_of s = map (owner_of s) [0..<numBlocks s]"

lemma run_nclears_pos: "0 < run_nclears pc b \<longleftrightarrow> run_clears pc b"
  by (induction pc b rule: run_nclears.induct) auto

lemma pc_nclears_pos: "0 < pc_nclears pc b \<longleftrightarrow> pc_clears pc b"
  by (induction pc b rule: pc_nclears.induct) auto

lemma clears_pos: "0 < clears s b \<longleftrightarrow> clearing s b"
proof -
  have "(\<Sum>k\<leftarrow>conns s. pc_nclears (c_pc k) b) = 0 \<longleftrightarrow> (\<forall>k \<in> set (conns s). \<not> pc_clears (c_pc k) b)"
    by (simp add: sum_map_zero_iff flip: pc_nclears_pos)
  then show ?thesis
    using run_nclears_pos [of "r_pc s" b] by (simp add: clears_def clearing_def add_is_0 flip: neq0_conv)
qed

lemma clears_set_conn:
  "c < length (conns s) \<Longrightarrow>
   clears (set_conn s c k) b + pc_nclears (c_pc (conns s ! c)) b = clears s b + pc_nclears (c_pc k) b"
  using sum_map_update [of c "conns s" "\<lambda>k. pc_nclears (c_pc k) b" k] by (simp add: clears_def)

lemma clears_cong: "r_pc s' = r_pc s \<Longrightarrow> conns s' = conns s \<Longrightarrow> clears s' b = clears s b"
  by (simp add: clears_def)

lemma length_ring_of [simp]: "length (ring_of s) = numBlocks s"
  by (simp add: ring_of_def)

lemma nth_ring_of [simp]: "i < numBlocks s \<Longrightarrow> ring_of s ! i = owner_of s i"
  by (simp add: ring_of_def)

lemma ring_of_update:
  assumes "numBlocks s' = numBlocks s" and "\<And>i. i < numBlocks s \<Longrightarrow> i \<noteq> b \<Longrightarrow> owner_of s' i = owner_of s i"
    and "owner_of s' b = w"
  shows "ring_of s' = (ring_of s)[b := w]"
proof (rule nth_equalityI)
  fix i assume "i < length (ring_of s')"
  with assms show "ring_of s' ! i = (ring_of s)[b := w] ! i" by (cases "i = b") simp_all
qed (simp add: assms)

section \<open>The refinement relation\<close>

definition clears_ok :: "socket \<Rightarrow> bool" where
  "clears_ok s \<longleftrightarrow>
     (\<forall>i < numBlocks s. clears s i \<le> 1 \<and> (clears s i = 1 \<longrightarrow> status s ! i \<noteq> 0 \<and> refs s ! i = 0))"

definition refines :: "event \<Rightarrow> socket \<Rightarrow> socket \<Rightarrow> bool" where
  "refines e s s' \<longleftrightarrow>
     clears_ok s' \<and> (ring_of s' = ring_of s \<or> (\<exists>a. performs e a \<and> ring_step a (ring_of s) (ring_of s')))"

lemma refines_quiet:
  assumes "clears_ok s" and "refs s' = refs s" and "status s' = status s" and "numBlocks s' = numBlocks s"
    and "\<And>i. clears s' i = clears s i"
  shows "refines e s s'"
proof -
  have "owner_of s' i = owner_of s i" for i by (simp add: owner_of_def assms)
  then show ?thesis using assms by (simp add: refines_def clears_ok_def ring_of_def)
qed

text \<open>What is known of a block before a step of a run without overlap.\<close>

definition ring_ok :: "socket \<Rightarrow> bool" where
  "ring_ok s \<longleftrightarrow> sock_inv s \<and> few_conns s \<and> kernel_safe s \<and> clears_ok s"

lemma ring_okD:
  assumes "ring_ok s"
  shows "sock_inv s" "few_conns s" "kernel_safe s" "clears_ok s"
    "length (refs s) = numBlocks s" "length (status s) = numBlocks s" "blockIndex s < numBlocks s"
  using assms by (simp_all add: ring_ok_def sock_inv_def shape_ok_def)

lemma held_block:
  assumes "ring_ok s" and "b < numBlocks s" and "refs s ! b \<noteq> 0"
  shows "status s ! b \<noteq> 0" "clears s b = 0" "refs s ! b = of_nat (holders s b)" "0 < holders s b"
    "holders s b < max_refs" "owner_of s b = Held (holders s b)"
proof -
  note ok = ring_okD [OF assms(1)]
  show "status s ! b \<noteq> 0" "clears s b = 0"
    using ok(3) assms(2,3) clears_pos [of s b] by (auto simp: kernel_safe_def)
  show r: "refs s ! b = of_nat (holders s b)" by (rule counts_okD [OF ok(1) assms(2)])
  show "0 < holders s b" using refs_zero_iff [OF ok(1,2) assms(2)] assms(3) by simp
  show m: "holders s b < max_refs" by (rule holders_few [OF ok(1,2) assms(2)])
  have "unat (of_nat (holders s b) :: i32) = holders s b"
    using m by (simp add: max_refs_def unat_of_nat take_bit_nat_eq_self_iff)
  then show "owner_of s b = Held (holders s b)" using assms(3) r by (simp add: owner_of_def)
qed

text \<open>A step that touches only block \<open>b\<close>.\<close>

lemma refines_at:
  assumes "clears_ok s" and "performs e a" and num: "numBlocks s' = numBlocks s"
    and other: "\<And>i. i \<noteq> b \<Longrightarrow> refs s' ! i = refs s ! i \<and> status s' ! i = status s ! i \<and> clears s' i = clears s i"
    and "clears s' b \<le> 1" and "clears s' b = 1 \<Longrightarrow> status s' ! b \<noteq> 0 \<and> refs s' ! b = 0"
    and "ring_step a (ring_of s) ((ring_of s)[b := owner_of s' b])"
  shows "refines e s s'"
proof -
  have "ring_of s' = (ring_of s)[b := owner_of s' b]"
    by (rule ring_of_update) (simp_all add: owner_of_def num other)
  moreover have "clears s' i \<le> 1 \<and> (clears s' i = 1 \<longrightarrow> status s' ! i \<noteq> 0 \<and> refs s' ! i = 0)"
    if "i < numBlocks s" for i
    using that assms(1,5,6) other [of i] by (cases "i = b") (simp_all add: clears_ok_def)
  ultimately show ?thesis
    using assms(2,7) num by (auto simp: refines_def clears_ok_def)
qed

lemma refs_owner:
  assumes "refs s ! b = of_nat n" and "0 < n" and "n \<le> max_refs"
  shows "owner_of s b = Held n"
proof -
  have "unat (of_nat n :: i32) = n"
    using assms(3) by (simp add: max_refs_def unat_of_nat take_bit_nat_eq_self_iff)
  moreover from this assms(2) have "(of_nat n :: i32) \<noteq> 0" by (metis unat_0 less_irrefl)
  ultimately show ?thesis by (simp add: owner_of_def assms(1))
qed

section \<open>The five actions\<close>

lemma kernel_owner:
  assumes ok: "ring_ok s" and b: "b < numBlocks s" "status s ! b = 0"
  shows "refs s ! b = 0" "clears s b = 0" "owner_of s b = Kernel"
proof -
  show r: "refs s ! b = 0" using held_block(1) [OF ok b(1)] b(2) by blast
  show c: "clears s b = 0" using ring_okD(4) [OF ok] b by (force simp: clears_ok_def le_Suc_eq)
  show "owner_of s b = Kernel" using r c b(2) by (simp add: owner_of_def)
qed

lemma ready_owner:
  assumes ok: "ring_ok s" and pc: "g_pc s = GRef" and b: "b = blockIndex s"
  shows "refs s ! b = 0" "clears s b = 0" "owner_of s b = Filled"
proof -
  note D = ring_okD [OF ok]
  have bn: "b < numBlocks s" using D(7) b by simp
  have "status s ! b \<noteq> 0" and c: "clears s b = 0"
    using D(3) bn pc b clears_pos [of s b] by (auto simp: kernel_safe_def)
  moreover show r: "refs s ! b = 0"
    using tokens_okD [OF D(1) bn] pc b refs_zero_iff [OF D(1,2) bn] by (simp add: token_ok_def)
  ultimately show "owner_of s b = Filled" by (simp add: owner_of_def)
  show "clears s b = 0" by (rule c)
qed

lemma refines_fill:
  assumes ok: "ring_ok s" and b: "b < numBlocks s" "status s ! b = 0" "v \<noteq> 0"
    and eq: "refs s' = refs s" "status s' = (status s)[b := v]" "numBlocks s' = numBlocks s"
      "\<And>i. clears s' i = clears s i"
  shows "refines (EKernel b v) s s'"
proof -
  note D = ring_okD [OF ok] and k = kernel_owner [OF ok b(1,2)]
  have w: "owner_of s' b = Filled" using k b D(6) eq by (simp add: owner_of_def)
  show ?thesis
    using ring_step.fill [of b "ring_of s"] b(1) w k
    by (intro refines_at [OF D(4), where a = "Fill b" and b = b]) (simp_all add: eq)
qed

lemma refines_announce:
  assumes ok: "ring_ok s" and pc: "g_pc s = GRef" and b: "b = blockIndex s"
    and eq: "refs s' = (refs s)[b := ref (refs s ! b)]" "status s' = status s" "numBlocks s' = numBlocks s"
      "\<And>i. clears s' i = clears s i"
  shows "refines EGet s s'"
proof -
  note D = ring_okD [OF ok] and k = ready_owner [OF ok pc b]
  have bn: "b < numBlocks s" using D(7) b by simp
  have w: "owner_of s' b = Held 1" using k bn D(5) eq by (simp add: owner_of_def ref_def)
  show ?thesis
    using ring_step.announce [of b "ring_of s"] bn w k
    by (intro refines_at [OF D(4), where a = "Announce b" and b = b]) (simp_all add: eq)
qed

lemma refines_share:
  assumes ok: "ring_ok s" and b: "b < numBlocks s" "refs s ! b \<noteq> 0" and e: "performs e (Share b)"
    and eq: "refs s' = (refs s)[b := ref (refs s ! b)]" "status s' = status s" "numBlocks s' = numBlocks s"
      "\<And>i. clears s' i = clears s i"
  shows "refines e s s'"
proof -
  note D = ring_okD [OF ok] and h = held_block [OF ok b]
  obtain n where n: "holders s b = Suc n" using h(4) by (cases "holders s b") auto
  have "refs s' ! b = of_nat (Suc (Suc n))"
    using eq(1) D(5) b(1) h(3) n by (simp add: ref_def)
  then have w: "owner_of s' b = Held (Suc (Suc n))"
    using h(5) n by (intro refs_owner) simp_all
  show ?thesis
    using ring_step.share [of b "ring_of s" n] b(1) h(2,6) n w
    by (intro refines_at [OF D(4) e, where b = b]) (simp_all add: eq)
qed

lemma refines_release:
  assumes ok: "ring_ok s" and b: "b < numBlocks s" and hold: "0 < holders s b" and e: "performs e (Release b)"
    and eq: "refs s' = (refs s)[b := fst (unref (refs s ! b))]" "status s' = status s" "numBlocks s' = numBlocks s"
      "\<And>i. clears s' i = clears s i + of_bool (i = b \<and> snd (unref (refs s ! b)) = ClearBlock)"
  shows "refines e s s'"
proof -
  note D = ring_okD [OF ok]
  have nz: "refs s ! b \<noteq> 0" using refs_zero_iff [OF D(1,2) b] hold by simp
  note h = held_block [OF ok b nz] and u = unref_held [OF D(1,2) b hold]
  obtain n where n: "holders s b = Suc n" using hold by (cases "holders s b") auto
  have r: "refs s' ! b = of_nat n" and c: "clears s' b = of_bool (n = 0)"
    using eq(1,4) D(5) b u n h(2) by simp_all
  have w: "owner_of s' b = Held n"
  proof (cases "n = 0")
    case True
    then show ?thesis using r c by (simp add: owner_of_def)
  next
    case False
    then show ?thesis using r h(5) n by (intro refs_owner) simp_all
  qed
  show ?thesis
  proof (rule refines_at [OF D(4) e eq(3), where b = b])
    show "ring_step (Release b) (ring_of s) ((ring_of s)[b := owner_of s' b])"
      using ring_step.release [of b "ring_of s" n] b h(6) n w by simp
    show "status s' ! b \<noteq> 0 \<and> refs s' ! b = 0" if "clears s' b = 1"
      using that c r h(1) eq(2) by (cases "n = 0") simp_all
  qed (simp_all add: eq(1,2,4) h(2))
qed

lemma refines_give_back:
  assumes ok: "ring_ok s" and b: "b < numBlocks s" and c: "0 < clears s b" and e: "performs e (GiveBack b)"
    and eq: "refs s' = refs s" "status s' = (status s)[b := 0]" "numBlocks s' = numBlocks s"
      "\<And>i. clears s' i + of_bool (i = b) = clears s i"
  shows "refines e s s'"
proof -
  note D = ring_okD [OF ok]
  have one: "clears s b = 1" and r: "refs s ! b = 0"
    using D(4) b c by (auto simp: clears_ok_def le_Suc_eq)
  have c': "clears s' b = 0" using eq(4) [of b] one by simp
  have other: "clears s' i = clears s i" if "i \<noteq> b" for i using eq(4) [of i] that by simp
  have w: "owner_of s b = Held 0" "owner_of s' b = Kernel"
    using r one c' b D(6) eq by (simp_all add: owner_of_def)
  show ?thesis
    using ring_step.give_back [of b "ring_of s"] b w c'
    by (intro refines_at [OF D(4) e eq(3), where b = b]) (simp_all add: eq(1,2) other)
qed

section \<open>Every step refines the ring\<close>

lemma refines_crash: "clears_ok s \<Longrightarrow> refines e s (set_crash s x)"
  by (erule refines_quiet) (simp_all add: set_crash_def clears_def)

lemma clears_same_pc:
  "c < length (conns s) \<Longrightarrow> pc_nclears (c_pc k) b = pc_nclears (c_pc (conns s ! c)) b \<Longrightarrow>
   clears (set_conn s c k) b = clears s b"
  using clears_set_conn [of c s k b] by simp

lemma refines_set_conn:
  assumes "clears_ok s" and "c < length (conns s)"
    and "\<And>b. pc_nclears (c_pc k) b = pc_nclears (c_pc (conns s ! c)) b"
  shows "refines e s (set_conn s c k)"
  using assms by (intro refines_quiet) (simp_all add: clears_same_pc)

lemma refines_get:
  assumes ok: "ring_ok s" and st: "getNewBlocks_step s = Some s'"
  shows "refines EGet s s'"
proof (cases "g_pc s")
  case GRef
  with st show ?thesis
    by (intro refines_announce [OF ok GRef refl]) (auto simp: getNewBlocks_step_def clears_def)
qed (use st in \<open>auto simp: getNewBlocks_step_def Let_def clears_def intro!: refines_quiet refines_crash ring_okD(4) [OF ok]
       split: if_splits send_res.splits\<close>)

lemma refines_run_unref:
  assumes ok: "ring_ok s" and b: "b < numBlocks s" and hold: "0 < holders s b" and pc: "\<And>i. run_nclears (r_pc s) i = 0"
  shows "refines ERun s (run_unref s b RSelect)"
proof (rule refines_release [OF ok b hold])
  have "snd (unref (refs s ! b)) \<noteq> InvalidUnrefPanic"
    using unref_held [OF ring_okD(1,2) [OF ok] b hold] by simp
  then show "clears (run_unref s b RSelect) i = clears s i + of_bool (i = b \<and> snd (unref (refs s ! b)) = ClearBlock)" for i
    using pc [of i] by (auto simp: run_unref_def clears_def split: unref_out.split)
qed (simp_all add: run_unref_def set_crash_def split: unref_out.split)

lemma refines_run:
  assumes ok: "ring_ok s" and st: "run_step s = Some s'"
  shows "refines ERun s s'"
proof -
  note D = ring_okD [OF ok]
  have wf: "run_wf (numBlocks s) (r_pc s)" "set (targets (r_pc s)) \<subseteq> {..<length (conns s)}"
    using sock_invD(1) [OF D(1)] by (auto simp: shape_ok_def)
  show ?thesis
  proof (cases "r_pc s")
    case (RClose c)
    then have c: "c < length (conns s)" using sock_invD(2) [OF D(1)] by (simp add: phases_ok_def)
    show ?thesis
    proof (cases "chan_close (cnew (conns s ! c))")
      case None
      with RClose st D(4) show ?thesis by (auto simp: run_step_def intro: refines_crash)
    next
      case (Some ch)
      with RClose st show ?thesis
        using clears_same_pc [OF c, of "(conns s ! c)\<lparr>cnew := ch\<rparr>"]
        by (intro refines_quiet [OF D(4)]) (auto simp: run_step_def clears_def)
    qed
  next
    case (RRange b todo)
    have b: "b < numBlocks s" using wf RRange by simp
    have hold: "0 < holders s b" using RRange by (simp add: holders_def)
    show ?thesis
    proof (cases todo)
      case Nil
      with RRange st refines_run_unref [OF ok b hold] show ?thesis by (simp add: run_step_def)
    next
      case (Cons c cs)
      have "refs s ! b \<noteq> 0" using refs_zero_iff [OF D(1,2) b] hold by simp
      with RRange Cons st show ?thesis
        by (intro refines_share [OF ok b]) (auto simp: run_step_def clears_def)
    qed
  next
    case (RSend b c todo)
    then have c: "c < length (conns s)" using wf by simp
    obtain ch where "chan_send (cnew (conns s ! c)) b = SendOk ch"
      using run_send_room [OF D(1) RSend] by blast
    with RSend st show ?thesis
      using clears_same_pc [OF c, of "(conns s ! c)\<lparr>cnew := ch\<rparr>"]
      by (intro refines_quiet [OF D(4)]) (auto simp: run_step_def clears_def)
  next
    case (RUnsend b todo)
    with wf show ?thesis by simp
  next
    case (RClear b pc)
    with wf st show ?thesis
      by (intro refines_give_back [OF ok, of b]) (auto simp: run_step_def clear_block_def clears_def)
  qed (use st in \<open>simp add: run_step_def\<close>)
qed

lemma refines_conn_unref:
  assumes ok: "ring_ok s" and c: "c < length (conns s)" and b: "b < numBlocks s" and hold: "0 < chold (conns s ! c) b"
    and pc: "\<And>i. pc_nclears (c_pc (conns s ! c)) i = 0" "\<And>i. pc_nclears pc i = 0"
  shows "refines (EConn c) s (conn_unref s c b pc)"
proof -
  have h: "0 < holders s b" using chold_le_holders [OF c, of b] hold by simp
  show ?thesis
  proof (rule refines_release [OF ok b h])
    have "snd (unref (refs s ! b)) \<noteq> InvalidUnrefPanic"
      using unref_held [OF ring_okD(1,2) [OF ok] b h] by simp
    then show "clears (conn_unref s c b pc) i = clears s i + of_bool (i = b \<and> snd (unref (refs s ! b)) = ClearBlock)" for i
      using clears_set_conn [of c "dec_block s b" _ i] c pc [of i] clears_cong [of "dec_block s b" s i]
      by (auto simp: conn_unref_def split: unref_out.split)
  qed (simp_all add: conn_unref_def set_crash_def split: unref_out.split)
qed


lemma refines_conn:
  assumes ok: "ring_ok s" and c: "c < length (conns s)" and st: "conn_step c s = Some s'"
  shows "refines (EConn c) s s'"
proof -
  let ?k = "conns s ! c"
  note D = ring_okD [OF ok]
  have wf: "conn_wf (numBlocks s) ?k" by (rule conn_wfD [OF D(1) c])
  show ?thesis
  proof (cases "c_pc ?k")
    case (CUnref b)
    with st refines_conn_unref [OF ok c, of b CSelect] wf show ?thesis
      by (simp add: conn_step_def conn_wf_def chold_def)
  next
    case (CDrainUnref b)
    with st refines_conn_unref [OF ok c, of b CDrainNew] wf show ?thesis
      by (simp add: conn_step_def conn_wf_def chold_def)
  next
    case (CFinal i)
    with st refines_conn_unref [OF ok c, of i "CFinal (Suc i)"] wf show ?thesis
      by (auto simp: conn_step_def conn_wf_def chold_def Let_def split: if_splits intro!: refines_set_conn [OF D(4) c])
  next
    case (CClear b pc)
    have s': "s' = set_conn (clear_block s b) c (?k\<lparr>c_pc := pc\<rparr>)"
      using st CClear by (simp add: conn_step_def)
    have cl: "clears s' i + of_bool (i = b) = clears s i" for i
      using clears_set_conn [of c "clear_block s b" "?k\<lparr>c_pc := pc\<rparr>" i] c CClear clears_cong [of "clear_block s b" s i]
      by (auto simp: s' clear_block_def)
    show ?thesis
      by (rule refines_give_back [OF ok, of b])
         (use wf CClear cl [of b] cl in \<open>auto simp: s' conn_wf_def clear_block_def\<close>)
  qed (use st c in \<open>auto simp: conn_step_def Let_def conn_take_def split: recv_res.splits prod.splits option.splits if_splits
          intro!: refines_set_conn refines_crash D(4)\<close>)
qed

lemma exec_refines:
  assumes ex: "exec e s = Some s'" and ok: "ring_ok s"
  shows "refines e s s'"
proof -
  note D = ring_okD [OF ok]
  note set = refines_set_conn [OF D(4)] and quiet = refines_quiet [OF D(4)] and crash = refines_crash [OF D(4)]
  show ?thesis
  proof (cases e)
    case (EKernel b v)
    with ex show ?thesis
      using D(6) by (auto simp: kernel_step_def clears_def split: if_splits intro!: refines_fill [OF ok])
  next
    case EGet
    with ex refines_get [OF ok] show ?thesis by simp
  next
    case (EGetFail m)
    with ex show ?thesis by (auto simp: getNewBlocks_fail_def split: if_splits intro: crash)
  next
    case (ENewConn k)
    with ex show ?thesis
      by (auto intro!: quiet simp: run_newConn_def addNewConn_def clears_def split: if_splits)
  next
    case (EOldConn d)
    then have d: "d < length (conns s)" "c_pc (conns s ! d) = CMarkOld" "r_pc s = RSelect"
      and s': "s' = (set_conn s d ((conns s ! d)\<lparr>c_pc := CDrainNew\<rparr>))\<lparr>r_pc := RClose d\<rparr>"
      using ex by (auto simp: run_oldConn_def split: if_splits)
    then show ?thesis
      using clears_same_pc [OF d(1), of "(conns s ! d)\<lparr>c_pc := CDrainNew\<rparr>"]
      by (intro quiet) (auto simp: s' clears_def)
  next
    case (ENewBlock order)
    with ex show ?thesis
      by (auto intro!: quiet simp: run_newBlock_def clears_def set_crash_def split: if_splits recv_res.splits)
  next
    case ERun
    with ex refines_run [OF ok] show ?thesis by simp
  next
    case (EConnNew d)
    with ex show ?thesis
      by (auto simp: on_conn_def conn_newBlock_def conn_take_def Let_def split: if_splits recv_res.splits
          intro!: set crash)
  next
    case (EConnOld d)
    with ex show ?thesis
      by (auto simp: on_conn_def conn_oldBlock_def Let_def split: if_splits recv_res.splits intro!: set crash)
  next
    case (EConn d)
    with ex refines_conn [OF ok] show ?thesis by (auto simp: on_conn_def split: if_splits)
  next
    case (EReads d)
    with ex show ?thesis
      by (auto simp: on_conn_def reads_step_def Let_def
          split: if_splits reads_pc.splits prod.splits read_out.splits send_res.splits option.splits
          intro!: set crash)
  next
    case (EClient d bs)
    with ex show ?thesis
      by (auto simp: on_conn_def client_send_def Let_def split: if_splits intro!: set)
  next
    case (EHangup d)
    with ex show ?thesis
      by (auto simp: on_conn_def client_hangup_def Let_def split: if_splits intro!: set)
  qed
qed

lemma step_few_before: "step e s = Some s' \<Longrightarrow> few_conns s' \<Longrightarrow> few_conns s"
  using exec_frame [of e s s'] by (simp add: step_def few_conns_def split: if_splits)

lemma calm_ring_ok:
  assumes "calm_reach n s" and "0 < n" and "few_conns s"
  shows "ring_ok s"
  using assms
proof (induction rule: calm_reach.induct)
  case calm_start
  then show ?case
    using reach_inv [OF reach.start] calm_reach_safe [OF calm_reach.calm_start]
    by (auto simp: ring_ok_def clears_ok_def clears_def init_socket_def)
next
  case (calm_step s e s')
  have cr: "calm_reach n s'" using calm_reach.calm_step calm_step.hyps by blast
  have "ring_ok s" using calm_step step_few_before by blast
  then have "clears_ok s'"
    using exec_refines calm_step.hyps(3) by (auto simp: step_def refines_def split: if_splits)
  then show ?case
    using reach_inv [OF calm_reach_reach [OF cr]] calm_reach_safe [OF cr] calm_step.prems
    by (simp add: ring_ok_def)
qed


lemma ring_of_init: "ring_of (init_socket n) = replicate n Kernel"
  by (intro nth_equalityI) (simp_all add: owner_of_def clears_def, simp_all add: init_socket_def)

section \<open>Every fill is announced once\<close>

fun fills :: "event \<Rightarrow> nat \<Rightarrow> bool" where
  "fills (EKernel d v) b = (d = b)"
| "fills e b = False"

text \<open>The step in which \<^verbatim>\<open>getNewBlocks\<close> takes the first reference of block \<open>b\<close>, to send it to \<^verbatim>\<open>run\<close>.\<close>

definition first_ref :: "event \<Rightarrow> socket \<Rightarrow> nat \<Rightarrow> bool" where
  "first_ref e s b \<longleftrightarrow> e = EGet \<and> g_pc s = GRef \<and> blockIndex s = b"

fun num_announced :: "event list \<Rightarrow> socket \<Rightarrow> nat \<Rightarrow> nat" where
  "num_announced [] s b = 0"
| "num_announced (e # es) s b =
     of_bool (first_ref e s b) + (case step e s of None \<Rightarrow> 0 | Some s' \<Rightarrow> num_announced es s' b)"

definition num_filled :: "event list \<Rightarrow> nat \<Rightarrow> nat" where
  "num_filled es b = length (filter (\<lambda>e. fills e b) es)"

lemma ring_step_filled:
  assumes "ring_step a os os'" and "b < length os" and "\<And>d. a \<noteq> Announce d" and "a \<noteq> Fill b"
  shows "os' ! b = Filled \<longleftrightarrow> os ! b = Filled"
  using assms by (auto elim!: ring_step_cases simp: nth_list_update split: if_splits)

lemma get_other_block:
  assumes "getNewBlocks_step s = Some s'" and "\<not> (g_pc s = GRef \<and> blockIndex s = b)"
  shows "refs s' ! b = refs s ! b" "status s' = status s" "clears s' b = clears s b"
  using assms by (auto simp: getNewBlocks_step_def Let_def set_crash_def clears_def
      split: get_pc.splits if_splits send_res.splits)

lemma exec_filled:
  assumes ex: "exec e s = Some s'" and ok: "ring_ok s" and b: "b < numBlocks s"
  shows "of_bool (owner_of s' b = Filled) + of_bool (first_ref e s b) =
         of_bool (owner_of s b = Filled) + (of_bool (fills e b) :: nat)"
proof -
  note D = ring_okD [OF ok]
  have n: "numBlocks s' = numBlocks s" using exec_frame [OF ex] by simp
  consider (f) v where "e = EKernel b v" | (a) "first_ref e s b" | (q) "\<not> fills e b" "\<not> first_ref e s b"
    by (cases e) (auto simp: first_ref_def)
  then show ?thesis
  proof cases
    case f
    with ex have st: "status s ! b = 0" "v \<noteq> 0" "s' = s\<lparr>status := (status s)[b := v]\<rparr>"
      by (auto simp: kernel_step_def split: if_splits)
    then show ?thesis
      using kernel_owner [OF ok b st(1)] f b D(6) by (simp add: first_ref_def owner_of_def clears_def)
  next
    case a
    then have "refs s' ! b = 1"
      using ex ready_owner(1) [OF ok] D(5) b by (auto simp: first_ref_def getNewBlocks_step_def ref_def)
    then show ?thesis
      using a ready_owner(3) [OF ok] by (auto simp: first_ref_def owner_of_def)
  next
    case q
    have "owner_of s' b = Filled \<longleftrightarrow> owner_of s b = Filled"
    proof (cases "ring_of s' = ring_of s")
      case True
      then show ?thesis using nth_ring_of [OF b] nth_ring_of [of b s'] b n by simp
    next
      case False
      then obtain a where a: "performs e a" "ring_step a (ring_of s) (ring_of s')"
        using exec_refines [OF ex ok] by (auto simp: refines_def)
      show ?thesis
      proof (cases "\<exists>d. a = Announce d")
        case True
        then obtain d where d: "a = Announce d" ..
        then have e: "e = EGet" using a(1) by (cases e) simp_all
        then have "refs s' ! b = refs s ! b" "status s' = status s" "clears s' b = clears s b"
          using get_other_block [of s s' b] ex q(2) by (simp_all add: first_ref_def)
        then show ?thesis by (simp add: owner_of_def)
      next
        case nann: False
        have "a \<noteq> Fill b" using a(1) q(1) by (cases e) auto
        then show ?thesis
          using ring_step_filled [OF a(2), of b] nann b n by simp
      qed
    qed
    then show ?thesis using q by simp
  qed
qed

lemma run_few_before: "run_events es s = Some s' \<Longrightarrow> few_conns s' \<Longrightarrow> few_conns s"
  by (induction es arbitrary: s) (auto split: option.splits intro: step_few_before)

lemma run_filled:
  assumes "calm_reach n s" and "0 < n" and "calm_events es s" and "run_events es s = Some s'" and "few_conns s'" and "b < n"
  shows "of_bool (owner_of s' b = Filled) + num_announced es s b = of_bool (owner_of s b = Filled) + num_filled es b"
  using assms
proof (induction es arbitrary: s)
  case Nil
  then show ?case by (simp add: num_filled_def)
next
  case (Cons e es)
  then obtain s1 where s1: "step e s = Some s1" "run_events es s1 = Some s'" by (auto split: option.splits)
  have cr: "calm_reach n s1" using calm_reach.calm_step [OF Cons.prems(1) _ s1(1)] Cons.prems(3) by simp
  have few: "few_conns s1" using run_few_before [OF s1(2) Cons.prems(5)] .
  have ok: "ring_ok s" using calm_ring_ok [OF Cons.prems(1,2)] step_few_before [OF s1(1) few] by simp
  have n: "numBlocks s = n" using calm_reach_reach [OF Cons.prems(1)] reach_inv Cons.prems(2) step_few_before [OF s1(1) few] by blast
  have "of_bool (owner_of s1 b = Filled) + of_bool (first_ref e s b) =
        of_bool (owner_of s b = Filled) + (of_bool (fills e b) :: nat)"
    by (rule exec_filled [OF _ ok]) (use s1(1) Cons.prems(6) n in \<open>simp_all add: step_def split: if_splits\<close>)
  moreover have "of_bool (owner_of s' b = Filled) + num_announced es s1 b = of_bool (owner_of s1 b = Filled) + num_filled es b"
    using Cons.IH [OF cr] Cons.prems s1 by simp
  moreover have "num_filled (e # es) b = of_bool (fills e b) + num_filled es b" by (simp add: num_filled_def)
  moreover have "num_announced (e # es) s b = of_bool (first_ref e s b) + num_announced es s1 b" using s1(1) by simp
  ultimately show ?case by linarith
qed


text \<open>C11: in a run in which \<^verbatim>\<open>ready\<close> never reads the status of a block whose clear is pending, \<^verbatim>\<open>getNewBlocks\<close>
  announces a block exactly as often as the kernel fills it, except for the last fill while the block still waits:
  no fill is announced twice and none is lost.\<close>

theorem every_fill_announced_once:
  assumes "0 < n" and "calm_events es (init_socket n)" and "run_events es (init_socket n) = Some s"
    and "few_conns s" and "b < n"
  shows "num_filled es b = num_announced es (init_socket n) b + of_bool (owner_of s b = Filled)"
proof -
  have "owner_of (init_socket n) b = Kernel"
    using assms(5) by (simp add: owner_of_def clears_def init_socket_def)
  then show ?thesis
    using run_filled [OF calm_reach.calm_start assms] by simp
qed

theorem every_fill_announced_once_witness:
  "num_filled demo_deliver 0 = 1 \<and> num_announced demo_deliver (init_socket 2) 0 = 1"
proof -
  have "calm_events demo_deliver (init_socket 2)" by code_simp
  from every_fill_announced_once [OF _ this demo_deliver_run demo_few(2), of 0]
  have "num_filled demo_deliver 0 = num_announced demo_deliver (init_socket 2) 0 + of_bool (owner_of demo_delivered 0 = Filled)"
    by simp
  moreover have "num_filled demo_deliver 0 = 1" "owner_of demo_delivered 0 = Held 1" by code_simp+
  ultimately show ?thesis by simp
qed

text \<open>With overlap, one fill of block 0 is announced twice.\<close>

theorem overlap_announces_twice:
  "num_filled demo_race 0 = 1 \<and> num_announced demo_race (init_socket 2) 0 = 2 \<and>
   \<not> calm_events demo_race (init_socket 2)"
  by code_simp


end
