(* ===== verification/Socket_Recover.thy ===== *)
theory Socket_Recover
  imports Socket_Spec
begin

text \<open>
  Recovery: whatever the clients have done, a live daemon can wind down.  Once the clients hang up, the goroutines
  by themselves can finish every connection, give up every reference and give every block back to the kernel.
  No reachable state has a goroutine that waits for ever or a reference that nobody will drop.
\<close>

section \<open>Connections that are shut down\<close>

text \<open>Places of \<^verbatim>\<open>conn.run\<close> after \<^verbatim>\<open>c.c.Close\<close>, and those after the loop over \<^verbatim>\<open>oldBlocks\<close>, which ends only when
  \<^verbatim>\<open>handleReads\<close> has closed that channel.\<close>

primrec pc_closed :: "conn_pc \<Rightarrow> bool" where
  "pc_closed CSelect = False"
| "pc_closed (CBatch out) = False"
| "pc_closed (CWrite out) = False"
| "pc_closed (CUnref b) = False"
| "pc_closed CClose = False"
| "pc_closed CMarkOld = True"
| "pc_closed CDrainNew = True"
| "pc_closed (CDrainUnref b) = True"
| "pc_closed CDrainOld = True"
| "pc_closed (CFinal j) = True"
| "pc_closed CDone = True"
| "pc_closed (CClear b pc) = pc_closed pc"

primrec pc_final :: "conn_pc \<Rightarrow> bool" where
  "pc_final CSelect = False"
| "pc_final (CBatch out) = False"
| "pc_final (CWrite out) = False"
| "pc_final (CUnref b) = False"
| "pc_final CClose = False"
| "pc_final CMarkOld = False"
| "pc_final CDrainNew = False"
| "pc_final (CDrainUnref b) = False"
| "pc_final CDrainOld = False"
| "pc_final (CFinal j) = True"
| "pc_final CDone = True"
| "pc_final (CClear b pc) = pc_final pc"

definition shut_ok :: "conn \<Rightarrow> bool" where
  "shut_ok k \<longleftrightarrow> (pc_closed (c_pc k) \<longrightarrow> uclosed (sock k)) \<and> (pc_final (c_pc k) \<longrightarrow> h_pc k = HDone)"

definition all_shut_ok :: "socket \<Rightarrow> bool" where
  "all_shut_ok s \<longleftrightarrow> (\<forall>k \<in> set (conns s). shut_ok k)"

lemma handleReads_iter_uclosed: "uclosed (snd (handleReads_iter n k)) = uclosed k"
proof -
  obtain buf err k1 where rd: "Read k 4 = (buf, err, k1)" by (cases "Read k 4")
  have "uclosed k1 = uclosed k" using rd by (auto simp: Read_def split: if_splits list.splits)
  moreover have "uclosed k2 = uclosed k1" if "ReadFull k1 m = (r, k2)" for m r k2
    using ReadFull_fields [OF that] by (metis uconn.select_convs(6) uconn.surjective uconn.update_convs(1))
  ultimately show ?thesis
    using rd by (auto simp: handleReads_iter_def handleTLV_def Let_def split: sum.splits option.splits prod.splits)
qed

lemma Write_uclosed: "uclosed (snd (Write k bs)) = uclosed k"
  by (auto simp: Write_def split: option.split)

lemma shut_set_conn: "all_shut_ok s \<Longrightarrow> shut_ok k \<Longrightarrow> all_shut_ok (set_conn s c k)"
  by (auto simp: all_shut_ok_def dest!: set_update_subset)

lemma shut_cong: "all_shut_ok s \<Longrightarrow> conns s' = conns s \<Longrightarrow> all_shut_ok s'"
  by (simp add: all_shut_ok_def)

lemma shut_crash: "all_shut_ok s \<Longrightarrow> all_shut_ok (set_crash s e)"
  by (simp add: all_shut_ok_def set_crash_def)

lemma shut_conn_unref:
  assumes "all_shut_ok s" and "shut_ok ((conns s ! c)\<lparr>c_pc := pc\<rparr>)"
  shows "all_shut_ok (conn_unref s c b pc)"
proof -
  have "shut_ok ((conns s ! c)\<lparr>c_pc := CClear b pc\<rparr>)" using assms(2) by (simp add: shut_ok_def)
  then show ?thesis
    using assms shut_cong [OF assms(1), of "dec_block s b"]
    by (auto simp: conn_unref_def split: unref_out.split intro!: shut_set_conn shut_crash)
qed

lemma shut_conn:
  assumes sh: "all_shut_ok s" and inv: "sock_inv s" and c: "c < length (conns s)" and st: "conn_step c s = Some s'"
  shows "all_shut_ok s'"
proof -
  let ?k = "conns s ! c"
  have k: "shut_ok ?k" using sh c by (simp add: all_shut_ok_def)
  have wf: "cclosed (cold ?k) \<longleftrightarrow> h_pc ?k = HDone" using conn_wfD [OF inv c] by (simp add: conn_wf_def)
  show ?thesis
  proof (cases "c_pc ?k")
    case (CWrite out)
    then show ?thesis
      using st sh k Write_uclosed [of "sock ?k" out]
      by (auto simp: conn_step_def Let_def shut_ok_def split: prod.splits option.splits intro!: shut_set_conn)
  next
    case (CClear b pc)
    have "all_shut_ok (clear_block s b)" using shut_cong [OF sh] by (simp add: clear_block_def)
    then show ?thesis
      using st k CClear by (auto simp: conn_step_def shut_ok_def intro!: shut_set_conn)
  next
    case CDrainOld
    then show ?thesis
      using st sh k wf chan_recv_zero [of "cold ?k"]
      by (auto simp: conn_step_def Let_def shut_ok_def split: recv_res.splits intro!: shut_set_conn)
  qed (use st sh k in \<open>auto simp: conn_step_def Let_def conn_take_def shut_ok_def Close_def
        split: recv_res.splits if_splits intro!: shut_set_conn shut_crash shut_conn_unref\<close>)
qed

lemma shut_run: "all_shut_ok s \<Longrightarrow> run_step s = Some s' \<Longrightarrow> all_shut_ok s'"
proof -
  assume sh: "all_shut_ok s" and st: "run_step s = Some s'"
  have "shut_ok ((conns s ! c)\<lparr>cnew := ch\<rparr>)" if "c < length (conns s)" for c ch
    using sh that by (auto simp: all_shut_ok_def shut_ok_def)
  moreover have "conns (set_conn s c k) = conns s" if "\<not> c < length (conns s)" for c k
    using that by (simp add: list_update_beyond)
  ultimately have upd: "all_shut_ok (set_conn s c ((conns s ! c)\<lparr>cnew := ch\<rparr>))" for c ch
    using sh shut_set_conn [OF sh] shut_cong [OF sh] by (cases "c < length (conns s)") blast+
  show ?thesis
    using st sh upd shut_cong [OF upd] 
    by (auto simp: run_step_def run_unref_def set_crash_def clear_block_def split: run_pc.splits list.splits option.splits
        send_res.splits unref_out.splits intro: shut_cong)
qed

lemma shut_reads:
  assumes sh: "all_shut_ok s" and c: "c < length (conns s)" and st: "reads_step c s = Some s'"
  shows "all_shut_ok s'"
proof -
  let ?k = "conns s ! c"
  have k: "shut_ok ?k" using sh c by (simp add: all_shut_ok_def)
  then show ?thesis
    using st sh handleReads_iter_uclosed [of "numBlocks s" "sock ?k"]
    by (auto simp: reads_step_def Let_def shut_ok_def
        split: if_splits reads_pc.splits prod.splits read_out.splits send_res.splits option.splits
        intro!: shut_set_conn shut_crash)
qed

lemma exec_shut:
  assumes ex: "exec e s = Some s'" and sh: "all_shut_ok s" and inv: "sock_inv s"
  shows "all_shut_ok s'"
proof (cases e)
  case (EConn c)
  with ex shut_conn [OF sh inv] show ?thesis by (auto simp: on_conn_def split: if_splits)
next
  case (EReads c)
  with ex shut_reads [OF sh] show ?thesis by (auto simp: on_conn_def split: if_splits)
next
  case ERun
  with ex shut_run [OF sh] show ?thesis by simp
next
  case (EOldConn c)
  with ex sh have "all_shut_ok (set_conn s c ((conns s ! c)\<lparr>c_pc := CDrainNew\<rparr>))"
    by (auto simp: run_oldConn_def all_shut_ok_def shut_ok_def split: if_splits dest!: set_update_subset)
  from shut_cong [OF this] ex EOldConn show ?thesis by (auto simp: run_oldConn_def split: if_splits)
qed (use ex sh in \<open>auto simp: step_defs conn_take_def set_crash_def all_shut_ok_def shut_ok_def Let_def
      split: if_splits get_pc.splits recv_res.splits send_res.splits dest!: set_update_subset\<close>)

section \<open>Winding down\<close>

text \<open>The steps of the goroutines, and clients hanging up: no new client, no data of a client, no new packets, no failure of
  \<^verbatim>\<open>select\<close>.\<close>

fun winds_down :: "event \<Rightarrow> bool" where
  "winds_down (EKernel b v) = False"
| "winds_down (EGetFail m) = False"
| "winds_down (ENewConn k) = False"
| "winds_down (EClient c bs) = False"
| "winds_down e = True"

definition alive :: "socket \<Rightarrow> bool" where
  "alive s \<longleftrightarrow> sock_inv s \<and> few_conns s \<and> crashed s = None \<and> all_shut_ok s"

lemma exec_no_wait_failure:
  assumes "exec e s = Some s'" and "crashed s = None" and "\<And>m. e \<noteq> EGetFail m"
  shows "crashed s' \<noteq> Some (WaitFailed m)"
  using assms
  by (cases e) (auto simp: step_defs run_unref_def conn_unref_def conn_take_def clear_block_def set_crash_def Let_def
      split: if_splits get_pc.splits run_pc.splits list.splits conn_pc.splits reads_pc.splits send_res.splits recv_res.splits
      option.splits prod.splits read_out.splits unref_out.splits)

lemma alive_step:
  assumes "alive s" and "step e s = Some s'" and "winds_down e"
  shows "alive s' \<and> numBlocks s' = numBlocks s \<and> length (conns s') = length (conns s)"
proof -
  have ex: "exec e s = Some s'" using assms(2) by (simp add: step_def split: if_splits)
  have nk: "e \<noteq> ENewConn k" "e \<noteq> EGetFail m" for k m using assms(3) by auto
  have few: "few_conns s'" using step_few [OF assms(2) nk(1)] assms(1) by (simp add: alive_def)
  have inv: "sock_inv s'" using run_events_inv [OF run_events_one [OF assms(2)] _ few] assms(1) by (simp add: alive_def)
  have "crashed s' = None"
    using exec_no_wait_failure [OF ex _ nk(2)] assms(1) sock_invD(5) [OF inv] by (auto simp: alive_def no_panic_def)
  moreover have "length (conns s') = length (conns s)" using exec_same_conns [OF ex nk(1)] .
  ultimately show ?thesis
    using few inv exec_shut [OF ex] exec_frame [OF ex] assms(1) by (simp add: alive_def)
qed

lemma alive_run:
  assumes "run_events es s = Some s'" and "alive s" and "\<forall>e \<in> set es. winds_down e"
  shows "alive s' \<and> numBlocks s' = numBlocks s \<and> length (conns s') = length (conns s)"
  using assms
proof (induction es arbitrary: s)
  case (Cons e es)
  then obtain t where "step e s = Some t" "run_events es t = Some s'" by (auto split: option.splits)
  with Cons.IH [of t] alive_step [of s e t] Cons.prems show ?case by simp
qed simp

lemma done_stable:
  assumes "exec e s = Some s'" and "d < length (conns s)" and "c_pc (conns s ! d) = CDone"
  shows "c_pc (conns s' ! d) = CDone"
  using assms
  by (cases e) (auto simp: step_defs run_unref_def conn_unref_def conn_take_def clear_block_def set_crash_def nth_append nth_list_update
      cnew_update_conn Let_def
      split: if_splits get_pc.splits run_pc.splits list.splits conn_pc.splits reads_pc.splits send_res.splits recv_res.splits
      option.splits prod.splits read_out.splits unref_out.splits)

lemma done_stable_run:
  assumes "run_events es s = Some s'" and "d < length (conns s)" and "c_pc (conns s ! d) = CDone"
  shows "c_pc (conns s' ! d) = CDone"
  using assms
proof (induction es arbitrary: s)
  case (Cons e es)
  then obtain t where t: "exec e s = Some t" "run_events es t = Some s'"
    by (auto simp: step_def split: option.splits if_splits)
  with Cons.IH [OF t(2)] done_stable [OF t(1)] exec_frame [OF t(1)] Cons.prems show ?case by fastforce
qed simp


section \<open>A client that hung up leaves its main loop\<close>

primrec leave_pc :: "conn_pc \<Rightarrow> nat" where
  "leave_pc CSelect = 1"
| "leave_pc (CBatch out) = 3"
| "leave_pc (CWrite out) = 2"
| "leave_pc (CUnref b) = 3"
| "leave_pc CClose = 0"
| "leave_pc CMarkOld = 0"
| "leave_pc CDrainNew = 0"
| "leave_pc (CDrainUnref b) = 0"
| "leave_pc CDrainOld = 0"
| "leave_pc (CFinal j) = 0"
| "leave_pc CDone = 0"
| "leave_pc (CClear b pc) = Suc (leave_pc pc)"

primrec leave_reads :: "reads_pc \<Rightarrow> uconn \<Rightarrow> nat" where
  "leave_reads HRead w = 2 * read_work w + 2"
| "leave_reads (HSend v) w = 2 * read_work w + 3"
| "leave_reads HDefer w = 1"
| "leave_reads HDone w = 0"

text \<open>What is left to read, to take back, to send, and of the current turn of the loop.\<close>

definition leave_work :: "conn \<Rightarrow> nat" where
  "leave_work k =
     8 * leave_reads (h_pc k) (sock k) + 6 * length (cbuf (cold k)) + 2 * length (cbuf (cnew k)) + leave_pc (c_pc k)"

definition leaving :: "nat \<Rightarrow> socket \<Rightarrow> bool" where
  "leaving c s \<longleftrightarrow>
     alive s \<and> c < length (conns s) \<and> \<not> peer_open (conns s ! c) \<and> pc_phase (c_pc (conns s ! c)) = Active"

lemma leaving_set_conn:
  assumes "leaving c s" and "step e s = Some (set_conn t c k)" and "winds_down e" and "length (conns t) = length (conns s)"
    and "\<not> peer_open k" and "pc_phase (c_pc k) = Active"
  shows "leaving c (set_conn t c k) \<and> conns (set_conn t c k) ! c = k"
  using assms alive_step [of s e "set_conn t c k"] by (simp add: leaving_def)

lemma leaving_reads:
  assumes lv: "leaving c s" and q: "cbuf (cold (conns s ! c)) = []" and op: "\<not> cclosed (cold (conns s ! c))"
  shows "\<exists>s'. step (EReads c) s = Some s' \<and> leaving c s' \<and> leave_work (conns s' ! c) < leave_work (conns s ! c)"
proof -
  let ?k = "conns s ! c"
  have c: "c < length (conns s)" and al: "alive s" and po: "\<not> peer_open ?k" and ph: "pc_phase (c_pc ?k) = Active" and cr: "crashed s = None"
    using lv by (simp_all add: leaving_def alive_def)
  have wf: "conn_wf (numBlocks s) ?k" and n: "0 < numBlocks s"
    using conn_wfD [OF _ c] al sock_invD(1) by (auto simp: alive_def shape_ok_def)
  have st: "step (EReads c) s = reads_step c s" using cr c by (simp add: step_def on_conn_def)
  have fin: ?thesis if "reads_step c s = Some (set_conn s c k')" "\<not> peer_open k'" "pc_phase (c_pc k') = Active"
      "leave_work k' < leave_work ?k" for k'
    using leaving_set_conn [OF lv _ _ refl that(2,3), of "EReads c"] that st by auto
  show ?thesis
  proof (cases "h_pc ?k")
    case HRead
    obtain r w where it: "handleReads_iter (numBlocks s) (sock ?k) = (r, w)" by force
    have np: "r \<noteq> ReadPanic" using handleReads_iter_no_panic [of "numBlocks s" "sock ?k"] it by simp
    show ?thesis
    proof (cases r)
      case ReadReturn
      with HRead it po ph show ?thesis
        by (intro fin [of "?k\<lparr>sock := w, h_pc := HDefer\<rparr>"]) (simp_all add: reads_step_def Let_def leave_work_def)
    next
      case ReadContinue
      then have "read_work w < read_work (sock ?k)" using handleReads_iter_work [OF it] by simp
      with HRead it po ph ReadContinue show ?thesis
        by (intro fin [of "?k\<lparr>sock := w\<rparr>"]) (simp_all add: reads_step_def Let_def leave_work_def)
    next
      case (ReadBlock v)
      then have "read_work w < read_work (sock ?k)" using handleReads_iter_work [OF it] by simp
      with HRead it po ph ReadBlock show ?thesis
        by (intro fin [of "?k\<lparr>sock := w, h_pc := HSend v\<rparr>"]) (simp_all add: reads_step_def Let_def leave_work_def)
    qed (use np in simp)
  next
    case (HSend v)
    with wf n q op have "chan_send (cold ?k) v = SendOk ((cold ?k)\<lparr>cbuf := [v]\<rparr>)"
      by (simp add: chan_send_def conn_wf_def)
    with HSend po ph q show ?thesis
      by (intro fin [of "?k\<lparr>cold := (cold ?k)\<lparr>cbuf := [v]\<rparr>, h_pc := HRead\<rparr>"]) (simp_all add: reads_step_def Let_def leave_work_def)
  next
    case HDefer
    with op have "chan_close (cold ?k) = Some ((cold ?k)\<lparr>cclosed := True\<rparr>)" by (simp add: chan_close_def)
    with HDefer po ph q show ?thesis
      by (intro fin [of "?k\<lparr>cold := (cold ?k)\<lparr>cclosed := True\<rparr>, h_pc := HDone\<rparr>"]) (simp_all add: reads_step_def Let_def leave_work_def)
  next
    case HDone
    with wf op show ?thesis by (simp add: conn_wf_def)
  qed
qed

lemma leaving_select:
  assumes lv: "leaving c s" and pc: "c_pc (conns s ! c) = CSelect" and q: "cbuf (cold (conns s ! c)) \<noteq> [] \<or> cclosed (cold (conns s ! c))"
  shows "\<exists>s'. step (EConnOld c) s = Some s' \<and> leaving c s' \<and> leave_work (conns s' ! c) < leave_work (conns s ! c)"
proof -
  let ?k = "conns s ! c"
  have c: "c < length (conns s)" and al: "alive s" and po: "\<not> peer_open ?k" and cr: "crashed s = None"
    using lv by (simp_all add: leaving_def alive_def)
  have wf: "conn_wf (numBlocks s) ?k" using conn_wfD [OF _ c] al by (simp add: alive_def)
  have st: "step (EConnOld c) s = conn_oldBlock c s" using cr c by (simp add: step_def on_conn_def)
  have fin: ?thesis if "conn_oldBlock c s = Some (set_conn s c k')" "\<not> peer_open k'" "pc_phase (c_pc k') = Active"
      "leave_work k' < leave_work ?k" for k'
    using leaving_set_conn [OF lv _ _ refl that(2,3), of "EConnOld c"] that st by auto
  show ?thesis
  proof (cases "cbuf (cold ?k)")
    case Nil
    with q pc po show ?thesis
      by (intro fin [of "?k\<lparr>c_pc := CClose\<rparr>"]) (simp_all add: conn_oldBlock_def chan_recv_def leave_work_def)
  next
    case (Cons v vs)
    let ?ch = "(cold ?k)\<lparr>cbuf := vs\<rparr>"
    have v: "1 \<le> v" "v - 1 < length (outstanding ?k)" using wf Cons by (auto simp: conn_wf_def)
    have rv: "chan_recv (cold ?k) = RecvVal v ?ch" using Cons by (simp add: chan_recv_def)
    show ?thesis
    proof (cases "outstanding ?k ! (v - 1)")
      case True
      with rv v pc po Cons show ?thesis
        by (intro fin [of "?k\<lparr>cold := ?ch, outstanding := (outstanding ?k)[v - 1 := False], c_pc := CUnref (v - 1)\<rparr>"])
           (simp_all add: conn_oldBlock_def Let_def leave_work_def)
    next
      case False
      with rv v pc po Cons show ?thesis
        by (intro fin [of "?k\<lparr>cold := ?ch, c_pc := CClose\<rparr>"]) (simp_all add: conn_oldBlock_def Let_def leave_work_def)
    qed
  qed
qed


lemma leaving_unref:
  assumes lv: "leaving c s" and pc: "c_pc (conns s ! c) = CUnref b"
  shows "\<exists>s'. step (EConn c) s = Some s' \<and> leaving c s' \<and> leave_work (conns s' ! c) < leave_work (conns s ! c)"
proof -
  let ?k = "conns s ! c"
  have c: "c < length (conns s)" and al: "sock_inv s" "few_conns s" "crashed s = None" and po: "\<not> peer_open ?k"
    using lv by (simp_all add: leaving_def alive_def)
  have b: "b < numBlocks s" using conn_wfD [OF al(1) c] pc by (simp add: conn_wf_def)
  have "0 < chold ?k b" using pc by (simp add: chold_def)
  then have "0 < holders s b" using chold_le_holders [OF c, of b] by simp
  then have np: "snd (unref (refs s ! b)) \<noteq> InvalidUnrefPanic" using unref_held [OF al(1,2) b] by simp
  have st: "step (EConn c) s = Some (conn_unref s c b CSelect)" using al(3) c pc by (simp add: step_def on_conn_def conn_step_def)
  obtain k' where k': "conn_unref s c b CSelect = set_conn (dec_block s b) c k'" "k' = ?k\<lparr>c_pc := CSelect\<rparr> \<or> k' = ?k\<lparr>c_pc := CClear b CSelect\<rparr>"
    using np by (cases "snd (unref (refs s ! b))") (auto simp: conn_unref_def)
  then have "leave_work k' < leave_work ?k" using pc by (auto simp: leave_work_def)
  moreover have "leaving c (set_conn (dec_block s b) c k') \<and> conns (set_conn (dec_block s b) c k') ! c = k'"
    by (rule leaving_set_conn [OF lv st [unfolded k'(1)]]) (use k'(2) po in auto)
  ultimately show ?thesis using st k'(1) by auto
qed

lemma leaving_batch:
  assumes lv: "leaving c s" and pc: "c_pc (conns s ! c) = CBatch out"
  shows "\<exists>s'. step (EConn c) s = Some s' \<and> leaving c s' \<and> leave_work (conns s' ! c) < leave_work (conns s ! c)"
proof -
  let ?k = "conns s ! c"
  have c: "c < length (conns s)" and al: "sock_inv s" "crashed s = None" and po: "\<not> peer_open ?k"
    using lv by (simp_all add: leaving_def alive_def)
  have op: "\<not> cclosed (cnew ?k)" using phase_okD [OF al(1) c] pc by (simp add: phase_ok_def)
  have st: "step (EConn c) s = conn_step c s" using al(2) c by (simp add: step_def on_conn_def)
  have fin: ?thesis if "conn_step c s = Some (set_conn s c k')" "\<not> peer_open k'" "pc_phase (c_pc k') = Active"
      "leave_work k' < leave_work ?k" for k'
    using leaving_set_conn [OF lv _ _ refl that(2,3), of "EConn c"] that st by auto
  show ?thesis
  proof (cases "cbuf (cnew ?k)")
    case Nil
    with pc po op show ?thesis
      by (intro fin [of "?k\<lparr>c_pc := CWrite out\<rparr>"]) (simp_all add: conn_step_def chan_recv_def leave_work_def)
  next
    case (Cons b bs)
    let ?ch = "(cnew ?k)\<lparr>cbuf := bs\<rparr>"
    have rv: "chan_recv (cnew ?k) = RecvVal b ?ch" using Cons by (simp add: chan_recv_def)
    have b: "b < numBlocks s" "b < length (outstanding ?k)" using conn_wfD [OF al(1) c] Cons by (auto simp: conn_wf_def)
    have "chold ?k b \<le> 1" using tokens_okD [OF al(1) b(1)] c by (simp add: token_ok_def)
    then have "\<not> outstanding ?k ! b" using Cons b(2) pc by (auto simp: chold_def)
    with pc po rv b(2) Cons show ?thesis
      by (intro fin [of "?k\<lparr>cnew := ?ch, outstanding := (outstanding ?k)[b := True], c_pc := CBatch (out @ PutUint32 (of_nat b))\<rparr>"])
         (simp_all add: conn_step_def conn_take_def Let_def leave_work_def)
  qed
qed

lemma leaving_step:
  assumes lv: "leaving c s" and pc: "c_pc (conns s ! c) \<notin> {CClose, CMarkOld}"
  shows "\<exists>e s'. e \<in> {EConn c, EConnOld c, EReads c} \<and> step e s = Some s' \<and> leaving c s' \<and>
           leave_work (conns s' ! c) < leave_work (conns s ! c)"
proof -
  let ?k = "conns s ! c"
  have c: "c < length (conns s)" and cr: "crashed s = None" and po: "\<not> peer_open ?k" and ph: "pc_phase (c_pc ?k) = Active"
    using lv by (simp_all add: leaving_def alive_def)
  have st: "step (EConn c) s = conn_step c s" using cr c by (simp add: step_def on_conn_def)
  show ?thesis
  proof (cases "c_pc ?k")
    case CSelect
    with leaving_select [OF lv] leaving_reads [OF lv] show ?thesis by blast
  next
    case (CBatch out)
    with leaving_batch [OF lv] show ?thesis by blast
  next
    case (CUnref b)
    with leaving_unref [OF lv] show ?thesis by blast
  next
    case (CWrite out)
    obtain r w where w: "Write (sock ?k) out = (r, w)" by force
    then have rw: "read_work w = read_work (sock ?k)" by (auto simp: Write_def read_work_def split: if_splits option.splits)
    obtain k' where k': "conn_step c s = Some (set_conn s c k')" "k' = ?k\<lparr>sock := w, c_pc := CSelect\<rparr> \<or> k' = ?k\<lparr>sock := w, c_pc := CClose\<rparr>"
      using CWrite w by (cases r) (auto simp: conn_step_def Let_def)
    have "leave_reads h w = leave_reads h (sock ?k)" for h by (cases h) (simp_all add: rw)
    then have "leave_work k' < leave_work ?k" using k'(2) CWrite by (auto simp: leave_work_def)
    moreover have "leaving c (set_conn s c k') \<and> conns (set_conn s c k') ! c = k'"
      by (rule leaving_set_conn [OF lv, of "EConn c"]) (use k' st po in auto)
    ultimately show ?thesis using st k'(1) by (intro exI [of _ "EConn c"]) auto
  next
    case (CClear b pc)
    let ?k' = "?k\<lparr>c_pc := pc\<rparr>"
    have "conn_step c s = Some (set_conn (clear_block s b) c ?k')" using CClear by (simp add: conn_step_def)
    moreover from this have "leaving c (set_conn (clear_block s b) c ?k') \<and> conns (set_conn (clear_block s b) c ?k') ! c = ?k'"
      by (intro leaving_set_conn [OF lv, of "EConn c"]) (use CClear st po ph in auto)
    moreover have "leave_work ?k' < leave_work ?k" using CClear by (simp add: leave_work_def)
    ultimately show ?thesis using st by (intro exI [of _ "EConn c"]) auto
  qed (use pc ph in simp_all)
qed

lemma leaving_closes:
  assumes "leaving c s"
  shows "\<exists>es s'. (\<forall>e \<in> set es. winds_down e) \<and> run_events es s = Some s' \<and> alive s' \<and> c < length (conns s') \<and>
           c_pc (conns s' ! c) \<in> {CClose, CMarkOld}"
  using assms
proof (induction "leave_work (conns s ! c)" arbitrary: s rule: less_induct)
  case less
  show ?case
  proof (cases "c_pc (conns s ! c) \<in> {CClose, CMarkOld}")
    case True
    with less.prems show ?thesis by (intro exI [of _ "[]"]) (simp add: leaving_def)
  next
    case False
    then obtain e t where e: "e \<in> {EConn c, EConnOld c, EReads c}" "step e s = Some t" "leaving c t"
        "leave_work (conns t ! c) < leave_work (conns s ! c)"
      using leaving_step [OF less.prems] by blast
    obtain es s' where "\<forall>e \<in> set es. winds_down e" "run_events es t = Some s'" "alive s'" "c < length (conns s')"
        "c_pc (conns s' ! c) \<in> {CClose, CMarkOld}"
      using less.hyps [OF e(4,3)] by blast
    with e(1,2) show ?thesis by (intro exI [of _ "e # es"]) auto
  qed
qed


section \<open>Every client can be finished\<close>

text \<open>A state can wind down to one with property \<open>P\<close>.\<close>

definition winds_to :: "socket \<Rightarrow> (socket \<Rightarrow> bool) \<Rightarrow> bool" where
  "winds_to s P \<longleftrightarrow> (\<exists>es s'. (\<forall>e \<in> set es. winds_down e) \<and> run_events es s = Some s' \<and> P s')"

lemma winds_to_run:
  assumes "run_events es s = Some s'" and "\<forall>e \<in> set es. winds_down e" and "P s'"
  shows "winds_to s P"
  using assms unfolding winds_to_def by blast

lemma winds_to_trans:
  assumes "winds_to s P" and "\<And>t. P t \<Longrightarrow> winds_to t Q"
  shows "winds_to s Q"
proof -
  obtain es t where es: "\<forall>e \<in> set es. winds_down e" "run_events es s = Some t" "P t"
    using assms(1) by (auto simp: winds_to_def)
  obtain fs u where fs: "\<forall>e \<in> set fs. winds_down e" "run_events fs t = Some u" "Q u"
    using assms(2) [OF es(3)] by (auto simp: winds_to_def)
  show ?thesis
    by (rule winds_to_run [of "es @ fs"]) (use es fs in \<open>auto simp: run_events_append\<close>)
qed

lemma winds_to_select: "alive s \<Longrightarrow> winds_to s (\<lambda>t. \<exists>k. run_events (replicate k ERun) s = Some t \<and> alive t \<and> r_pc t = RSelect)"
proof -
  assume al: "alive s"
  then obtain k t where t: "run_events (replicate k ERun) s = Some t" "r_pc t = RSelect"
    using run_to_select [of s] by (auto simp: alive_def)
  then show ?thesis
    using alive_run [OF t(1) al] by (intro winds_to_run [OF t(1)]) auto
qed

definition done_at :: "nat \<Rightarrow> socket \<Rightarrow> bool" where
  "done_at c s \<longleftrightarrow> alive s \<and> c < length (conns s) \<and> c_pc (conns s ! c) = CDone"

lemma closing_done:
  assumes "alive s" and "closing c s"
  shows "winds_to s (done_at c)"
proof -
  obtain es s' where es: "set es \<subseteq> {EConn c, EReads c}" "run_events es s = Some s'" "c_pc (conns s' ! c) = CDone" "c < length (conns s')"
    using closing_finishes [of s c] assms by (auto simp: alive_def)
  then have "\<forall>e \<in> set es. winds_down e" by auto
  with es alive_run [OF es(2) assms(1)] show ?thesis by (intro winds_to_run [OF es(2)]) (auto simp: done_at_def)
qed

lemma draining_done:
  assumes al: "alive s" and c: "c < length (conns s)" and ph: "pc_phase (c_pc (conns s ! c)) \<noteq> Active"
  shows "winds_to s (done_at c)"
proof (rule winds_to_trans [OF winds_to_select [OF al]])
  fix t assume "\<exists>k. run_events (replicate k ERun) s = Some t \<and> alive t \<and> r_pc t = RSelect"
  then obtain k where t: "run_events (replicate k ERun) s = Some t" "alive t" "r_pc t = RSelect" by blast
  have tc: "c < length (conns t)" "c_pc (conns t ! c) = c_pc (conns s ! c)"
    using run_replicate_conn [OF t(1) c] al by (simp_all add: alive_def)
  have sh: "shut_ok (conns t ! c)" using t(2) tc(1) by (simp add: alive_def all_shut_ok_def)
  have "pc_closed pc" if "pc_phase pc \<noteq> Active" for pc using that by (induction pc) simp_all
  then have "uclosed (sock (conns t ! c))" using sh ph tc(2) by (simp add: shut_ok_def)
  moreover have "cclosed (cnew (conns t ! c))"
    using phase_okD [OF _ tc(1)] t(2,3) ph tc(2) by (auto simp: alive_def phase_ok_def split: phase.splits)
  ultimately have "closing c t" using t(2) tc ph by (simp add: closing_def alive_def)
  then show "winds_to t (done_at c)" using closing_done t(2) by blast
qed

lemma markOld_done:
  assumes al: "alive s" and c: "c < length (conns s)" and pc: "c_pc (conns s ! c) = CMarkOld"
  shows "winds_to s (done_at c)"
proof -
  have "shut_ok (conns s ! c)" using al c by (simp add: alive_def all_shut_ok_def)
  then have "uclosed (sock (conns s ! c))" using pc by (simp add: shut_ok_def)
  then obtain es t where es: "set es \<subseteq> {ERun, EOldConn c}" "run_events es s = Some t" "closing c t"
    using markOld_closing [of s c] al c pc by (auto simp: alive_def)
  then have w: "\<forall>e \<in> set es. winds_down e" by auto
  show ?thesis
    by (rule winds_to_trans [OF winds_to_run [OF es(2) w, of "\<lambda>t. alive t \<and> closing c t"]])
       (use alive_run [OF es(2) al w] es(3) closing_done in auto)
qed

lemma close_done:
  assumes al: "alive s" and c: "c < length (conns s)" and pc: "c_pc (conns s ! c) = CClose"
  shows "winds_to s (done_at c)"
proof -
  let ?t = "set_conn s c ((conns s ! c)\<lparr>sock := Close (sock (conns s ! c)), c_pc := CMarkOld\<rparr>)"
  have st: "step (EConn c) s = Some ?t" using al c pc by (simp add: step_def on_conn_def conn_step_def alive_def Let_def)
  have "winds_to s (\<lambda>t. t = ?t)" by (rule winds_to_run [OF run_events_one [OF st]]) simp_all
  then show ?thesis
    by (rule winds_to_trans) (use alive_step [OF al st] c markOld_done in simp)
qed

lemma client_done:
  assumes al: "alive s" and c: "c < length (conns s)"
  shows "winds_to s (done_at c)"
proof (cases "pc_phase (c_pc (conns s ! c)) = Active")
  case False
  then show ?thesis using draining_done [OF al c] by blast
next
  case True
  have "winds_to s (leaving c)"
  proof (cases "peer_open (conns s ! c)")
    case True
    let ?t = "set_conn s c ((conns s ! c)\<lparr>peer_open := False\<rparr>)"
    have st: "step (EHangup c) s = Some ?t"
      using al c True by (simp add: step_def on_conn_def client_hangup_def alive_def Let_def)
    then have "leaving c ?t"
      using alive_step [OF al st] c \<open>pc_phase (c_pc (conns s ! c)) = Active\<close> by (simp add: leaving_def)
    then show ?thesis using winds_to_run [OF run_events_one [OF st], of "leaving c"] by simp
  next
    case False
    then have "leaving c s" using al c \<open>pc_phase (c_pc (conns s ! c)) = Active\<close> by (simp add: leaving_def)
    then show ?thesis by (intro winds_to_run [of "[]"]) simp_all
  qed
  then show ?thesis
  proof (rule winds_to_trans)
    fix t assume "leaving c t"
    then have "winds_to t (\<lambda>u. alive u \<and> c < length (conns u) \<and> c_pc (conns u ! c) \<in> {CClose, CMarkOld})"
      using leaving_closes [of c t] unfolding winds_to_def by blast
    then show "winds_to t (done_at c)"
    proof (rule winds_to_trans)
      fix u assume u: "alive u \<and> c < length (conns u) \<and> c_pc (conns u ! c) \<in> {CClose, CMarkOld}"
      then show "winds_to u (done_at c)" using markOld_done close_done by blast
    qed
  qed
qed

lemma clients_done:
  assumes "alive s" and "m \<le> length (conns s)"
  shows "winds_to s (\<lambda>t. alive t \<and> length (conns t) = length (conns s) \<and> (\<forall>c < m. c_pc (conns t ! c) = CDone))"
  using assms(2)
proof (induction m)
  case 0
  then show ?case using assms(1) by (intro winds_to_run [of "[]"]) simp_all
next
  case (Suc m)
  then have "winds_to s (\<lambda>t. alive t \<and> length (conns t) = length (conns s) \<and> (\<forall>c < m. c_pc (conns t ! c) = CDone))" by simp
  then show ?case
  proof (rule winds_to_trans)
    fix t assume t: "alive t \<and> length (conns t) = length (conns s) \<and> (\<forall>c < m. c_pc (conns t ! c) = CDone)"
    then obtain es u where es: "\<forall>e \<in> set es. winds_down e" "run_events es t = Some u" "done_at m u"
      using client_done [of t m] Suc.prems by (auto simp: winds_to_def)
    have "c_pc (conns u ! c) = CDone" if "c < m" for c
      using done_stable_run [OF es(2), of c] t that Suc.prems by simp
    then show "winds_to t (\<lambda>t. alive t \<and> length (conns t) = length (conns s) \<and> (\<forall>c < Suc m. c_pc (conns t ! c) = CDone))"
      using es t alive_run [OF es(2)] by (intro winds_to_run [OF es(2,1)]) (auto simp: done_at_def less_Suc_eq)
  qed
qed


section \<open>The queue can be drained\<close>

lemma run_replicate_queue:
  "run_events (replicate k ERun) s = Some s' \<Longrightarrow> newBlocks s' = newBlocks s \<and> g_pc s' = g_pc s"
proof (induction k arbitrary: s)
  case (Suc k)
  then obtain t where t: "step ERun s = Some t" "run_events (replicate k ERun) t = Some s'" by (auto split: option.splits)
  then have "newBlocks t = newBlocks s \<and> g_pc t = g_pc s"
    by (auto simp: step_def run_step_def run_unref_def clear_block_def set_crash_def
        split: if_splits run_pc.splits list.splits option.splits send_res.splits unref_out.splits)
  with Suc.IH [OF t(2)] show ?case by simp
qed simp

definition all_done :: "socket \<Rightarrow> bool" where
  "all_done s \<longleftrightarrow> alive s \<and> (\<forall>c < length (conns s). c_pc (conns s ! c) = CDone)"

lemma all_done_run:
  assumes "run_events es s = Some s'" and "all_done s" and "\<forall>e \<in> set es. winds_down e"
  shows "all_done s'"
  using assms done_stable_run [OF assms(1)] alive_run [OF assms(1) _ assms(3)] by (simp add: all_done_def)

lemma all_done_conns:
  assumes "all_done s"
  shows "currentConns s = []" and "k \<in> set (conns s) \<Longrightarrow> c_pc k = CDone \<and> cbuf (cnew k) = []"
proof -
  have ph: "phase_ok (r_pc s) (currentConns s) c (conns s ! c)" if "c < length (conns s)" for c
    using phase_okD [OF _ that] assms by (simp add: all_done_def alive_def)
  have "c \<notin> set (currentConns s)" if "c < length (conns s)" for c
    using ph [OF that] assms that by (simp add: phase_ok_def all_done_def)
  moreover have "set (currentConns s) \<subseteq> {..<length (conns s)}"
    using assms sock_invD(1) [of s] by (simp add: all_done_def alive_def shape_ok_def)
  ultimately have "x \<notin> set (currentConns s)" for x by (cases "x < length (conns s)") auto
  then show "currentConns s = []" by (cases "currentConns s") auto
  assume "k \<in> set (conns s)"
  then obtain c where "c < length (conns s)" "k = conns s ! c" by (auto simp: in_set_conv_nth)
  with ph assms show "c_pc k = CDone \<and> cbuf (cnew k) = []" by (auto simp: phase_ok_def all_done_def)
qed

lemma get_send_room:
  assumes inv: "sock_inv s" and pc: "g_pc s = GSend"
  shows "\<exists>ch. chan_send (newBlocks s) (blockIndex s) = SendOk ch"
proof -
  let ?b = "blockIndex s" and ?q = "newBlocks s"
  have sh: "?b < numBlocks s" "ccap ?q = numBlocks s" "\<not> cclosed ?q" "set (cbuf ?q) \<subseteq> {..<numBlocks s}"
    using sock_invD(1) [OF inv] by (simp_all add: shape_ok_def)
  have cnt: "count_list (cbuf ?q) x \<le> 1" for x
  proof (cases "x < numBlocks s")
    case True
    then show ?thesis using tokens_okD [OF inv True] by (simp add: token_ok_def)
  next
    case False
    then have "x \<notin> set (cbuf ?q)" using sh(4) by auto
    then show ?thesis by (simp add: count_list_eq_0 [symmetric])
  qed
  have "get_hold s ?b = 1" using pc by (simp add: get_hold_def)
  then have "count_list (cbuf ?q) ?b = 0" using tokens_okD [OF inv sh(1)] by (simp add: token_ok_def)
  then have "?b \<notin> set (cbuf ?q)" by (simp add: count_list_eq_0)
  then have "\<exists>ch. chan_put ?q ?b = Some ch"
    using sh distinct_if_count [OF cnt] by (intro gc.put_distinct [where A = "{..<numBlocks s}"]) auto
  then show ?thesis by (simp add: chan_send_put)
qed

lemma pending_sent:
  assumes "all_done s"
  shows "winds_to s (\<lambda>t. all_done t \<and> g_pc t \<noteq> GSend)"
proof (cases "g_pc s = GSend")
  case False
  then show ?thesis using assms by (intro winds_to_run [of "[]"]) simp_all
next
  case True
  obtain ch where ch: "chan_send (newBlocks s) (blockIndex s) = SendOk ch"
    using get_send_room True assms by (auto simp: all_done_def alive_def)
  then obtain t where t: "step EGet s = Some t" "g_pc t = GLoad"
    using True assms by (auto simp: step_def getNewBlocks_step_def all_done_def alive_def Let_def)
  then show ?thesis
    using all_done_run [OF run_events_one [OF t(1)] assms] by (intro winds_to_run [OF run_events_one [OF t(1)]]) simp_all
qed

lemma queue_drained:
  assumes "all_done s" and "g_pc s \<noteq> GSend"
  shows "winds_to s (\<lambda>t. all_done t \<and> g_pc t \<noteq> GSend \<and> r_pc t = RSelect \<and> cbuf (newBlocks t) = [])"
  using assms
proof (induction "length (cbuf (newBlocks s))" arbitrary: s rule: less_induct)
  case less
  have al: "alive s" using less.prems by (simp add: all_done_def)
  from winds_to_select [OF al] show ?case
  proof (rule winds_to_trans)
    fix t assume "\<exists>k. run_events (replicate k ERun) s = Some t \<and> alive t \<and> r_pc t = RSelect"
    then obtain k where k: "run_events (replicate k ERun) s = Some t" "r_pc t = RSelect" by blast
    have t: "all_done t" "newBlocks t = newBlocks s" "g_pc t = g_pc s"
      using all_done_run [OF k(1) less.prems(1)] run_replicate_queue [OF k(1)] by simp_all
    show "winds_to t (\<lambda>t. all_done t \<and> g_pc t \<noteq> GSend \<and> r_pc t = RSelect \<and> cbuf (newBlocks t) = [])"
    proof (cases "cbuf (newBlocks s)")
      case Nil
      then have "cbuf (newBlocks t) = []" using t(2) by simp
      then show ?thesis using t(1,3) k(2) less.prems(2) by (intro winds_to_run [of "[]"]) auto
    next
      case (Cons b bs)
      let ?u = "t\<lparr>newBlocks := (newBlocks t)\<lparr>cbuf := bs\<rparr>, r_pc := RRange b []\<rparr>"
      have st: "step (ENewBlock []) t = Some ?u"
        using t k(2) Cons all_done_conns(1) [OF t(1)]
        by (simp add: step_def run_newBlock_def chan_recv_def all_done_def alive_def)
      have u: "all_done ?u" using all_done_run [OF run_events_one [OF st] t(1)] by simp
      have "winds_to t (\<lambda>u. u = ?u)" by (rule winds_to_run [OF run_events_one [OF st]]) simp_all
      then show ?thesis
        by (rule winds_to_trans) (use less.hyps [of ?u] u Cons t(3) less.prems(2) in simp)
    qed
  qed
qed


section \<open>Recovery\<close>

lemma reach_alive:
  assumes "reach n s" and "0 < n" and "few_conns s" and "crashed s = None"
  shows "alive s"
proof -
  have "all_shut_ok s" using assms(1,3)
  proof (induction rule: reach.induct)
    case start
    then show ?case by (simp add: all_shut_ok_def init_socket_def)
  next
    case (next_step s e s')
    then have ex: "exec e s = Some s'" by (simp add: step_def split: if_splits)
    have "few_conns s" using step_few_before [OF next_step.hyps(2) next_step.prems] .
    then show ?case
      using exec_shut [OF ex] next_step reach_inv [OF next_step.hyps(1) assms(2)] by blast
  qed
  then show ?thesis using reach_inv [OF assms(1-3)] assms(3,4) by (simp add: alive_def)
qed

lemma idle_free:
  assumes ad: "all_done s" and "g_pc s \<noteq> GSend" and "r_pc s = RSelect" and "cbuf (newBlocks s) = []"
  shows "refs s = replicate (numBlocks s) 0" and "i < numBlocks s \<Longrightarrow> owner_of s i \<in> {Kernel, Filled}"
proof -
  have al: "sock_inv s" "few_conns s" using ad by (simp_all add: all_done_def alive_def)
  have "chold k i = 0" if "k \<in> set (conns s)" for k i
    using all_done_conns(2) [OF ad that] by (simp add: chold_def)
  then have "holders s i = 0" for i using assms(2-4) by (simp add: holders_zero_iff get_hold_def)
  then have z: "refs s ! i = 0" if "i < numBlocks s" for i using refs_zero_iff [OF al that] by simp
  show "refs s = replicate (numBlocks s) 0"
    using z sock_invD(1) [OF al(1)] by (intro nth_equalityI) (simp_all add: shape_ok_def)
  assume i: "i < numBlocks s"
  have "pc_nclears (c_pc k) i = 0" if "k \<in> set (conns s)" for k
    using all_done_conns(2) [OF ad that] by simp
  then have "clears s i = 0" using assms(3) by (simp add: clears_def sum_map_zero_iff)
  then show "owner_of s i \<in> {Kernel, Filled}" using z [OF i] by (simp add: owner_of_def)
qed

text \<open>C12: the daemon always recovers.  From every reachable state of a live daemon, whatever its clients have sent, returned
  or failed to return, once they hang up the goroutines by themselves can come to a state in which both goroutines
  of every connection have ended, no client is registered, every reference counter is zero and every block belongs to
  the kernel or is filled and not yet announced.  No deadlock, leaked goroutine or leaked reference is possible.\<close>

theorem daemon_recovers:
  assumes "reach n s" and "0 < n" and "few_conns s" and "crashed s = None"
  shows "\<exists>es s'. (\<forall>e \<in> set es. winds_down e) \<and> run_events es s = Some s' \<and> crashed s' = None \<and> currentConns s' = [] \<and>
           (\<forall>k \<in> set (conns s'). c_pc k = CDone \<and> h_pc k = HDone) \<and> refs s' = replicate n 0 \<and>
           (\<forall>i < n. owner_of s' i \<in> {Kernel, Filled})"
proof -
  have al: "alive s" by (rule reach_alive [OF assms])
  have "winds_to s all_done"
    by (rule winds_to_trans [OF clients_done [OF al le_refl] winds_to_run [of "[]"]]) (auto simp: all_done_def)
  then have "winds_to s (\<lambda>t. all_done t \<and> g_pc t \<noteq> GSend \<and> r_pc t = RSelect \<and> cbuf (newBlocks t) = [])"
    using pending_sent queue_drained by (blast intro: winds_to_trans)
  then obtain es s' where es: "\<forall>e \<in> set es. winds_down e" "run_events es s = Some s'"
      and s': "all_done s'" "g_pc s' \<noteq> GSend" "r_pc s' = RSelect" "cbuf (newBlocks s') = []"
    by (auto simp: winds_to_def)
  have "numBlocks s' = n" using alive_run [OF es(2) al es(1)] reach_inv [OF assms(1-3)] by simp
  moreover have "c_pc k = CDone \<and> h_pc k = HDone" if "k \<in> set (conns s')" for k
    using all_done_conns(2) [OF s'(1) that] s'(1) that by (auto simp: all_done_def alive_def all_shut_ok_def shut_ok_def)
  moreover have "crashed s' = None" using s'(1) by (simp add: all_done_def alive_def)
  ultimately show ?thesis
    using es all_done_conns(1) [OF s'(1)] idle_free [OF s'] by blast
qed

theorem daemon_recovers_witness:
  "\<exists>es s'. list_all winds_down es \<and> run_events es demo_delivered = Some s' \<and> currentConns s' = [] \<and> refs s' = [0, 0]"
proof -
  have "reach 2 demo_delivered" "crashed demo_delivered = None"
    using run_events_reach [OF reach.start demo_deliver_run] by (simp_all add: demo_delivered_def)
  from daemon_recovers [OF this(1) _ demo_few(2) this(2)] obtain es s'
    where "\<forall>e \<in> set es. winds_down e" "run_events es demo_delivered = Some s'" "currentConns s' = []" "refs s' = replicate 2 0"
    by auto
  moreover have "replicate 2 (0 :: i32) = [0, 0]" by (simp add: numeral_2_eq_2)
  ultimately show ?thesis by (intro exI [of _ es] exI [of _ s']) (simp add: list_all_iff)
qed


end
