(* ===== verification/Event_System.thy ===== *)
theory Event_System
  imports Main
begin

text \<open>
  Labelled transition systems with an invariant, and refinement maps between them.  A concrete step leaves the
  abstract state alone or performs one abstract step; the locale \<open>refinement\<close> lifts this to whole runs and
  carries abstract invariants over to the concrete system.
\<close>

section \<open>Traces\<close>

inductive trace :: "('e \<Rightarrow> 's \<Rightarrow> 's \<Rightarrow> bool) \<Rightarrow> 's \<Rightarrow> 'e list \<Rightarrow> 's \<Rightarrow> bool" for T where
  trace_Nil: "trace T s [] s"
| trace_Cons: "T e s t \<Longrightarrow> trace T t es u \<Longrightarrow> trace T s (e # es) u"

inductive_simps trace_simps [simp]: "trace T s [] u" "trace T s (e # es) u"

text \<open>Steps of a system that may also do nothing.\<close>

fun stutter :: "('e \<Rightarrow> 's \<Rightarrow> 's \<Rightarrow> bool) \<Rightarrow> 'e option \<Rightarrow> 's \<Rightarrow> 's \<Rightarrow> bool" where
  "stutter T None s s' = (s' = s)"
| "stutter T (Some a) s s' = T a s s'"

text \<open>An abstract trace goes along with a concrete one: at each position nothing, or an action that the concrete event
  may perform.\<close>

definition along :: "('e \<Rightarrow> 'a \<Rightarrow> bool) \<Rightarrow> 'e list \<Rightarrow> 'a option list \<Rightarrow> bool" where
  "along perf = list_all2 (\<lambda>e x. case x of None \<Rightarrow> True | Some a \<Rightarrow> perf e a)"

lemma along_simps [simp]:
  "along perf [] []" "along perf (e # es) (None # as) = along perf es as"
  "along perf (e # es) (Some a # as) = (perf e a \<and> along perf es as)"
  by (simp_all add: along_def)

section \<open>Invariants\<close>

locale event_system =
  fixes start :: "'s \<Rightarrow> bool" and trans :: "'e \<Rightarrow> 's \<Rightarrow> 's \<Rightarrow> bool" and inv :: "'s \<Rightarrow> bool"
  assumes inv_start: "start s \<Longrightarrow> inv s"
    and inv_trans: "inv s \<Longrightarrow> trans e s s' \<Longrightarrow> inv s'"
begin

lemma inv_trace: "trace trans s es s' \<Longrightarrow> inv s \<Longrightarrow> inv s'"
  by (induction rule: trace.induct) (auto intro: inv_trans)

lemma inv_run: "start s \<Longrightarrow> trace trans s es s' \<Longrightarrow> inv s'"
  using inv_trace inv_start by blast

end

section \<open>Refinement maps\<close>

locale refinement = event_system start trans inv
  for start :: "'s \<Rightarrow> bool" and trans :: "'e \<Rightarrow> 's \<Rightarrow> 's \<Rightarrow> bool" and inv :: "'s \<Rightarrow> bool" +
  fixes astart :: "'t \<Rightarrow> bool" and atrans :: "'a \<Rightarrow> 't \<Rightarrow> 't \<Rightarrow> bool"
    and abs :: "'s \<Rightarrow> 't" and perf :: "'e \<Rightarrow> 'a \<Rightarrow> bool"
  assumes abs_start: "start s \<Longrightarrow> astart (abs s)"
    and abs_trans: "inv s \<Longrightarrow> trans e s s' \<Longrightarrow>
      abs s' = abs s \<or> (\<exists>a. perf e a \<and> atrans a (abs s) (abs s'))"
begin

lemma trace_refines:
  "trace trans s es s' \<Longrightarrow> inv s \<Longrightarrow> \<exists>as. along perf es as \<and> trace (stutter atrans) (abs s) as (abs s')"
proof (induction rule: trace.induct)
  case (trace_Nil s)
  then show ?case by (intro exI [of _ "[]"]) simp
next
  case (trace_Cons e s t es u)
  then obtain as where as: "along perf es as" "trace (stutter atrans) (abs t) as (abs u)"
    using inv_trans by blast
  from abs_trans [OF trace_Cons.prems trace_Cons.hyps(1)] show ?case
  proof
    assume "abs t = abs s"
    with as show ?thesis by (intro exI [of _ "None # as"]) simp
  next
    assume "\<exists>a. perf e a \<and> atrans a (abs s) (abs t)"
    then obtain a where "perf e a" "atrans a (abs s) (abs t)" by blast
    with as show ?thesis by (intro exI [of _ "Some a # as"]) auto
  qed
qed

text \<open>A run from a start state, and what an invariant of the abstract system says of it.\<close>

lemma run_refines:
  assumes "start s" and "trace trans s es s'"
  shows "\<exists>as. along perf es as \<and> astart (abs s) \<and> trace (stutter atrans) (abs s) as (abs s')"
  using trace_refines [OF assms(2) inv_start [OF assms(1)]] abs_start [OF assms(1)] by blast

end

end
