(* ===== verification/Socket_Refine.thy ===== *)
theory Socket_Refine
  imports Socket_Spec Event_System
begin

text \<open>
  The goroutines of a socket as an implementation of the abstract ring, for whole runs: every run without overlap of
  \<^verbatim>\<open>ready\<close> and a pending clear goes along with a run of the ring, and what holds of every run of the ring, such as the
  life cycle of a block, holds of the daemon.
\<close>

section \<open>The life cycle of a block in the abstract ring\<close>

fun held :: "owner \<Rightarrow> nat" where
  "held (Held k) = k"
| "held w = 0"

fun is_held :: "owner \<Rightarrow> bool" where
  "is_held (Held k) = True"
| "is_held w = False"

definition performed :: "action option list \<Rightarrow> action \<Rightarrow> nat" where
  "performed as a = count_list as (Some a)"

text \<open>The number of each action of block \<open>b\<close> on the way from owner \<open>w\<close> to owner \<open>w'\<close>.\<close>

definition balanced :: "action option list \<Rightarrow> nat \<Rightarrow> owner \<Rightarrow> owner \<Rightarrow> bool" where
  "balanced as b w w' \<longleftrightarrow>
     performed as (Fill b) + of_bool (w \<noteq> Kernel) = performed as (GiveBack b) + of_bool (w' \<noteq> Kernel) \<and>
     performed as (Announce b) + of_bool (is_held w) = performed as (GiveBack b) + of_bool (is_held w') \<and>
     performed as (Announce b) + performed as (Share b) + held w = performed as (Release b) + held w'"

lemma balanced_step:
  assumes "ring_step a os os'" and "b < length os"
  shows "balanced [Some a] b (os ! b) (os' ! b) \<and> length os' = length os"
  using assms by (cases rule: ring_step.cases) (auto simp: balanced_def performed_def nth_list_update split: if_splits)

lemma balanced_append:
  "balanced as b w v \<Longrightarrow> balanced as' b v w' \<Longrightarrow> balanced (as @ as') b w w'"
  by (auto simp: balanced_def performed_def)

lemma ring_balanced:
  "trace (stutter ring_step) os as os' \<Longrightarrow> b < length os \<Longrightarrow> balanced as b (os ! b) (os' ! b) \<and> length os' = length os"
proof (induction rule: trace.induct)
  case (trace_Nil s)
  then show ?case by (simp add: balanced_def performed_def)
next
  case (trace_Cons x os os1 as os')
  have "balanced [x] b (os ! b) (os1 ! b) \<and> length os1 = length os"
    using trace_Cons.hyps(1) trace_Cons.prems balanced_step by (cases x) (auto simp: balanced_def performed_def)
  then show ?case
    using trace_Cons.IH trace_Cons.prems balanced_append [of "[x]" b "os ! b" "os1 ! b" as] by simp
qed

lemma performed_le: "along performs es as \<Longrightarrow> performed as a \<le> length (filter (\<lambda>e. performs e a) es)"
  unfolding along_def by (induction rule: list_all2_induct) (auto simp: performed_def split: option.splits)

section \<open>The refinement\<close>

definition calm_trans :: "event \<Rightarrow> socket \<Rightarrow> socket \<Rightarrow> bool" where
  "calm_trans e s s' \<longleftrightarrow> calm e s \<and> step e s = Some s' \<and> few_conns s'"

definition fresh_socket :: "socket \<Rightarrow> bool" where
  "fresh_socket s \<longleftrightarrow> (\<exists>n > 0. s = init_socket n)"

definition fresh_ring :: "owner list \<Rightarrow> bool" where
  "fresh_ring os \<longleftrightarrow> (\<exists>n > 0. os = replicate n Kernel)"

lemma init_few: "few_conns (init_socket n)"
  by (simp add: init_socket_def few_conns_def max_refs_def)

lemma calm_step_refines:
  assumes "ring_ok s" and "calm_trans e s s'"
  shows "refines e s s'" and "ring_ok s'"
proof -
  have ex: "exec e s = Some s'" "calm e s" "few_conns s'"
    using assms(2) by (auto simp: calm_trans_def step_def split: if_splits)
  note D = ring_okD [OF assms(1)]
  show r: "refines e s s'" by (rule exec_refines [OF ex(1) assms(1)])
  then show "ring_ok s'"
    using exec_inv [OF D(1,2) ex(1)] exec_kernel_safe [OF ex(1) D(1,2,3) ex(2)] ex(3)
    by (simp add: ring_ok_def refines_def)
qed

interpretation sock: event_system fresh_socket calm_trans ring_ok
proof
  show "ring_ok s" if "fresh_socket s" for s
    using that calm_ring_ok [OF calm_reach.calm_start] init_few by (auto simp: fresh_socket_def)
  show "ring_ok s'" if "ring_ok s" "calm_trans e s s'" for s e s'
    using calm_step_refines(2) that .
qed

interpretation ring: refinement fresh_socket calm_trans ring_ok fresh_ring ring_step ring_of performs
proof
  show "fresh_ring (ring_of s)" if "fresh_socket s" for s
    using that by (auto simp: fresh_socket_def fresh_ring_def ring_of_init)
  show "ring_of s' = ring_of s \<or> (\<exists>a. performs e a \<and> ring_step a (ring_of s) (ring_of s'))"
    if "ring_ok s" "calm_trans e s s'" for s e s'
    using calm_step_refines(1) [OF that] by (simp add: refines_def)
qed

lemma run_trace:
  "run_events es s = Some s' \<Longrightarrow> calm_events es s \<Longrightarrow> few_conns s' \<Longrightarrow> trace calm_trans s es s'"
proof (induction es arbitrary: s)
  case (Cons e es)
  then obtain t where t: "step e s = Some t" "run_events es t = Some s'" by (auto split: option.splits)
  have "few_conns t" by (rule run_few_before [OF t(2) Cons.prems(3)])
  with Cons t show ?case by (auto simp: calm_trans_def)
qed simp

text \<open>C5: in every run in which \<^verbatim>\<open>ready\<close> never reads the status of a block whose clear is pending, the socket refines the
  abstract ring.  There is a run of the ring, from all blocks with the kernel to the owners at the end, that goes along with
  the events: each event does nothing to the ring or performs one action, and only an action of the goroutine that
  moves (the kernel fills a block that it owns, \<^verbatim>\<open>getNewBlocks\<close> announces a filled block, \<^verbatim>\<open>socket.run\<close> adds a holder to
  a held block, a \<^verbatim>\<open>run\<close> method drops a holder, and a block without holders goes back to the kernel).  So every block
  is filled, announced and given back in turn, each exactly once per round, and it is released exactly as often as it was
  announced and shared, but for the current round and its current holders.\<close>

theorem runs_refine_ring:
  assumes "0 < n" and "calm_events es (init_socket n)" and "run_events es (init_socket n) = Some s" and "few_conns s"
  shows "\<exists>as. along performs es as \<and> trace (stutter ring_step) (replicate n Kernel) as (ring_of s) \<and>
           (\<forall>b < n. let w = ring_of s ! b in
              performed as (Fill b) = performed as (GiveBack b) + of_bool (w \<noteq> Kernel) \<and>
              performed as (Announce b) = performed as (GiveBack b) + of_bool (is_held w) \<and>
              performed as (Announce b) + performed as (Share b) = performed as (Release b) + held w)"
proof -
  have "fresh_socket (init_socket n)" using assms(1) by (auto simp: fresh_socket_def)
  from ring.run_refines [OF this run_trace [OF assms(3,2,4)]] obtain as where
    as: "along performs es as" "trace (stutter ring_step) (replicate n Kernel) as (ring_of s)"
    by (auto simp: ring_of_init)
  moreover have "let w = ring_of s ! b in
      performed as (Fill b) = performed as (GiveBack b) + of_bool (w \<noteq> Kernel) \<and>
      performed as (Announce b) = performed as (GiveBack b) + of_bool (is_held w) \<and>
      performed as (Announce b) + performed as (Share b) = performed as (Release b) + held w" if "b < n" for b
    using ring_balanced [OF as(2), of b] that by (simp add: balanced_def Let_def del: nth_ring_of)
  ultimately show ?thesis by blast
qed

theorem runs_refine_ring_witness:
  "\<exists>as. along performs demo_deliver as \<and> trace (stutter ring_step) [Kernel, Kernel] as [Held 1, Kernel] \<and>
     performed as (Fill 0) = 1 \<and> performed as (Announce 0) = 1 \<and> performed as (Share 0) = performed as (Release 0)"
proof -
  have "calm_events demo_deliver (init_socket 2)" by code_simp
  from runs_refine_ring [OF _ this demo_deliver_run demo_few(2)] obtain as where
    as: "along performs demo_deliver as" "trace (stutter ring_step) (replicate 2 Kernel) as (ring_of demo_delivered)"
    and bal: "\<forall>b < 2. let w = ring_of demo_delivered ! b in
              performed as (Fill b) = performed as (GiveBack b) + of_bool (w \<noteq> Kernel) \<and>
              performed as (Announce b) = performed as (GiveBack b) + of_bool (is_held w) \<and>
              performed as (Announce b) + performed as (Share b) = performed as (Release b) + held w" by auto
  have r: "ring_of demo_delivered = [Held 1, Kernel]" "replicate 2 Kernel = [Kernel, Kernel]" by code_simp+
  have "performed as (Fill 0) \<le> length (filter (\<lambda>e. performs e (Fill 0)) demo_deliver)" by (rule performed_le [OF as(1)])
  also have "\<dots> = 1" by code_simp
  finally have "performed as (Fill 0) \<le> 1" .
  moreover have "0 < (2 :: nat)" by simp
  ultimately show ?thesis using as bal [rule_format, of 0] unfolding r by (intro exI [of _ as]) (simp add: Let_def)
qed

end
