(* ===== verification/Spec2Isabelle.thy ===== *)
theory Spec2Isabelle
  imports Diagnostics Session Socket_Recover Socket_Refine
begin

text \<open>
  Testimony lets several processes read the packets of one AF\_PACKET socket.  The daemon \<^verbatim>\<open>testimonyd\<close> opens the packet
  socket with a memory-mapped ring of blocks, which the kernel fills; a client connects over a Unix-domain
  socket, receives the descriptor of the packet socket, maps the ring read-only and is told, block
  by block, which part of the ring it may read; it answers with the number of a block when it is done with it.  The
  daemon counts the readers of every block and gives a block back to the kernel when the last one is done.

  \<^bold>\<open>Parts of the program and the theories that model them.\<close>

  \<^item> \<open>Prelude\<close>: Go's integer types as words, the wrap-around of \<^verbatim>\<open>int\<close>, the big-endian codec of
    \<^verbatim>\<open>encoding/binary\<close>.  \<open>Goio\<close>: a Unix-domain connection as a record of the data that will arrive, in the pieces in
    which it arrives, how reading ends, what has been written and which descriptors were passed, and when writing
    starts to fail; \<^verbatim>\<open>Read\<close>, \<^verbatim>\<open>io.ReadFull\<close>, \<^verbatim>\<open>Write\<close>, \<^verbatim>\<open>WriteMsgUnix\<close>, \<^verbatim>\<open>Close\<close>.  \<open>Gochan\<close>: buffered
    channels.  \<open>Gostrings\<close> and \<open>Gopath\<close>: the string and path functions of Go's library that are called.
  \<^item> \<open>Protocol\<close>: \<^verbatim>\<open>go/protocol/protocol.go\<close>, message types, TLV headers and the senders, and the generator
    \<^verbatim>\<open>go/protocol/to_c/to_c.go\<close>.
  \<^item> \<open>Block\<close>: reference counter and status word of a block (\<^verbatim>\<open>block\<close> in \<^verbatim>\<open>go/testimonyd/internal/socket/socket.go\<close>).
    \<open>Reads\<close>: the input side of a client, \<^verbatim>\<open>conn.handleReads\<close> and \<^verbatim>\<open>conn.handleTLV\<close>.
  \<^item> \<open>Socket\<close>: the goroutines \<^verbatim>\<open>getNewBlocks\<close>, \<^verbatim>\<open>socket.run\<close>, \<^verbatim>\<open>conn.run\<close> and \<^verbatim>\<open>conn.handleReads\<close> of one packet socket
    with any number of clients, as program counters in one state, and the kernel.  An event names the goroutine
    that moves and, where Go's runtime chooses, the choice; \<open>exec\<close> is its effect, \<open>None\<close> when it is not
    enabled.  The atomic counter, the status word and every channel operation are separate steps, so all
    interleavings are covered.  \<open>Socket_Inv\<close>, \<open>Socket_Conn\<close> and \<open>Socket_Run\<close> hold the invariant and its preservation,
    \<open>Socket_Safe\<close>, \<open>Socket_Live\<close>, \<open>Socket_Order\<close> and \<open>Socket_Race\<close> what follows from it.
    \<open>Socket_Spec\<close> specifies the owners of the blocks as an abstract ring, \<open>Event_System\<close> holds traces, invariants and refinement of
    event systems in general, and \<open>Socket_Refine\<close> shows that whole runs of the goroutines are runs of the ring.
    \<open>Socket_Recover\<close> shows that the daemon can always get back to a state without clients.
  \<^item> \<open>Bpf\<close>: \<^verbatim>\<open>compileFilter\<close>.  \<open>Afpacket\<close>: \<^verbatim>\<open>AFPacket\<close> of \<^verbatim>\<open>socket.c\<close> as the sequence of its system calls.
    \<open>Daemon\<close>: \<^verbatim>\<open>newSocket\<close>, \<^verbatim>\<open>RunTestimony\<close> with users, groups, permissions and fanout ids (\<^verbatim>\<open>daemon.go\<close>), and
    \<^verbatim>\<open>main\<close> of \<^verbatim>\<open>go/testimonyd/daemon.go\<close>.  \<open>Handshake\<close>: \<^verbatim>\<open>Testimony.handle\<close>.  \<open>Diagnostics\<close>: the \<^verbatim>\<open>String\<close> methods,
    \<^verbatim>\<open>vlog\<close>, \<^verbatim>\<open>reportStats\<close>, \<^verbatim>\<open>WaitForBlocks\<close> and the accept loop \<^verbatim>\<open>Testimony.run\<close>.
  \<^item> \<open>Client\<close> and \<open>Packets\<close>: the Go client library \<^verbatim>\<open>go/testimony/testimony.go\<close>, \<open>Connect\<close>, \<open>Conn_Init\<close>, \<open>Conn_Block\<close>,
    \<open>Block_Return\<close>, \<open>Conn_Close\<close> and the iteration over the packets of a block.  \<open>Testclient\<close>:
    \<^verbatim>\<open>go/testclient/testclient.go\<close>.
  \<^item> \<open>Cio\<close>, \<open>Cconn\<close>, \<open>Cblocks\<close> and \<open>Citer\<close>: the C client library \<^verbatim>\<open>c/testimony.c\<close>: the buffered reader \<^verbatim>\<open>recv_t\<close> with its two
    pointers into the buffer, \<open>testimony_connect\<close>, \<open>testimony_init\<close>, \<open>testimony_close\<close>, \<open>testimony_get_block\<close>, the return functions with
    the packet counters, and the packet iterator on addresses.  The state is the C structure and an operating system
    record with the answers still to come and \<^verbatim>\<open>errno\<close>.  \<open>Cmain\<close>: the test client \<^verbatim>\<open>c/testimony_client.c\<close>.
  \<^item> \<open>System\<close>, \<open>Csystem\<close> and this theory: the daemon composed with each of the client libraries.  \<open>Session\<close>: a whole session,
    the handshake and a run of the daemon's socket with one of the two test clients.

  \<^bold>\<open>Errors and panics.\<close>  A Go \<^verbatim>\<open>error\<close> is the left side of a sum or \<open>Some\<close> of an error; a panic of a sequential function is
  \<open>None\<close> or a constructor of its own; a panic of a goroutine is recorded in the field \<open>crashed\<close> of the socket,
  and nothing moves after it.  A C function returns a negative error number as the source does, and \<open>None\<close> for an invalid memory
  access or a division by zero.

  \<^bold>\<open>What is shown.\<close>

  \<^item> Sharing of blocks, in every interleaving: the reference counter of a block is the number of its holders, no
    goroutine panics or sends on a closed channel, no client is skipped, holds a block twice or leaks a
    reference; \<^verbatim>\<open>run\<close> always gets back to its \<^verbatim>\<open>select\<close> and a closing client can always be shut down to the
    end; each client is told consecutive ring positions.  From every reachable state, once the clients hang up, the
    goroutines can end every connection and bring every reference counter to zero.
  \<^item> Ownership: \<^verbatim>\<open>unref\<close> drops the last reference before it clears the status word.  A block that a client holds is
    never the kernel's as long as \<^verbatim>\<open>ready\<close> does not look at a block between these two steps; a reachable state
    in which it did, and a held block is the kernel's, is exhibited.  Without such an overlap every run of the
    socket is a run of an abstract ring of owners (kernel, filled, held \<open>n\<close> times), in which a block is filled, announced and given
    back in turn, and every fill of a block is announced exactly once.
  \<^item> The daemon's start: exactly which configurations are accepted, distinct fanout ids, automatic ids are least,
    files are owned before they are served, filters are attached and locked,
    \<^verbatim>\<open>AFPacket\<close> leaks nothing on any failing path.
  \<^item> Connections: a descriptor leaves the daemon only for a valid index; \<^verbatim>\<open>Connect\<close>, \<^verbatim>\<open>Init\<close>, \<^verbatim>\<open>Block\<close> and \<^verbatim>\<open>Close\<close> on every
    answer of the server; a block is its part of the ring; packets are read completely and in order.
  \<^item> The C library: its reader returns what \<^verbatim>\<open>io.ReadFull\<close> returns, its iterator visits the packets that \<^verbatim>\<open>Next\<close> visits;
    \<^verbatim>\<open>testimony_get_block\<close> stays inside the ring, packet-wise return sends a block back exactly once;
    \<^verbatim>\<open>testimony_connect\<close> frees what it took on failure; a refused fanout index can look like success to \<^verbatim>\<open>testimony_init\<close>.
  \<^item> End to end, for both client libraries: the handshakes agree, the client reads ring-consecutive blocks; a returned block
    is released; each test client prints exactly the packets of the blocks that the daemon announced to it.

  \<^bold>\<open>Interfaces.\<close>  The locales \<open>byte_source\<close> (exact reads), \<open>io_writer\<close> (writes append), \<open>bounded_fifo\<close> (channels) and
  \<open>refcount\<close> (counters) state what the components rely on; they are interpreted on \<open>ReadFull\<close>, on the C library's
  \<open>recv_t\<close> (a second \<open>byte_source\<close>), \<open>Write\<close>, the channel operations and \<open>ref\<close> and \<open>unref\<close>.  \<open>event_system\<close> (events that keep an
  invariant) and its extension \<open>refinement\<close> (each event is an abstract action or none) are interpreted on the socket and the ring.

  \<^bold>\<open>Bounds.\<close>  The counter is an \<^verbatim>\<open>int32\<close>, so the theorems on counters assume fewer than \<open>2 ^ 31 - 2\<close> connections since the
  start (\<open>few_conns\<close>); block numbers travel as 32-bit words whose high bit marks a message, hence at most
  \<open>2 ^ 31\<close> blocks.  Sizes are Go's 64-bit \<^verbatim>\<open>int\<close> with its wrap-around where they are multiplied.  Loops that read from
  a connection end because each round consumes input.  The loop over the packets of a block takes fuel, since
  the headers in shared memory could describe a cycle; any fuel above the block's number of packets is enough,
  which \<open>packets_complete\<close> proves.

  \<^bold>\<open>Parameters.\<close>  The kernel's answers to system calls, the user and group database, the output of tcpdump, the JSON
  decoder, random bytes, dialing, mapping, control messages and the layout of the kernel's packet headers
  are arguments of the definitions that use them.

  \<^bold>\<open>Not modelled.\<close>  Log output, except where \<open>Diagnostics\<close> models it, the texts of C error messages and the rounding and printing of the
  statistics' floating point quotients; syslog set-up and the umask; the variant of the C library for compilers without atomic builtins;
  \<^verbatim>\<open>testimony_conn\<close>, \<^verbatim>\<open>testimony_error\<close> and \<^verbatim>\<open>testimony_iter_close\<close>, which only return a part of a structure or free one; build
  rules, service definitions, the installation and integration test scripts, which have no program logic.
  Memory reads of the ring are reads of a list of bytes: the kernel's concurrent writes appear as changes of
  the status words, not of packet bytes.  Calls of the C library on one handle are in sequence, at the granularity of their
  atomic operations for the packet counters.
\<close>

section \<open>Daemon and client library\<close>

text \<open>C6: the two handshakes fit together.  If each side receives what the other side writes, then \<^verbatim>\<open>handle\<close> hands the connection to
  the socket that the client chose, and \<^verbatim>\<open>Connect\<close> and \<^verbatim>\<open>Init\<close> succeed with exactly the server's number of
  sockets, block size and number of blocks, with the descriptor that the server passed and the ring mapped from it.
  Nothing of the later traffic is consumed on either side.\<close>

theorem handshake_agrees:
  assumes server: "\<not> uclosed sc" "wroom sc = None" "wbytes sc = []" "pending sc = choice_bytes idx @ returns"
    and client: "\<not> uclosed k" "wroom k = None" "wbytes k = []" "[] \<notin> set (rchunks k)"
      "pending k = [2] @ hello_bytes (length socks) (si_conf (hd socks)) @ [0] @ blocks"
    and conf: "conf_ok (length socks) (si_conf (hd socks))" "idx < length socks"
    and machine: "localSocketName env = Some lname" "e_dial env lname name = Some k"
      "oob_msgs (e_oob env) = Some [Rights [fd]]" "oob_len (e_oob env) < 1024"
      "e_mmap env fd (wrap64 (BlockSize (si_conf (hd socks)) * NumBlocks (si_conf (hd socks)))) = Some mem"
  shows "\<exists>sc' t t' k'. handle socks sc = HandleHandoff idx sc' \<and>
           wbytes sc' @ blocks = pending k \<and> pending sc' = returns \<and> wfds sc' = wfds sc @ [si_fd (socks ! idx)] \<and>
           Connect env name = (Inr t, t) \<and> c_fanoutSize t = int (length socks) \<and>
           c_blockSize t = BlockSize (si_conf (hd socks)) \<and> c_numBlocks t = NumBlocks (si_conf (hd socks)) \<and>
           Conn_Init env (int idx) t = (None, t') \<and> c_fd t' = fd \<and> c_ring t' = Some mem \<and>
           c_sock t' = Some k' \<and> wbytes k' @ returns = pending sc \<and> pending k' = blocks"
proof -
  have "length socks < 2 ^ 32" using conf by (simp add: conf_ok_def)
  then obtain sc' where sc': "handle socks sc = HandleHandoff idx sc'"
      "wbytes sc' = [2] @ hello_bytes (length socks) (si_conf (hd socks)) @ [0]"
      "wfds sc' = wfds sc @ [si_fd (socks ! idx)]" "pending sc' = returns"
    using handle_ok [OF server(1,2,4) conf(2)] server(3) by auto
  obtain t k' where "Connect env name = (Inr t, t)"
      "Conn_Init env (int idx) t = (None, t\<lparr>c_sock := Some k', c_fd := fd, c_ring := Some mem\<rparr>)"
      "c_fanoutSize t = int (length socks)" "c_blockSize t = BlockSize (si_conf (hd socks))"
      "c_numBlocks t = NumBlocks (si_conf (hd socks))" "wbytes k' = choice_bytes idx" "pending k' = blocks"
    using connect_init_ok [OF client conf(1) machine, of idx] by blast
  with sc' client(5) server(4) show ?thesis by auto
qed

definition demo_calling :: uconn where
  "demo_calling =
     \<lparr>rchunks = [[2] @ hello_bytes 2 (si_conf (hd demo_socks)), [0, 0, 0, 0, 3]], rfin = EOF, wbytes = [], wfds = [],
      wroom = None, uclosed = False\<rparr>"

theorem handshake_agrees_witness:
  "\<exists>sc' t t' k'. handle demo_socks demo_asking = HandleHandoff 1 sc' \<and>
     Connect (demo_env (Some demo_calling) demo_ctl) ''/a'' = (Inr t, t) \<and> c_numBlocks t = 4 \<and>
     Conn_Init (demo_env (Some demo_calling) demo_ctl) 1 t = (None, t') \<and> c_fd t' = 9 \<and> c_sock t' = Some k' \<and>
     pending k' = [0, 0, 0, 3]"
proof -
  let ?env = "demo_env (Some demo_calling) demo_ctl"
  have server: "\<not> uclosed demo_asking" "wroom demo_asking = None" "wbytes demo_asking = []"
    by (simp_all add: demo_asking_def)
  have socks: "length demo_socks = 2" "BlockSize (si_conf (hd demo_socks)) = 4096" "NumBlocks (si_conf (hd demo_socks)) = 4"
    by (simp_all add: demo_socks_def demo_sock_def demo_config_def)
  have client: "\<not> uclosed demo_calling" "wroom demo_calling = None" "wbytes demo_calling = []"
      "[] \<notin> set (rchunks demo_calling)"
      "pending demo_calling = [2] @ hello_bytes (length demo_socks) (si_conf (hd demo_socks)) @ [0] @ [0, 0, 0, 3]"
    by (simp_all add: demo_calling_def pending_def socks)
  have conf: "conf_ok (length demo_socks) (si_conf (hd demo_socks))" "1 < length demo_socks"
    by (simp_all add: conf_ok_def socks)
  have machine: "e_dial ?env ''/tmp/testimony_go_client_0102030405060708'' ''/a'' = Some demo_calling"
      "oob_msgs (e_oob ?env) = Some [Rights [9]]" "oob_len (e_oob ?env) < 1024"
      "e_mmap ?env 9 (wrap64 (BlockSize (si_conf (hd demo_socks)) * NumBlocks (si_conf (hd demo_socks)))) =
       Some (replicate (nat (wrap64 (BlockSize (si_conf (hd demo_socks)) * NumBlocks (si_conf (hd demo_socks))))) 0)"
    by (simp_all add: demo_env_def demo_ctl_def)
  from handshake_agrees [OF server demo_asking_pending client conf demo_env_name machine] socks show ?thesis
    by auto
qed

text \<open>C7: from the kernel to the user of the client library, blocks arrive in ring order.  After any run of the daemon since the
  client was registered, with nothing of the client's output buffered, a client library that has received all
  bytes written to it gets from \<^verbatim>\<open>Block\<close>, call after call, exactly a sequence of ring-consecutive block numbers that,
  continued by the blocks still in the daemon's channels, ends at the block the daemon waits for.\<close>

theorem library_reads_ring_order:
  assumes run: "reach n s" "0 < n" "n \<le> 2 ^ 31" "run_events (ENewConn k # es) s = Some s'" "few_conns s'"
    and conn: "c = length (conns s)" "c_pc (conns s' ! c) = CSelect"
    and lib: "conn_ready t" "c_numBlocks t = int n" "c_sock t = Some q" "\<not> uclosed q" "wroom q = None"
      "wbytes k @ pending q = wbytes (sock (conns s' ! c))"
  shows "\<exists>bs. pending q = indexes bs \<and> blocks_read (length bs) t = map int bs \<and>
           ring_run n (bs @ pipeline s' c) (blockIndex s')"
proof -
  obtain bs where bs: "wbytes (sock (conns s' ! c)) = wbytes k @ indexes bs"
      "ring_run n (bs @ pipeline s' c) (blockIndex s')"
    using ring_order_from_start [OF run(1,2,4,5) conn(1)] conn(2) by auto
  then have q: "pending q = indexes bs" using lib(6) by simp
  have "\<forall>b \<in> set bs. b < n" using ring_run_bound [OF bs(2)] by auto
  with lib q run(3) have "announces t bs" by (auto simp: announces_def)
  then show ?thesis using blocks_read_announced q bs(2) by blast
qed

definition demo_library :: Conn where
  "demo_library =
     \<lparr>c_sock = Some (demo_conn\<lparr>rchunks := [[0, 0, 0, 0]]\<rparr>), c_fd = 9, c_ring = Some (replicate 8 0), c_numBlocks = 2,
      c_blockSize = 4, c_fanoutSize = 1\<rparr>"

theorem library_reads_ring_order_witness:
  "\<exists>bs. indexes bs = [0, 0, 0, 0] \<and> blocks_read (length bs) demo_library = map int bs \<and>
     ring_run 2 (bs @ pipeline demo_delivered 0) (blockIndex demo_delivered)"
proof -
  have run: "run_events (ENewConn demo_conn # tl demo_deliver) (init_socket 2) = Some demo_delivered"
    using demo_deliver_run by (simp add: demo_deliver_def demo_queue_def)
  show ?thesis
    using library_reads_ring_order [OF reach.start _ _ run demo_few(2), of 0 demo_library "demo_conn\<lparr>rchunks := [[0, 0, 0, 0]]\<rparr>"]
    by (auto simp: init_socket_def demo_delivered_def demo_client_def demo_library_def conn_ready_def demo_conn_def pending_def)
qed

section \<open>Daemon and C client library\<close>


definition demo_c_answers :: "recv_ans list" where
  "demo_c_answers = [RData [2], RData (hello_bytes 2 (si_conf (hd demo_socks)))]"


text \<open>C10: from the kernel to the user of the C library, blocks arrive in ring order and go back.  After any run of the daemon since the
  client was registered, with nothing of the client's output buffered, a C client that has received all bytes written to it and that
  gets and returns blocks in turn is given the addresses of ring-consecutive blocks, which, continued by the blocks
  still in the daemon's channels, end at the block the daemon waits for; it sends back exactly their numbers.\<close>

theorem c_library_reads_ring_order:
  assumes run: "reach n s" "0 < n" "n \<le> 2 ^ 31" "run_events (ENewConn k # es) s = Some s'" "few_conns s'"
    and conn: "c = length (conns s)" "c_pc (conns s' ! c) = CSelect"
    and lib: "c_ready t" "unat (t_block_nr t) = n" "set (c_counts t) = {0}" "sends q = []"
      "wbytes k @ unread (t, q) = wbytes (sock (conns s' ! c))"
  shows "\<exists>bs t' q'. unread (t, q) = indexes bs \<and> c_client npk (length bs) t q = Some (map (block_ptr t) bs, t', q') \<and>
           sent q' = sent q @ indexes bs \<and> ring_run n (bs @ pipeline s' c) (blockIndex s')"
proof -
  obtain bs where bs: "wbytes (sock (conns s' ! c)) = wbytes k @ indexes bs" "ring_run n (bs @ pipeline s' c) (blockIndex s')"
    using ring_order_from_start [OF run(1,2,4,5) conn(1)] conn(2) by auto
  then have un: "unread (t, q) = indexes bs" using lib(5) by simp
  have "\<forall>b \<in> set bs. b < n" using ring_run_bound [OF bs(2)] by auto
  then have "\<forall>b \<in> set bs. b < unat (t_block_nr t) \<and> b < 2 ^ 31" using lib(2) run(3) by auto
  moreover have "\<forall>x \<in> set (c_counts t). x = 0" using lib(3) by simp
  ultimately obtain t' q' where "c_client npk (length bs) t q = Some (map (block_ptr t) bs, t', q')" "sent q' = sent q @ indexes bs"
    using c_client_announced [OF lib(1) un _ _ lib(4), of npk] by blast
  then show ?thesis using un bs(2) by blast
qed

theorem c_library_reads_ring_order_witness:
  "\<exists>bs t' q'. indexes bs = [0, 0, 0, 0] \<and>
     c_client (\<lambda>p. 5) (length bs) demo_idle (demo_os\<lparr>answers := [RData [0, 0, 0, 0]]\<rparr>) = Some (map (block_ptr demo_idle) bs, t', q') \<and>
     sent q' = [0, 0, 0, 0]"
proof -
  define q where "q = demo_os\<lparr>answers := [RData [0, 0, 0, 0]]\<rparr>"
  have run: "run_events (ENewConn demo_conn # tl demo_deliver) (init_socket 2) = Some demo_delivered"
    using demo_deliver_run by (simp add: demo_deliver_def demo_queue_def)
  have q: "unread (demo_idle, q) = [0, 0, 0, 0]" "sends q = []" "sent q = []"
    by (simp_all add: q_def demo_os_def unread_def buffered_def demo_idle_def demo_handle_def zero_testimony_def)
  have "set (c_counts demo_idle) = {0}" "wbytes demo_conn @ unread (demo_idle, q) = wbytes (sock (conns demo_delivered ! 0))"
    by (simp_all add: demo_idle_ready q demo_delivered_def demo_client_def demo_conn_def)
  from c_library_reads_ring_order [OF reach.start _ _ run demo_few(2) _ _ demo_idle_ready(1,3) this(1) q(2) this(2), of "\<lambda>p. 5"] q
  show ?thesis
    unfolding q_def [symmetric] by (auto simp: init_socket_def demo_delivered_def demo_client_def)
qed

section \<open>Returning a block\<close>

text \<open>C8: a block that the user of either client library returns is released.  The bytes that \<^verbatim>\<open>Return\<close> of the Go library or
  \<^verbatim>\<open>testimony_return_block\<close> of the C library writes, once they reach the daemon, make the client's goroutines drop exactly this
  client's reference of exactly this block: its counter goes down by one and no other counter changes.  When it was the last
  reference, the goroutine's next step gives the block, and no other, back to the kernel.\<close>

theorem library_return_releases:
  assumes run: "reach n s" "0 < n" "n \<le> 2 ^ 31" "few_conns s" "crashed s = None"
    and conn: "c < length (conns s)" "idle_conn (conns s ! c)" "i < n" "outstanding (conns s ! c) ! i"
    and lib: "(\<exists>b q b' q'. Block_Return b q = Some (None, b', q') \<and> b_i b = int i \<and> written q' = written q @ bytes) \<or>
      (\<exists>npk t w t' w'. c_ready t \<and> unat (t_block_nr t) = n \<and> errs_ok w \<and>
         testimony_return_block npk t (block_ptr t i) w = Some (0, t', w') \<and> sent w' = sent w @ bytes)"
  shows "\<exists>s'. run_events (return_events c bytes) s = Some s' \<and> crashed s' = None \<and>
           refs s' = (refs s)[i := refs s ! i - 1] \<and> \<not> outstanding (conns s' ! c) ! i \<and>
           (if refs s ! i = 1
            then \<exists>s''. run_events (return_events c bytes @ [EConn c]) s = Some s'' \<and> crashed s'' = None \<and>
                   refs s'' = (refs s)[i := 0] \<and> status s'' = (status s)[i := 0]
            else status s' = status s)"
proof -
  have bytes: "bytes = PutUint32 (of_nat i)"
    using lib Block_Return_bytes return_block_bytes conn(3) by (metis same_append_eq)
  have inv: "sock_inv s" "numBlocks s = n" using reach_inv [OF run(1,2,4)] by auto
  have i: "i < numBlocks s" "numBlocks s \<le> 2 ^ 31" using inv(2) conn(3) run(3) by auto
  show ?thesis
    using return_release [OF inv(1) run(4,5) conn(1,2) i conn(4)] return_clears [OF inv(1) run(4,5) conn(1,2) i conn(4)]
    unfolding bytes by (cases "refs s ! i = 1") fastforce+
qed

theorem library_return_releases_witness:
  "\<exists>s' s''. run_events (return_events 0 [0, 0, 0, 0]) demo_delivered = Some s' \<and> refs s' = [0, 0] \<and>
     run_events (return_events 0 [0, 0, 0, 0] @ [EConn 0]) demo_delivered = Some s'' \<and> status s'' = [0, 0]"
proof -
  have "Block_Return (new_Block 0 nil_slice) demo_library =
      Some (None, (new_Block 0 nil_slice)\<lparr>b_t := False\<rparr>,
        demo_library\<lparr>c_sock := Some (demo_conn\<lparr>rchunks := [[0, 0, 0, 0]], wbytes := [0, 0, 0, 0]\<rparr>)\<rparr>)"
    by (simp add: Block_Return_def new_Block_def demo_library_def demo_conn_def PutUint32_def)
  moreover have "b_i (new_Block 0 nil_slice) = int 0"
      "written (demo_library\<lparr>c_sock := Some (demo_conn\<lparr>rchunks := [[0, 0, 0, 0]], wbytes := [0, 0, 0, 0]\<rparr>)\<rparr>) =
       written demo_library @ [0, 0, 0, 0]"
    by (simp_all add: new_Block_def written_def demo_library_def demo_conn_def)
  ultimately have lib: "\<exists>b q b' q'. Block_Return b q = Some (None, b', q') \<and> b_i b = int 0 \<and> written q' = written q @ [0, 0, 0, 0]"
    by blast
  have d: "refs demo_delivered = [1, 0]" "status demo_delivered ! 1 = 0" "length (status demo_delivered) = 2" "crashed demo_delivered = None"
      "0 < length (conns demo_delivered)" "idle_conn (conns demo_delivered ! 0)" "outstanding (conns demo_delivered ! 0) ! 0"
    by (simp_all add: demo_delivered_def demo_client_def idle_conn_def demo_conn_def make_chan_def)
  have st: "(status demo_delivered)[0 := 0] = [0, 0]" using d(2,3) by (cases "status demo_delivered") (auto simp: length_Suc_conv)
  from library_return_releases [OF demo_reach(2) _ _ demo_few(2) d(4,5,6) _ d(7) disjI1 [OF lib]] d(1) st show ?thesis
    by auto
qed

end
